theory Spec2Isabelle
  imports Main
begin

section \<open>Data model of the physical views (legion\_views.cc)\<close>

text \<open>
  An \<open>Event\<close> is an opaque handle; \<open>Event::NO_EVENT\<close> is the handle 0 and
  \<open>exists()\<close> tests for a handle different from it. A \<open>FieldMask\<close> is a bitset
  over the field space: it is modelled by the set of the indices of its set bits, so
  that \<open>&\<close> is intersection, \<open>|\<close> is union, \<open>-\<close> is set difference, \<open>!m\<close> is
  \<open>m = {}\<close> and the disjointness test \<open>a * b\<close> is \<open>a \<inter> b = {}\<close>.
\<close>

type_synonym Event = nat
type_synonym FieldMask = "nat set"
type_synonym ReductionOpID = nat
type_synonym VersionID = nat

definition NO_EVENT :: Event where
  "NO_EVENT = 0"

definition event_exists :: "Event \<Rightarrow> bool" where
  "event_exists e = (e \<noteq> NO_EVENT)"

datatype PrivilegeMode = NO_ACCESS | READ_ONLY | READ_WRITE | WRITE_DISCARD | REDUCE

datatype CoherenceProperty = EXCLUSIVE | ATOMIC | SIMULTANEOUS | RELAXED

record RegionUsage =
  privilege :: PrivilegeMode
  coherence_prop :: CoherenceProperty
  redop :: ReductionOpID

text \<open>
  Modelled from the spec: the privilege macros \<open>IS_READ_ONLY\<close> and \<open>IS_REDUCE\<close> are
  defined in a header that is not part of this file. The spec lists the privileges
  read-only, read-write, write-discard, reduce and no-access; the macros are taken to
  recognise the privilege they name.
\<close>

definition IS_READ_ONLY :: "RegionUsage \<Rightarrow> bool" where
  "IS_READ_ONLY u = (privilege u = READ_ONLY)"

definition IS_REDUCE :: "RegionUsage \<Rightarrow> bool" where
  "IS_REDUCE u = (privilege u = REDUCE)"

datatype DependenceType =
  NO_DEPENDENCE | TRUE_DEPENDENCE | ANTI_DEPENDENCE | ATOMIC_DEPENDENCE | SIMULTANEOUS_DEPENDENCE

text \<open>
  A \<open>ColorPoint\<close> addresses a child of a region tree node; the default constructed
  \<open>ColorPoint()\<close> is not valid.
\<close>

datatype ColorPoint = InvalidColor | Color nat

fun is_valid :: "ColorPoint \<Rightarrow> bool" where
  "is_valid InvalidColor = False"
| "is_valid (Color c) = True"

text \<open>
  \<open>FieldVersions\<close> is a \<open>LegionMap<VersionID,FieldMask>\<close>. A \<open>PhysicalUser\<close> is an
  immutable record of usage, child color and optional versions, with the reference count
  it inherits from \<open>Collectable\<close>. Users are handled through pointers; a pointer is an
  address (a natural number) and the heap maps every address to the object stored there.
\<close>

type_synonym FieldVersions = "(VersionID \<times> FieldMask) list"

record PhysicalUser =
  usage :: RegionUsage
  child :: ColorPoint
  versions :: "FieldVersions option"

type_synonym PhysicalUserPtr = nat

text \<open>
  Modelled from the spec: \<open>PhysicalUser::same_versions\<close> is defined in another file.
  The spec describes it as "matching field-version ids on the overlap": for every field of
  the overlap the user recorded a version id, and the version ids it recorded for the
  field are exactly those the caller holds for it. A user that recorded no versions
  matches nothing. \<open>versions_at\<close> reads the version ids a map holds for one field.
\<close>

definition versions_at :: "FieldVersions \<Rightarrow> nat \<Rightarrow> VersionID set" where
  "versions_at field_versions f = set (map fst (filter (\<lambda>vm. f \<in> snd vm) field_versions))"

definition same_versions :: "PhysicalUser \<Rightarrow> FieldMask \<Rightarrow> FieldVersions \<Rightarrow> bool" where
  "same_versions user overlap other =
     (case versions user of
        None \<Rightarrow> False
      | Some local_versions \<Rightarrow>
          (\<forall>f \<in> overlap.
             versions_at local_versions f \<noteq> {} \<and>
             versions_at local_versions f = versions_at other f))"

text \<open>
  The part of a \<open>RegionTreeNode\<close> the views consult: its color in its parent and the
  disjointness query on its children, both answered by the region tree, an external
  collaborator; \<open>node_id\<close> stands for the identity of the node. Of a \<open>VersionInfo\<close>
  the views ask whether a node is its upper bound and which field versions it holds for a
  node.
\<close>

record RegionTreeNode =
  node_id :: nat
  get_color :: ColorPoint
  are_children_disjoint :: "ColorPoint \<Rightarrow> ColorPoint \<Rightarrow> bool"

record VersionInfo =
  is_upper_bound_node :: "nat \<Rightarrow> bool"
  get_versions :: "nat \<Rightarrow> FieldVersions option"

section \<open>Ordered maps and the user epoch tables\<close>

text \<open>
  \<open>std::map\<close> and \<open>LegionMap\<close> are ordered maps: they are modelled by association
  lists kept in increasing key order, so that a traversal of the list is the iteration of
  the map. \<open>map_of\<close> is \<open>find\<close>, \<open>map_set\<close> is the assignment through \<open>operator[]\<close>
  (insert or overwrite) and \<open>map_erase\<close> is \<open>erase\<close> by key.
\<close>

fun map_set :: "nat \<Rightarrow> 'v \<Rightarrow> (nat \<times> 'v) list \<Rightarrow> (nat \<times> 'v) list" where
  "map_set k v [] = [(k, v)]"
| "map_set k v ((k', v') # m) =
     (if k < k' then (k, v) # (k', v') # m
      else if k = k' then (k, v) # m
      else (k', v') # map_set k v m)"

definition map_erase :: "nat \<Rightarrow> (nat \<times> 'v) list \<Rightarrow> (nat \<times> 'v) list" where
  "map_erase k m = filter (\<lambda>kv. fst kv \<noteq> k) m"

text \<open>
  \<open>EventUsers\<close> is a tagged union: the flag \<open>single\<close> selects between one user pointer
  and a pointer to a map from users to masks; \<open>user_mask\<close> is the summary mask. An entry
  that \<open>operator[]\<close> has just default-constructed (single, with a NULL user and an empty
  mask) is filled in by every function of the file before it returns; the model therefore
  has no NULL user, and the test \<open>single_user == NULL\<close> on the reference returned by
  \<open>operator[]\<close> is the test that the key was absent.
\<close>

datatype Users =
  single_user PhysicalUserPtr
| multi_users "(PhysicalUserPtr \<times> FieldMask) list"

record EventUsers =
  user_mask :: FieldMask
  users :: Users

text \<open>
  The state the instance views share. \<open>use_event\<close> is the value of
  \<open>manager->get_use_event()\<close>. The last four fields are the heap of this view's
  \<open>PhysicalUser\<close> objects: the object at each address, its reference count, the set of
  addresses holding an object that was allocated and not yet deleted, and the next
  address \<open>legion_new\<close> hands out (the model never reuses an address).
\<close>

record InstanceView =
  logical_node :: RegionTreeNode
  use_event :: Event
  outstanding_gc_events :: "Event set"
  initial_user_events :: "Event set"
  user_heap :: "PhysicalUserPtr \<Rightarrow> PhysicalUser"
  references :: "PhysicalUserPtr \<Rightarrow> nat"
  live_users :: "PhysicalUserPtr set"
  next_address :: PhysicalUserPtr

record MaterializedView = InstanceView +
  current_epoch_users :: "(Event \<times> EventUsers) list"
  previous_epoch_users :: "(Event \<times> EventUsers) list"

record ReductionView = InstanceView +
  reduction_users :: "(Event \<times> EventUsers) list"
  reading_users :: "(Event \<times> EventUsers) list"

text \<open>
  \<open>legion_new<PhysicalUser>\<close>, \<open>Collectable::add_reference\<close>,
  \<open>Collectable::remove_reference\<close> and \<open>legion_delete\<close>. A new object has no
  reference. \<open>remove_reference\<close> returns true when it removed the last reference; the
  callers that test the result delete the object then (\<open>drop_reference\<close>), the callers
  that ignore it do not (\<open>remove_reference\<close>). A count that is already zero stays zero.
\<close>

definition legion_new ::
  "PhysicalUser \<Rightarrow> 'a InstanceView_scheme \<Rightarrow> PhysicalUserPtr \<times> 'a InstanceView_scheme" where
  "legion_new obj v =
     (next_address v,
      v\<lparr>user_heap := (user_heap v)(next_address v := obj),
        references := (references v)(next_address v := 0),
        live_users := insert (next_address v) (live_users v),
        next_address := Suc (next_address v)\<rparr>)"

definition add_reference :: "PhysicalUserPtr \<Rightarrow> 'a InstanceView_scheme \<Rightarrow> 'a InstanceView_scheme" where
  "add_reference p v = v\<lparr>references := (references v)(p := Suc (references v p))\<rparr>"

definition remove_reference ::
  "PhysicalUserPtr \<Rightarrow> 'a InstanceView_scheme \<Rightarrow> 'a InstanceView_scheme" where
  "remove_reference p v = v\<lparr>references := (references v)(p := references v p - 1)\<rparr>"

definition legion_delete :: "PhysicalUserPtr \<Rightarrow> 'a InstanceView_scheme \<Rightarrow> 'a InstanceView_scheme" where
  "legion_delete p v = v\<lparr>live_users := live_users v - {p}\<rparr>"

definition drop_reference :: "PhysicalUserPtr \<Rightarrow> 'a InstanceView_scheme \<Rightarrow> 'a InstanceView_scheme" where
  "drop_reference p v =
     (if references v p = 1 then legion_delete p (remove_reference p v)
      else remove_reference p v)"

text \<open>
  The pointers a bucket holds, in iteration order, and the loop
  \<open>if (user->remove_reference()) legion_delete(user)\<close> over them, which
  \<open>filter_local_users\<close>, \<open>filter_previous_users\<close> and \<open>filter_current_users\<close> run
  before they erase a bucket.
\<close>

definition bucket_users :: "EventUsers \<Rightarrow> PhysicalUserPtr list" where
  "bucket_users event_users =
     (case users event_users of
        single_user u \<Rightarrow> [u]
      | multi_users m \<Rightarrow> map fst m)"

definition release_users :: "EventUsers \<Rightarrow> 'a InstanceView_scheme \<Rightarrow> 'a InstanceView_scheme" where
  "release_users event_users v = fold drop_reference (bucket_users event_users) v"

text \<open>
  \<open>MaterializedView::add_current_user\<close> (lines 1976-2009),
  \<open>MaterializedView::add_previous_user\<close> (lines 2012-2045) and
  \<open>ReductionView::add_physical_user\<close> (lines 4539-4576) run the same statements on
  different tables; \<open>add_event_user\<close> is that body, on the table it is given.
\<close>

definition add_event_user ::
  "PhysicalUserPtr \<Rightarrow> Event \<Rightarrow> FieldMask \<Rightarrow> (Event \<times> EventUsers) list \<Rightarrow>
   (Event \<times> EventUsers) list" where
  "add_event_user user term_event fmask table =
     (case map_of table term_event of
        None \<Rightarrow> map_set term_event \<lparr>user_mask = fmask, users = single_user user\<rparr> table
      | Some event_users \<Rightarrow>
          (case users event_users of
             single_user u \<Rightarrow>
               map_set term_event
                 \<lparr>user_mask = user_mask event_users \<union> fmask,
                  users = multi_users (map_set user fmask (map_set u (user_mask event_users) []))\<rparr>
                 table
           | multi_users m \<Rightarrow>
               map_set term_event
                 \<lparr>user_mask = user_mask event_users \<union> fmask,
                  users = multi_users (map_set user fmask m)\<rparr>
                 table))"

definition add_current_user ::
  "PhysicalUserPtr \<Rightarrow> Event \<Rightarrow> FieldMask \<Rightarrow> MaterializedView \<Rightarrow> MaterializedView" where
  "add_current_user user term_event fmask v =
     v\<lparr>current_epoch_users := add_event_user user term_event fmask (current_epoch_users v)\<rparr>"

definition add_previous_user ::
  "PhysicalUserPtr \<Rightarrow> Event \<Rightarrow> FieldMask \<Rightarrow> MaterializedView \<Rightarrow> MaterializedView" where
  "add_previous_user user term_event fmask v =
     v\<lparr>previous_epoch_users := add_event_user user term_event fmask (previous_epoch_users v)\<rparr>"

text \<open>
  \<open>MaterializedView::filter_local_users\<close> (lines 2173-2232), as compiled without
  \<open>LEGION_SPY\<close> and \<open>EVENT_GRAPH_TRACE\<close>.
\<close>

definition filter_local_users :: "Event \<Rightarrow> MaterializedView \<Rightarrow> MaterializedView" where
  "filter_local_users term_event v =
     (if term_event \<in> outstanding_gc_events v then
        let v1 = (case map_of (current_epoch_users v) term_event of
                    None \<Rightarrow> v
                  | Some event_users \<Rightarrow>
                      (release_users event_users v)
                        \<lparr>current_epoch_users := map_erase term_event (current_epoch_users v)\<rparr>);
            v2 = (case map_of (previous_epoch_users v1) term_event of
                    None \<Rightarrow> v1
                  | Some event_users \<Rightarrow>
                      (release_users event_users v1)
                        \<lparr>previous_epoch_users := map_erase term_event (previous_epoch_users v1)\<rparr>)
        in v2\<lparr>outstanding_gc_events := outstanding_gc_events v2 - {term_event}\<rparr>
      else v)"

text \<open>
  \<open>MaterializedView::filter_previous_users\<close> (lines 1610-1685):
  \<open>filter_previous_entry\<close> is the body of its loop for one entry of the filter map.
\<close>

definition filter_previous_entry :: "Event \<times> FieldMask \<Rightarrow> MaterializedView \<Rightarrow> MaterializedView" where
  "filter_previous_entry fit v =
     (case map_of (previous_epoch_users v) (fst fit) of
        None \<Rightarrow> v
      | Some event_users \<Rightarrow>
          let summary = user_mask event_users - snd fit in
          if summary = {} then
            (release_users event_users v)
              \<lparr>previous_epoch_users := map_erase (fst fit) (previous_epoch_users v)\<rparr>
          else
            (case users event_users of
               single_user u \<Rightarrow>
                 v\<lparr>previous_epoch_users :=
                     map_set (fst fit) (event_users\<lparr>user_mask := summary\<rparr>) (previous_epoch_users v)\<rparr>
             | multi_users m \<Rightarrow>
                 let filtered = map (\<lambda>(p, pm). (p, pm - snd fit)) m;
                     to_delete = map fst (filter (\<lambda>(p, pm). pm = {}) filtered);
                     remaining = fold map_erase to_delete filtered;
                     v1 = fold drop_reference to_delete v;
                     shrunk =
                       (case remaining of
                          [(user, pm)] \<Rightarrow>
                            if to_delete \<noteq> [] then \<lparr>user_mask = pm, users = single_user user\<rparr>
                            else \<lparr>user_mask = summary, users = multi_users remaining\<rparr>
                        | _ \<Rightarrow> \<lparr>user_mask = summary, users = multi_users remaining\<rparr>)
                 in v1\<lparr>previous_epoch_users := map_set (fst fit) shrunk (previous_epoch_users v)\<rparr>))"

definition filter_previous_users ::
  "(Event \<times> FieldMask) list \<Rightarrow> MaterializedView \<Rightarrow> MaterializedView" where
  "filter_previous_users filter_previous v = fold filter_previous_entry filter_previous v"

text \<open>
  \<open>MaterializedView::filter_current_users\<close> (lines 1688-1973). The body of its loop
  is split by the shape of the current bucket. \<open>set_previous\<close> is the write through the
  reference \<open>prev_users = previous_epoch_users[cit->first]\<close>.
\<close>

definition set_previous :: "Event \<Rightarrow> EventUsers \<Rightarrow> MaterializedView \<Rightarrow> MaterializedView" where
  "set_previous ev event_users v =
     v\<lparr>previous_epoch_users := map_set ev event_users (previous_epoch_users v)\<rparr>"

text \<open>
  Lines 1726-1794: the current bucket holds a single user. The flag returned says whether
  the event was pushed on \<open>events_to_delete\<close>.
\<close>

definition filter_current_single ::
  "Event \<Rightarrow> PhysicalUserPtr \<Rightarrow> FieldMask \<Rightarrow> FieldMask \<Rightarrow> MaterializedView \<Rightarrow>
   bool \<times> MaterializedView" where
  "filter_current_single ev user current_mask summary_overlap v =
     (case map_of (previous_epoch_users v) ev of
        None \<Rightarrow>
          let v1 = set_previous ev \<lparr>user_mask = summary_overlap, users = single_user user\<rparr> v in
          if current_mask = {} then (True, v1) else (False, add_reference user v1)
      | Some prev_users \<Rightarrow>
          (case users prev_users of
             single_user prev_user \<Rightarrow>
               if prev_user = user then
                 let v1 = set_previous ev
                            (prev_users\<lparr>user_mask := user_mask prev_users \<union> summary_overlap\<rparr>) v in
                 if current_mask = {} then (True, remove_reference user v1) else (False, v1)
               else
                 let new_map = map_set user summary_overlap
                                 (map_set prev_user (user_mask prev_users) []);
                     v1 = set_previous ev
                            \<lparr>user_mask = user_mask prev_users \<union> summary_overlap,
                             users = multi_users new_map\<rparr> v in
                 if current_mask = {} then (True, v1) else (False, add_reference user v1)
           | multi_users pm \<Rightarrow>
               (case map_of pm user of
                  None \<Rightarrow>
                    let v1 = set_previous ev
                               \<lparr>user_mask = user_mask prev_users \<union> summary_overlap,
                                users = multi_users (map_set user summary_overlap pm)\<rparr> v in
                    if current_mask = {} then (True, v1) else (False, add_reference user v1)
                | Some fm \<Rightarrow>
                    let v1 = set_previous ev
                               \<lparr>user_mask = user_mask prev_users \<union> summary_overlap,
                                users = multi_users (map_set user (fm \<union> summary_overlap) pm)\<rparr> v in
                    if current_mask = {} then (True, remove_reference user v1) else (False, v1))))"

text \<open>
  Lines 1831-1849: one step of the loop that merges the users of the current bucket into
  a previous bucket that is already a map.
\<close>

definition merge_back_step ::
  "PhysicalUserPtr \<times> FieldMask \<Rightarrow> (PhysicalUserPtr \<times> FieldMask) list \<times> MaterializedView \<Rightarrow>
   (PhysicalUserPtr \<times> FieldMask) list \<times> MaterializedView" where
  "merge_back_step it acc =
     (case map_of (fst acc) (fst it) of
        None \<Rightarrow> (map_set (fst it) (snd it) (fst acc), snd acc)
      | Some fm \<Rightarrow>
          (map_set (fst it) (fm \<union> snd it) (fst acc), remove_reference (fst it) (snd acc)))"

text \<open>
  Lines 1798-1855: the current bucket is a map and its whole summary mask is dominated, so
  the whole set moves back and the event is deleted from the current epoch.
\<close>

definition filter_current_whole ::
  "Event \<Rightarrow> (PhysicalUserPtr \<times> FieldMask) list \<Rightarrow> FieldMask \<Rightarrow> MaterializedView \<Rightarrow>
   MaterializedView" where
  "filter_current_whole ev cm summary_overlap v =
     (case map_of (previous_epoch_users v) ev of
        None \<Rightarrow> set_previous ev \<lparr>user_mask = summary_overlap, users = multi_users cm\<rparr> v
      | Some prev_users \<Rightarrow>
          (case users prev_users of
             single_user prev_user \<Rightarrow>
               (case map_of cm prev_user of
                  None \<Rightarrow>
                    set_previous ev
                      \<lparr>user_mask = user_mask prev_users \<union> summary_overlap,
                       users = multi_users (map_set prev_user (user_mask prev_users) cm)\<rparr> v
                | Some fm \<Rightarrow>
                    remove_reference prev_user
                      (set_previous ev
                         \<lparr>user_mask = user_mask prev_users \<union> summary_overlap,
                          users = multi_users
                                    (map_set prev_user (fm \<union> user_mask prev_users) cm)\<rparr> v))
           | multi_users pm \<Rightarrow>
               (case fold merge_back_step cm (pm, v) of
                  (pm1, v1) \<Rightarrow>
                    set_previous ev
                      \<lparr>user_mask = user_mask prev_users \<union> summary_overlap,
                       users = multi_users pm1\<rparr> v1)))"

text \<open>
  Lines 1865-1879 and lines 1904-1935: one step of the two loops that send back the
  dominated part of each user of the current map. The accumulator holds the map being
  filled for the previous epoch, the current map with the masks already visited
  rewritten, the vector \<open>to_delete\<close> and the view (for the reference counts).
\<close>

definition send_back_new_step ::
  "FieldMask \<Rightarrow> PhysicalUserPtr \<times> FieldMask \<Rightarrow>
   (PhysicalUserPtr \<times> FieldMask) list \<times> (PhysicalUserPtr \<times> FieldMask) list \<times>
     PhysicalUserPtr list \<times> MaterializedView \<Rightarrow>
   (PhysicalUserPtr \<times> FieldMask) list \<times> (PhysicalUserPtr \<times> FieldMask) list \<times>
     PhysicalUserPtr list \<times> MaterializedView" where
  "send_back_new_step summary_overlap it acc =
     (case acc of (new_map, cm, to_delete, v) \<Rightarrow>
        let overlap = summary_overlap \<inter> snd it in
        if overlap = {} then (new_map, cm @ [it], to_delete, v)
        else
          let rest = snd it - overlap in
          if rest = {}
          then (map_set (fst it) overlap new_map, cm @ [(fst it, rest)], to_delete @ [fst it], v)
          else (map_set (fst it) overlap new_map, cm @ [(fst it, rest)], to_delete,
                add_reference (fst it) v))"

definition send_back_step ::
  "FieldMask \<Rightarrow> PhysicalUserPtr \<times> FieldMask \<Rightarrow>
   (PhysicalUserPtr \<times> FieldMask) list \<times> (PhysicalUserPtr \<times> FieldMask) list \<times>
     PhysicalUserPtr list \<times> MaterializedView \<Rightarrow>
   (PhysicalUserPtr \<times> FieldMask) list \<times> (PhysicalUserPtr \<times> FieldMask) list \<times>
     PhysicalUserPtr list \<times> MaterializedView" where
  "send_back_step summary_overlap it acc =
     (case acc of (pm, cm, to_delete, v) \<Rightarrow>
        let overlap = summary_overlap \<inter> snd it in
        if overlap = {} then (pm, cm @ [it], to_delete, v)
        else
          let rest = snd it - overlap in
          (case map_of pm (fst it) of
             None \<Rightarrow>
               if rest = {}
               then (map_set (fst it) overlap pm, cm @ [(fst it, rest)], to_delete @ [fst it], v)
               else (map_set (fst it) overlap pm, cm @ [(fst it, rest)], to_delete,
                     add_reference (fst it) v)
           | Some fm \<Rightarrow>
               if rest = {}
               then (map_set (fst it) (fm \<union> overlap) pm, cm @ [(fst it, rest)],
                     to_delete @ [fst it], remove_reference (fst it) v)
               else (map_set (fst it) (fm \<union> overlap) pm, cm @ [(fst it, rest)], to_delete, v)))"

text \<open>
  Lines 1938-1960: erase the users in \<open>to_delete\<close> from the current map and collapse it
  to the single form when one user is left.
\<close>

definition collapse_current ::
  "FieldMask \<Rightarrow> (PhysicalUserPtr \<times> FieldMask) list \<Rightarrow> PhysicalUserPtr list \<Rightarrow> EventUsers" where
  "collapse_current current_mask cm to_delete =
     (if to_delete \<noteq> [] then
        (case fold map_erase to_delete cm of
           [(user, fm)] \<Rightarrow> \<lparr>user_mask = fm, users = single_user user\<rparr>
         | remaining \<Rightarrow> \<lparr>user_mask = current_mask, users = multi_users remaining\<rparr>)
      else \<lparr>user_mask = current_mask, users = multi_users cm\<rparr>)"

text \<open>
  Lines 1856-1961: the current bucket is a map and part of its summary mask stays in the
  current epoch. The result is the bucket left in the current epoch and the view.
\<close>

definition filter_current_partial ::
  "Event \<Rightarrow> (PhysicalUserPtr \<times> FieldMask) list \<Rightarrow> FieldMask \<Rightarrow> FieldMask \<Rightarrow>
   MaterializedView \<Rightarrow> EventUsers \<times> MaterializedView" where
  "filter_current_partial ev cm current_mask summary_overlap v =
     (case map_of (previous_epoch_users v) ev of
        None \<Rightarrow>
          (case fold (send_back_new_step summary_overlap) cm ([], [], [], v) of
             (new_map, cm1, to_delete, v1) \<Rightarrow>
               (collapse_current current_mask cm1 to_delete,
                set_previous ev \<lparr>user_mask = summary_overlap, users = multi_users new_map\<rparr> v1))
      | Some prev_users \<Rightarrow>
          (case users prev_users of
             single_user prev_user \<Rightarrow>
               (case fold (send_back_new_step summary_overlap) cm ([], [], [], v) of
                  (new_map, cm1, to_delete, v1) \<Rightarrow>
                    (case map_of new_map prev_user of
                       None \<Rightarrow>
                         (collapse_current current_mask cm1 to_delete,
                          set_previous ev
                            \<lparr>user_mask = user_mask prev_users \<union> summary_overlap,
                             users = multi_users
                                       (map_set prev_user (user_mask prev_users) new_map)\<rparr> v1)
                     | Some fm \<Rightarrow>
                         (collapse_current current_mask cm1 to_delete,
                          remove_reference prev_user
                            (set_previous ev
                               \<lparr>user_mask = user_mask prev_users \<union> summary_overlap,
                                users = multi_users
                                          (map_set prev_user (fm \<union> user_mask prev_users)
                                             new_map)\<rparr> v1))))
           | multi_users pm \<Rightarrow>
               (case fold (send_back_step summary_overlap) cm (pm, [], [], v) of
                  (pm1, cm1, to_delete, v1) \<Rightarrow>
                    (collapse_current current_mask cm1 to_delete,
                     set_previous ev
                       \<lparr>user_mask = user_mask prev_users \<union> summary_overlap,
                        users = multi_users pm1\<rparr> v1))))"

text \<open>
  The body of the loop of \<open>filter_current_users\<close> for one entry: the entry left in the
  current epoch (\<open>None\<close> when the event is pushed on \<open>events_to_delete\<close>) and the view.
  \<open>has_triggered\<close> is the probe \<open>Event::has_triggered\<close>.
\<close>

definition filter_current_entry ::
  "(Event \<Rightarrow> bool) \<Rightarrow> FieldMask \<Rightarrow> Event \<times> EventUsers \<Rightarrow> MaterializedView \<Rightarrow>
   (Event \<times> EventUsers) option \<times> MaterializedView" where
  "filter_current_entry has_triggered dominated cit v =
     (if has_triggered (fst cit) then (None, release_users (snd cit) v)
      else
        let summary_overlap = user_mask (snd cit) \<inter> dominated in
        if summary_overlap = {} then (Some cit, v)
        else
          let current_mask = user_mask (snd cit) - summary_overlap in
          (case users (snd cit) of
             single_user user \<Rightarrow>
               (case filter_current_single (fst cit) user current_mask summary_overlap v of
                  (deleted, v1) \<Rightarrow>
                    (if deleted then None
                     else Some (fst cit, (snd cit)\<lparr>user_mask := current_mask\<rparr>), v1))
           | multi_users cm \<Rightarrow>
               if current_mask = {}
               then (None, filter_current_whole (fst cit) cm summary_overlap v)
               else
                 (case filter_current_partial (fst cit) cm current_mask summary_overlap v of
                    (current_users, v1) \<Rightarrow> (Some (fst cit, current_users), v1))))"

fun filter_current_loop ::
  "(Event \<Rightarrow> bool) \<Rightarrow> FieldMask \<Rightarrow> (Event \<times> EventUsers) list \<Rightarrow> MaterializedView \<Rightarrow>
   (Event \<times> EventUsers) list \<times> MaterializedView" where
  "filter_current_loop has_triggered dominated [] v = ([], v)"
| "filter_current_loop has_triggered dominated (cit # rest) v =
     (case filter_current_entry has_triggered dominated cit v of
        (kept, v1) \<Rightarrow>
          (case filter_current_loop has_triggered dominated rest v1 of
             (kept_rest, v2) \<Rightarrow>
               ((case kept of None \<Rightarrow> kept_rest | Some entry \<Rightarrow> entry # kept_rest), v2)))"

definition filter_current_users ::
  "(Event \<Rightarrow> bool) \<Rightarrow> FieldMask \<Rightarrow> MaterializedView \<Rightarrow> MaterializedView" where
  "filter_current_users has_triggered dominated v =
     (case filter_current_loop has_triggered dominated (current_epoch_users v) v of
        (kept, v1) \<Rightarrow> v1\<lparr>current_epoch_users := kept\<rparr>)"

section \<open>Task path: the per-entry dependence tests\<close>

text \<open>
  \<open>MaterializedView::find_current_preconditions\<close> (lines 1202-1259). The reference
  parameters \<open>preconditions\<close>, \<open>observed\<close> and \<open>non_dominated\<close> are threaded through as
  a triple; the result pairs the returned flag with their new values. The dependence
  table \<open>check_dependence_type\<close> lives in another file and is a parameter.
\<close>

definition find_current_preconditions ::
  "(RegionUsage \<Rightarrow> RegionUsage \<Rightarrow> DependenceType) \<Rightarrow> RegionTreeNode \<Rightarrow> Event \<Rightarrow>
   PhysicalUser \<Rightarrow> FieldMask \<Rightarrow> RegionUsage \<Rightarrow> FieldMask \<Rightarrow> ColorPoint \<Rightarrow>
   Event set \<times> FieldMask \<times> FieldMask \<Rightarrow> bool \<times> Event set \<times> FieldMask \<times> FieldMask" where
  "find_current_preconditions check_dependence_type node test_event prev_user prev_mask
      next_user next_mask child_color acc =
     (case acc of (preconditions, observed, non_dominated) \<Rightarrow>
        let overlap = prev_mask \<inter> next_mask in
        if overlap = {} then (False, preconditions, observed, non_dominated)
        else
          let observed = observed \<union> overlap in
          if is_valid child_color \<and> child_color = child prev_user
          then (False, preconditions, observed, non_dominated \<union> overlap)
          else if is_valid child_color \<and> is_valid (child prev_user) \<and>
                  are_children_disjoint node child_color (child prev_user)
          then (False, preconditions, observed, non_dominated \<union> overlap)
          else
            (case check_dependence_type (usage prev_user) next_user of
               NO_DEPENDENCE \<Rightarrow> (False, preconditions, observed, non_dominated \<union> overlap)
             | ATOMIC_DEPENDENCE \<Rightarrow> (False, preconditions, observed, non_dominated \<union> overlap)
             | SIMULTANEOUS_DEPENDENCE \<Rightarrow>
                 (False, preconditions, observed, non_dominated \<union> overlap)
             | TRUE_DEPENDENCE \<Rightarrow> (True, insert test_event preconditions, observed, non_dominated)
             | ANTI_DEPENDENCE \<Rightarrow>
                 (True, insert test_event preconditions, observed, non_dominated)))"

text \<open>\<open>MaterializedView::find_previous_preconditions\<close> (lines 1262-1307).\<close>

definition find_previous_preconditions ::
  "(RegionUsage \<Rightarrow> RegionUsage \<Rightarrow> DependenceType) \<Rightarrow> RegionTreeNode \<Rightarrow> Event \<Rightarrow>
   PhysicalUser \<Rightarrow> FieldMask \<Rightarrow> RegionUsage \<Rightarrow> FieldMask \<Rightarrow> ColorPoint \<Rightarrow>
   Event set \<Rightarrow> bool \<times> Event set" where
  "find_previous_preconditions check_dependence_type node test_event prev_user prev_mask
      next_user next_mask child_color preconditions =
     (if is_valid child_color \<and> child_color = child prev_user then (False, preconditions)
      else if is_valid child_color \<and> is_valid (child prev_user) \<and>
              are_children_disjoint node child_color (child prev_user)
      then (False, preconditions)
      else
        let overlap = prev_mask \<inter> next_mask in
        if overlap = {} then (False, preconditions)
        else
          (case check_dependence_type (usage prev_user) next_user of
             NO_DEPENDENCE \<Rightarrow> (False, preconditions)
           | ATOMIC_DEPENDENCE \<Rightarrow> (False, preconditions)
           | SIMULTANEOUS_DEPENDENCE \<Rightarrow> (False, preconditions)
           | TRUE_DEPENDENCE \<Rightarrow> (True, insert test_event preconditions)
           | ANTI_DEPENDENCE \<Rightarrow> (True, insert test_event preconditions)))"

text \<open>
  The two child cut-offs shared by all four per-entry tests: the prior user was recorded
  against the caller's own child, or against a child the region tree reports disjoint
  from it.
\<close>

definition child_cut_off :: "RegionTreeNode \<Rightarrow> ColorPoint \<Rightarrow> PhysicalUser \<Rightarrow> bool" where
  "child_cut_off node child_color prev_user =
     (is_valid child_color \<and>
      (child_color = child prev_user \<or>
       (is_valid (child prev_user) \<and>
        are_children_disjoint node child_color (child prev_user))))"

section \<open>Copy path: the per-entry dependence tests\<close>

text \<open>
  The statement that records a dependence in a \<open>LegionMap<Event,FieldMask>\<close> of
  preconditions: insert the overlap for a new event, or add it to the mask the event has.
\<close>

definition record_dependence ::
  "Event \<Rightarrow> FieldMask \<Rightarrow> (Event \<rightharpoonup> FieldMask) \<Rightarrow> (Event \<rightharpoonup> FieldMask)" where
  "record_dependence test_event overlap preconditions =
     (case preconditions test_event of
        None \<Rightarrow> preconditions(test_event \<mapsto> overlap)
      | Some fm \<Rightarrow> preconditions(test_event \<mapsto> fm \<union> overlap))"

text \<open>
  The same-version test of both copy tests (lines 1554-1555 and 1597-1598);
  \<open>versions'\<close> is the pointer \<open>versions\<close>, \<open>None\<close> for NULL.
\<close>

definition same_version_skip ::
  "ReductionOpID \<Rightarrow> bool \<Rightarrow> FieldVersions option \<Rightarrow> PhysicalUser \<Rightarrow> FieldMask \<Rightarrow> bool" where
  "same_version_skip redop' reading versions' user overlap =
     (\<not> reading \<and> redop' = 0 \<and>
      (case versions' of
         None \<Rightarrow> False
       | Some vs \<Rightarrow> \<not> IS_REDUCE (usage user) \<and> same_versions user overlap vs))"

text \<open>\<open>MaterializedView::find_current_copy_preconditions\<close> (lines 1505-1567).\<close>

definition find_current_copy_preconditions ::
  "RegionTreeNode \<Rightarrow> Event \<Rightarrow> PhysicalUser \<Rightarrow> FieldMask \<Rightarrow> ReductionOpID \<Rightarrow> bool \<Rightarrow>
   FieldMask \<Rightarrow> ColorPoint \<Rightarrow> FieldVersions option \<Rightarrow>
   (Event \<rightharpoonup> FieldMask) \<times> FieldMask \<times> FieldMask \<Rightarrow>
   (Event \<rightharpoonup> FieldMask) \<times> FieldMask \<times> FieldMask" where
  "find_current_copy_preconditions node test_event user umask redop' reading copy_mask
      child_color versions' acc =
     (case acc of (preconditions, observed, non_dominated) \<Rightarrow>
        let overlap = copy_mask \<inter> umask in
        if overlap = {} then (preconditions, observed, non_dominated)
        else
          let observed = observed \<union> overlap in
          if is_valid child_color \<and> child_color = child user
          then (preconditions, observed, non_dominated \<union> overlap)
          else if is_valid child_color \<and> is_valid (child user) \<and>
                  are_children_disjoint node child_color (child user)
          then (preconditions, observed, non_dominated \<union> overlap)
          else if reading \<and> IS_READ_ONLY (usage user)
          then (preconditions, observed, non_dominated \<union> overlap)
          else if redop' > 0 \<and> redop (usage user) = redop'
          then (preconditions, observed, non_dominated \<union> overlap)
          else if same_version_skip redop' reading versions' user overlap
          then (preconditions, observed, non_dominated \<union> overlap)
          else (record_dependence test_event overlap preconditions, observed, non_dominated))"

text \<open>\<open>MaterializedView::find_previous_copy_preconditions\<close> (lines 1570-1607).\<close>

definition find_previous_copy_preconditions ::
  "RegionTreeNode \<Rightarrow> Event \<Rightarrow> PhysicalUser \<Rightarrow> FieldMask \<Rightarrow> ReductionOpID \<Rightarrow> bool \<Rightarrow>
   FieldMask \<Rightarrow> ColorPoint \<Rightarrow> FieldVersions option \<Rightarrow>
   (Event \<rightharpoonup> FieldMask) \<Rightarrow> (Event \<rightharpoonup> FieldMask)" where
  "find_previous_copy_preconditions node test_event user umask redop' reading copy_mask
      child_color versions' preconditions =
     (if is_valid child_color \<and> child_color = child user then preconditions
      else if is_valid child_color \<and> is_valid (child user) \<and>
              are_children_disjoint node child_color (child user)
      then preconditions
      else
        let overlap = umask \<inter> copy_mask in
        if overlap = {} then preconditions
        else if reading \<and> IS_READ_ONLY (usage user) then preconditions
        else if redop' > 0 \<and> redop (usage user) = redop' then preconditions
        else if same_version_skip redop' reading versions' user overlap then preconditions
        else record_dependence test_event overlap preconditions)"

section \<open>The analyzers of the materialized view\<close>

text \<open>
  \<open>std::set<Event> dead_events\<close> is iterated after the analysis, so it is a list in
  increasing order without repetitions; \<open>set_insert\<close> is its \<open>insert\<close>.
\<close>

definition set_insert :: "Event \<Rightarrow> Event list \<Rightarrow> Event list" where
  "set_insert e xs = (if e \<in> set xs then xs else insort e xs)"

text \<open>
  Lines 1175-1186 and 1489-1500: the clean-up both analyzers run under the exclusive lock,
  \<open>filter_local_users\<close> on the dead events, then \<open>filter_previous_users\<close>, then
  \<open>filter_current_users\<close>. Each step is skipped when it has nothing to do.
\<close>

definition apply_filters ::
  "(Event \<Rightarrow> bool) \<Rightarrow> Event list \<Rightarrow> (Event \<times> FieldMask) list \<Rightarrow> FieldMask \<Rightarrow>
   MaterializedView \<Rightarrow> MaterializedView" where
  "apply_filters has_triggered dead_events filter_previous dominated v =
     (let v1 = fold filter_local_users dead_events v;
          v2 = (if filter_previous \<noteq> [] then filter_previous_users filter_previous v1 else v1)
      in if dominated \<noteq> {} then filter_current_users has_triggered dominated v2 else v2)"

text \<open>
  Lines 1123-1128 and 1447-1452: the entry a previous-epoch event gets in
  \<open>filter_previous\<close>.
\<close>

definition record_filter_previous ::
  "FieldMask \<Rightarrow> Event \<times> EventUsers \<Rightarrow> (Event \<times> FieldMask) list \<Rightarrow> (Event \<times> FieldMask) list" where
  "record_filter_previous dominated pit filter_previous =
     (if dominated \<noteq> {} then
        let dom_overlap = user_mask (snd pit) \<inter> dominated in
        if dom_overlap \<noteq> {} then map_set (fst pit) dom_overlap filter_previous
        else filter_previous
      else filter_previous)"

subsection \<open>Task path: \<open>add_local_user\<close>\<close>

text \<open>
  Lines 1078-1090: the loop over the users of a current-epoch map, left at the first user
  for which a dependence was recorded.
\<close>

fun find_current_preconditions_users ::
  "(RegionUsage \<Rightarrow> RegionUsage \<Rightarrow> DependenceType) \<Rightarrow> RegionTreeNode \<Rightarrow>
   (PhysicalUserPtr \<Rightarrow> PhysicalUser) \<Rightarrow> Event \<Rightarrow> (PhysicalUserPtr \<times> FieldMask) list \<Rightarrow>
   RegionUsage \<Rightarrow> FieldMask \<Rightarrow> ColorPoint \<Rightarrow>
   Event set \<times> FieldMask \<times> FieldMask \<Rightarrow> Event set \<times> FieldMask \<times> FieldMask" where
  "find_current_preconditions_users cdt node heap test_event [] usage' umask child_color acc = acc"
| "find_current_preconditions_users cdt node heap test_event (it # rest) usage' umask child_color acc =
     (case find_current_preconditions cdt node test_event (heap (fst it)) (snd it) usage' umask
             child_color acc of
        (recorded, acc1) \<Rightarrow>
          if recorded then acc1
          else find_current_preconditions_users cdt node heap test_event rest usage' umask
                 child_color acc1)"

text \<open>Lines 1145-1155: the same loop over the users of a previous-epoch map.\<close>

fun find_previous_preconditions_users ::
  "(RegionUsage \<Rightarrow> RegionUsage \<Rightarrow> DependenceType) \<Rightarrow> RegionTreeNode \<Rightarrow>
   (PhysicalUserPtr \<Rightarrow> PhysicalUser) \<Rightarrow> Event \<Rightarrow> (PhysicalUserPtr \<times> FieldMask) list \<Rightarrow>
   RegionUsage \<Rightarrow> FieldMask \<Rightarrow> ColorPoint \<Rightarrow> Event set \<Rightarrow> Event set" where
  "find_previous_preconditions_users cdt node heap test_event [] usage' umask child_color
     preconditions = preconditions"
| "find_previous_preconditions_users cdt node heap test_event (it # rest) usage' umask child_color
     preconditions =
     (case find_previous_preconditions cdt node test_event (heap (fst it)) (snd it) usage' umask
             child_color preconditions of
        (recorded, preconditions1) \<Rightarrow>
          if recorded then preconditions1
          else find_previous_preconditions_users cdt node heap test_event rest usage' umask
                 child_color preconditions1)"

text \<open>
  Lines 1043-1093: the body of the loop over \<open>current_epoch_users\<close>. The accumulator
  pairs \<open>dead_events\<close> with the triple (\<open>preconditions\<close>, \<open>observed\<close>,
  \<open>non_dominated\<close>).
\<close>

definition task_current_step ::
  "(Event \<Rightarrow> bool) \<Rightarrow> (RegionUsage \<Rightarrow> RegionUsage \<Rightarrow> DependenceType) \<Rightarrow> RegionTreeNode \<Rightarrow>
   (PhysicalUserPtr \<Rightarrow> PhysicalUser) \<Rightarrow> RegionUsage \<Rightarrow> Event \<Rightarrow> FieldMask \<Rightarrow> ColorPoint \<Rightarrow>
   Event \<times> EventUsers \<Rightarrow> Event list \<times> Event set \<times> FieldMask \<times> FieldMask \<Rightarrow>
   Event list \<times> Event set \<times> FieldMask \<times> FieldMask" where
  "task_current_step has_triggered cdt node heap usage' term_event umask child_color cit acc =
     (if has_triggered (fst cit) then (set_insert (fst cit) (fst acc), snd acc)
      else if fst cit = term_event then acc
      else if fst cit \<in> fst (snd acc) then acc
      else
        (case users (snd cit) of
           single_user u \<Rightarrow>
             (fst acc,
              snd (find_current_preconditions cdt node (fst cit) (heap u) (user_mask (snd cit))
                     usage' umask child_color (snd acc)))
         | multi_users m \<Rightarrow>
             if umask \<inter> user_mask (snd cit) \<noteq> {}
             then (fst acc,
                   find_current_preconditions_users cdt node heap (fst cit) m usage' umask
                     child_color (snd acc))
             else acc))"

text \<open>
  Lines 1102-1158: the body of the loop over \<open>previous_epoch_users\<close>. The accumulator
  is (\<open>dead_events\<close>, \<open>filter_previous\<close>, \<open>preconditions\<close>).
\<close>

definition task_previous_step ::
  "(Event \<Rightarrow> bool) \<Rightarrow> (RegionUsage \<Rightarrow> RegionUsage \<Rightarrow> DependenceType) \<Rightarrow> RegionTreeNode \<Rightarrow>
   (PhysicalUserPtr \<Rightarrow> PhysicalUser) \<Rightarrow> RegionUsage \<Rightarrow> Event \<Rightarrow> ColorPoint \<Rightarrow>
   FieldMask \<Rightarrow> FieldMask \<Rightarrow>
   Event \<times> EventUsers \<Rightarrow> Event list \<times> (Event \<times> FieldMask) list \<times> Event set \<Rightarrow>
   Event list \<times> (Event \<times> FieldMask) list \<times> Event set" where
  "task_previous_step has_triggered cdt node heap usage' term_event child_color dominated
      non_dominated pit acc =
     (case acc of (dead_events, filter_previous, preconditions) \<Rightarrow>
        if has_triggered (fst pit) then (set_insert (fst pit) dead_events, filter_previous, preconditions)
        else if fst pit = term_event then acc
        else if fst pit \<in> preconditions then acc
        else
          let filter_previous1 = record_filter_previous dominated pit filter_previous in
          if non_dominated = {} then (dead_events, filter_previous1, preconditions)
          else
            (case users (snd pit) of
               single_user u \<Rightarrow>
                 (dead_events, filter_previous1,
                  snd (find_previous_preconditions cdt node (fst pit) (heap u)
                         (user_mask (snd pit)) usage' non_dominated child_color preconditions))
             | multi_users m \<Rightarrow>
                 if non_dominated \<inter> user_mask (snd pit) \<noteq> {}
                 then (dead_events, filter_previous1,
                       find_previous_preconditions_users cdt node heap (fst pit) m usage'
                         non_dominated child_color preconditions)
                 else (dead_events, filter_previous1, preconditions)))"

text \<open>
  Lines 1036-1159: the analysis \<open>add_local_user\<close> runs under the read lock. The result
  is (\<open>dead_events\<close>, \<open>filter_previous\<close>, \<open>dominated\<close>, \<open>preconditions\<close>).
\<close>

definition task_current_pass ::
  "(Event \<Rightarrow> bool) \<Rightarrow> (RegionUsage \<Rightarrow> RegionUsage \<Rightarrow> DependenceType) \<Rightarrow> RegionUsage \<Rightarrow>
   Event \<Rightarrow> ColorPoint \<Rightarrow> FieldMask \<Rightarrow> Event set \<Rightarrow> MaterializedView \<Rightarrow>
   Event list \<times> Event set \<times> FieldMask \<times> FieldMask" where
  "task_current_pass has_triggered cdt usage' term_event child_color umask preconditions v =
     fold (task_current_step has_triggered cdt (logical_node v) (user_heap v) usage' term_event
             umask child_color)
       (current_epoch_users v) ([], preconditions, {}, {})"

definition task_analysis ::
  "(Event \<Rightarrow> bool) \<Rightarrow> (RegionUsage \<Rightarrow> RegionUsage \<Rightarrow> DependenceType) \<Rightarrow> RegionUsage \<Rightarrow>
   Event \<Rightarrow> ColorPoint \<Rightarrow> FieldMask \<Rightarrow> Event set \<Rightarrow> MaterializedView \<Rightarrow>
   Event list \<times> (Event \<times> FieldMask) list \<times> FieldMask \<times> Event set" where
  "task_analysis has_triggered cdt usage' term_event child_color umask preconditions v =
     (case task_current_pass has_triggered cdt usage' term_event child_color umask preconditions v of
        (dead_events, preconditions1, observed, non_dominated) \<Rightarrow>
          let dominated = observed \<inter> (umask - non_dominated);
              non_dominated1 = umask - dominated
          in
            (case fold (task_previous_step has_triggered cdt (logical_node v) (user_heap v) usage'
                          term_event child_color dominated non_dominated1)
                    (previous_epoch_users v) (dead_events, [], preconditions1) of
               (dead_events1, filter_previous, preconditions2) \<Rightarrow>
                 (dead_events1, filter_previous, dominated, preconditions2)))"

text \<open>
  \<open>MaterializedView::add_local_user\<close> (lines 1028-1199). The result is the returned
  flag, the view and the preconditions.
\<close>

definition add_local_user ::
  "(Event \<Rightarrow> bool) \<Rightarrow> (RegionUsage \<Rightarrow> RegionUsage \<Rightarrow> DependenceType) \<Rightarrow> RegionUsage \<Rightarrow>
   Event \<Rightarrow> bool \<Rightarrow> ColorPoint \<Rightarrow> VersionInfo \<Rightarrow> FieldMask \<Rightarrow> Event set \<Rightarrow> MaterializedView \<Rightarrow>
   bool \<times> MaterializedView \<times> Event set" where
  "add_local_user has_triggered cdt usage' term_event base_user child_color version_info umask
      preconditions v =
     (case task_analysis has_triggered cdt usage' term_event child_color umask preconditions v of
        (dead_events, filter_previous, dominated, preconditions1) \<Rightarrow>
          if event_exists term_event then
            (case legion_new
                    \<lparr>usage = usage', child = child_color,
                     versions = (if IS_READ_ONLY usage'
                                 then get_versions version_info (node_id (logical_node v))
                                 else None)\<rparr> v of
               (new_user, v1) \<Rightarrow>
                 let v2 = add_reference new_user v1;
                     v3 = apply_filters has_triggered dead_events filter_previous dominated v2;
                     v4 = add_current_user new_user term_event umask v3
                 in if term_event \<notin> outstanding_gc_events v4
                    then (base_user,
                          v4\<lparr>outstanding_gc_events := insert term_event (outstanding_gc_events v4)\<rparr>,
                          preconditions1)
                    else (False, v4, preconditions1))
          else
            (False, apply_filters has_triggered dead_events filter_previous dominated v,
             preconditions1))"

subsection \<open>Copy path: \<open>find_local_copy_preconditions\<close>\<close>

text \<open>
  Lines 1376-1423: the body of the loop over \<open>current_epoch_users\<close>. The accumulator
  pairs \<open>dead_events\<close> with the triple (\<open>preconditions\<close>, \<open>observed\<close>,
  \<open>non_dominated\<close>). Every user of a map is tested: the loop over a map has no early
  exit.
\<close>

definition copy_current_step ::
  "(Event \<Rightarrow> bool) \<Rightarrow> RegionTreeNode \<Rightarrow> (PhysicalUserPtr \<Rightarrow> PhysicalUser) \<Rightarrow> ReductionOpID \<Rightarrow>
   bool \<Rightarrow> FieldMask \<Rightarrow> ColorPoint \<Rightarrow> FieldVersions option \<Rightarrow>
   Event \<times> EventUsers \<Rightarrow> Event list \<times> (Event \<rightharpoonup> FieldMask) \<times> FieldMask \<times> FieldMask \<Rightarrow>
   Event list \<times> (Event \<rightharpoonup> FieldMask) \<times> FieldMask \<times> FieldMask" where
  "copy_current_step has_triggered node heap redop' reading copy_mask child_color versions' cit acc =
     (if has_triggered (fst cit) then (set_insert (fst cit) (fst acc), snd acc)
      else
        (case users (snd cit) of
           single_user u \<Rightarrow>
             (fst acc,
              find_current_copy_preconditions node (fst cit) (heap u) (user_mask (snd cit))
                redop' reading copy_mask child_color versions' (snd acc))
         | multi_users m \<Rightarrow>
             if copy_mask \<inter> user_mask (snd cit) \<noteq> {}
             then (fst acc,
                   fold (\<lambda>it. find_current_copy_preconditions node (fst cit) (heap (fst it))
                                (snd it) redop' reading copy_mask child_color versions')
                     m (snd acc))
             else acc))"

text \<open>
  Lines 1432-1482: the body of the loop over \<open>previous_epoch_users\<close>. The accumulator
  is (\<open>dead_events\<close>, \<open>filter_previous\<close>, \<open>preconditions\<close>).
\<close>

definition copy_previous_step ::
  "(Event \<Rightarrow> bool) \<Rightarrow> RegionTreeNode \<Rightarrow> (PhysicalUserPtr \<Rightarrow> PhysicalUser) \<Rightarrow> ReductionOpID \<Rightarrow>
   bool \<Rightarrow> ColorPoint \<Rightarrow> FieldVersions option \<Rightarrow> FieldMask \<Rightarrow> FieldMask \<Rightarrow>
   Event \<times> EventUsers \<Rightarrow> Event list \<times> (Event \<times> FieldMask) list \<times> (Event \<rightharpoonup> FieldMask) \<Rightarrow>
   Event list \<times> (Event \<times> FieldMask) list \<times> (Event \<rightharpoonup> FieldMask)" where
  "copy_previous_step has_triggered node heap redop' reading child_color versions' dominated
      non_dominated pit acc =
     (case acc of (dead_events, filter_previous, preconditions) \<Rightarrow>
        if has_triggered (fst pit) then (set_insert (fst pit) dead_events, filter_previous, preconditions)
        else
          let filter_previous1 = record_filter_previous dominated pit filter_previous in
          if non_dominated = {} then (dead_events, filter_previous1, preconditions)
          else
            (case users (snd pit) of
               single_user u \<Rightarrow>
                 (dead_events, filter_previous1,
                  find_previous_copy_preconditions node (fst pit) (heap u) (user_mask (snd pit))
                    redop' reading non_dominated child_color versions' preconditions)
             | multi_users m \<Rightarrow>
                 if non_dominated \<inter> user_mask (snd pit) \<noteq> {}
                 then (dead_events, filter_previous1,
                       fold (\<lambda>it. find_previous_copy_preconditions node (fst pit) (heap (fst it))
                                    (snd it) redop' reading non_dominated child_color versions')
                         m preconditions)
                 else (dead_events, filter_previous1, preconditions)))"

text \<open>
  Lines 1365-1483: the analysis \<open>find_local_copy_preconditions\<close> runs under the read
  lock. The result is (\<open>dead_events\<close>, \<open>filter_previous\<close>, \<open>dominated\<close>,
  \<open>preconditions\<close>).
\<close>

definition copy_current_pass ::
  "(Event \<Rightarrow> bool) \<Rightarrow> ReductionOpID \<Rightarrow> bool \<Rightarrow> FieldMask \<Rightarrow> ColorPoint \<Rightarrow>
   FieldVersions option \<Rightarrow> (Event \<rightharpoonup> FieldMask) \<Rightarrow> MaterializedView \<Rightarrow>
   Event list \<times> (Event \<rightharpoonup> FieldMask) \<times> FieldMask \<times> FieldMask" where
  "copy_current_pass has_triggered redop' reading copy_mask child_color versions' preconditions v =
     fold (copy_current_step has_triggered (logical_node v) (user_heap v) redop' reading copy_mask
             child_color versions')
       (current_epoch_users v) ([], preconditions, {}, {})"

definition copy_analysis ::
  "(Event \<Rightarrow> bool) \<Rightarrow> ReductionOpID \<Rightarrow> bool \<Rightarrow> FieldMask \<Rightarrow> ColorPoint \<Rightarrow>
   FieldVersions option \<Rightarrow> (Event \<rightharpoonup> FieldMask) \<Rightarrow> MaterializedView \<Rightarrow>
   Event list \<times> (Event \<times> FieldMask) list \<times> FieldMask \<times> (Event \<rightharpoonup> FieldMask)" where
  "copy_analysis has_triggered redop' reading copy_mask child_color versions' preconditions v =
     (case copy_current_pass has_triggered redop' reading copy_mask child_color versions'
             preconditions v of
        (dead_events, preconditions1, observed, non_dominated) \<Rightarrow>
          let dominated = observed \<inter> (copy_mask - non_dominated);
              non_dominated1 = copy_mask - dominated
          in
            (case fold (copy_previous_step has_triggered (logical_node v) (user_heap v) redop'
                          reading child_color versions' dominated non_dominated1)
                    (previous_epoch_users v) (dead_events, [], preconditions1) of
               (dead_events1, filter_previous, preconditions2) \<Rightarrow>
                 (dead_events1, filter_previous, dominated, preconditions2)))"

text \<open>
  \<open>MaterializedView::find_local_copy_preconditions\<close> (lines 1357-1502). The versions
  are only looked up at the bottom of the hierarchy, where \<open>child_color\<close> is not valid.
\<close>

definition find_local_copy_preconditions ::
  "(Event \<Rightarrow> bool) \<Rightarrow> ReductionOpID \<Rightarrow> bool \<Rightarrow> FieldMask \<Rightarrow> ColorPoint \<Rightarrow> VersionInfo \<Rightarrow>
   (Event \<rightharpoonup> FieldMask) \<Rightarrow> MaterializedView \<Rightarrow> MaterializedView \<times> (Event \<rightharpoonup> FieldMask)" where
  "find_local_copy_preconditions has_triggered redop' reading copy_mask child_color version_info
      preconditions v =
     (let versions' = (if is_valid child_color then None
                       else get_versions version_info (node_id (logical_node v)))
      in
        (case copy_analysis has_triggered redop' reading copy_mask child_color versions'
                preconditions v of
           (dead_events, filter_previous, dominated, preconditions1) \<Rightarrow>
             (if dead_events \<noteq> [] \<or> filter_previous \<noteq> [] \<or> dominated \<noteq> {}
              then apply_filters has_triggered dead_events filter_previous dominated v
              else v,
              preconditions1)))"

text \<open>
  \<open>MaterializedView::add_local_copy_user\<close> (lines 997-1025). The result pairs the
  flag \<open>issue_collect\<close> with the view.
\<close>

definition add_local_copy_user ::
  "RegionUsage \<Rightarrow> Event \<Rightarrow> bool \<Rightarrow> ColorPoint \<Rightarrow> VersionInfo \<Rightarrow> FieldMask \<Rightarrow>
   MaterializedView \<Rightarrow> bool \<times> MaterializedView" where
  "add_local_copy_user usage' copy_term base_user child_color version_info copy_mask v =
     (case legion_new
             \<lparr>usage = usage', child = child_color,
              versions = (if IS_READ_ONLY usage'
                          then get_versions version_info (node_id (logical_node v))
                          else None)\<rparr> v of
        (user, v1) \<Rightarrow>
          let v2 = add_reference user v1;
              v3 = add_current_user user copy_term copy_mask v2;
              issue_collect = (base_user \<and> copy_term \<notin> outstanding_gc_events v3)
          in (issue_collect,
              v3\<lparr>outstanding_gc_events := insert copy_term (outstanding_gc_events v3)\<rparr>))"

text \<open>\<open>MaterializedView::add_initial_user\<close> (lines 553-566).\<close>

definition add_initial_user ::
  "Event \<Rightarrow> RegionUsage \<Rightarrow> FieldMask \<Rightarrow> MaterializedView \<Rightarrow> MaterializedView" where
  "add_initial_user term_event usage' umask v =
     (case legion_new \<lparr>usage = usage', child = InvalidColor, versions = None\<rparr> v of
        (user, v1) \<Rightarrow>
          let v2 = add_current_user user term_event umask (add_reference user v1)
          in v2\<lparr>initial_user_events := insert term_event (initial_user_events v2),
                outstanding_gc_events := insert term_event (outstanding_gc_events v2)\<rparr>)"

subsection \<open>The entry points, through the hierarchy\<close>

text \<open>
  A materialized view reaches its ancestors through \<open>parent\<close>; the entry points take the
  view and the list of its ancestors, nearest first, which is empty when \<open>parent\<close> is
  NULL, and return them updated.

  \<open>MaterializedView::add_user_above\<close> (lines 959-976), called on the first view of a
  non-empty list.
\<close>

fun add_user_above ::
  "(Event \<Rightarrow> bool) \<Rightarrow> (RegionUsage \<Rightarrow> RegionUsage \<Rightarrow> DependenceType) \<Rightarrow> RegionUsage \<Rightarrow>
   Event \<Rightarrow> ColorPoint \<Rightarrow> VersionInfo \<Rightarrow> FieldMask \<Rightarrow> Event set \<Rightarrow> MaterializedView list \<Rightarrow>
   MaterializedView list \<times> Event set" where
  "add_user_above has_triggered cdt usage' term_event child_color version_info umask
     preconditions [] = ([], preconditions)"
| "add_user_above has_triggered cdt usage' term_event child_color version_info umask
     preconditions (v # ancestors) =
     (case (if ancestors \<noteq> [] \<and> \<not> is_upper_bound_node version_info (node_id (logical_node v))
            then add_user_above has_triggered cdt usage' term_event (get_color (logical_node v))
                   version_info umask preconditions ancestors
            else (ancestors, preconditions)) of
        (ancestors1, preconditions1) \<Rightarrow>
          (case add_local_user has_triggered cdt usage' term_event False child_color version_info
                  umask preconditions1 v of
             (issue_collect, v1, preconditions2) \<Rightarrow> (v1 # ancestors1, preconditions2)))"

text \<open>
  \<open>MaterializedView::add_user\<close> (lines 520-550). The event returned is the merge of
  \<open>wait_on_events\<close>; the model returns that set, together with the flag
  \<open>issue_collect\<close> that makes the source launch the deferred collection. The request
  for atomic reservations does not touch the state modelled here.
\<close>

definition add_user ::
  "(Event \<Rightarrow> bool) \<Rightarrow> (RegionUsage \<Rightarrow> RegionUsage \<Rightarrow> DependenceType) \<Rightarrow> RegionUsage \<Rightarrow>
   Event \<Rightarrow> FieldMask \<Rightarrow> VersionInfo \<Rightarrow> MaterializedView \<Rightarrow> MaterializedView list \<Rightarrow>
   Event set \<times> bool \<times> MaterializedView \<times> MaterializedView list" where
  "add_user has_triggered cdt usage' term_event umask version_info v ancestors =
     (let start_use_event = use_event v;
          wait_on_events = (if event_exists start_use_event then {start_use_event} else {})
      in
        (case (if ancestors \<noteq> [] \<and> \<not> is_upper_bound_node version_info (node_id (logical_node v))
               then add_user_above has_triggered cdt usage' term_event (get_color (logical_node v))
                      version_info umask wait_on_events ancestors
               else (ancestors, wait_on_events)) of
           (ancestors1, wait_on_events1) \<Rightarrow>
             (case add_local_user has_triggered cdt usage' term_event True InvalidColor
                     version_info umask wait_on_events1 v of
                (issue_collect, v1, wait_on_events2) \<Rightarrow>
                  (wait_on_events2, issue_collect, v1, ancestors1))))"

text \<open>\<open>MaterializedView::find_copy_preconditions_above\<close> (lines 1338-1354).\<close>

fun find_copy_preconditions_above ::
  "(Event \<Rightarrow> bool) \<Rightarrow> ReductionOpID \<Rightarrow> bool \<Rightarrow> FieldMask \<Rightarrow> ColorPoint \<Rightarrow> VersionInfo \<Rightarrow>
   (Event \<rightharpoonup> FieldMask) \<Rightarrow> MaterializedView list \<Rightarrow>
   MaterializedView list \<times> (Event \<rightharpoonup> FieldMask)" where
  "find_copy_preconditions_above has_triggered redop' reading copy_mask child_color version_info
     preconditions [] = ([], preconditions)"
| "find_copy_preconditions_above has_triggered redop' reading copy_mask child_color version_info
     preconditions (v # ancestors) =
     (case (if ancestors \<noteq> [] \<and> \<not> is_upper_bound_node version_info (node_id (logical_node v))
            then find_copy_preconditions_above has_triggered redop' reading copy_mask
                   (get_color (logical_node v)) version_info preconditions ancestors
            else (ancestors, preconditions)) of
        (ancestors1, preconditions1) \<Rightarrow>
          (case find_local_copy_preconditions has_triggered redop' reading copy_mask child_color
                  version_info preconditions1 v of
             (v1, preconditions2) \<Rightarrow> (v1 # ancestors1, preconditions2)))"

text \<open>\<open>MaterializedView::find_copy_preconditions\<close> (lines 1310-1335).\<close>

definition find_copy_preconditions ::
  "(Event \<Rightarrow> bool) \<Rightarrow> ReductionOpID \<Rightarrow> bool \<Rightarrow> FieldMask \<Rightarrow> VersionInfo \<Rightarrow>
   (Event \<rightharpoonup> FieldMask) \<Rightarrow> MaterializedView \<Rightarrow> MaterializedView list \<Rightarrow>
   (Event \<rightharpoonup> FieldMask) \<times> MaterializedView \<times> MaterializedView list" where
  "find_copy_preconditions has_triggered redop' reading copy_mask version_info preconditions v
      ancestors =
     (let start_use_event = use_event v;
          preconditions0 = (if event_exists start_use_event
                            then record_dependence start_use_event copy_mask preconditions
                            else preconditions)
      in
        (case (if ancestors \<noteq> [] \<and> \<not> is_upper_bound_node version_info (node_id (logical_node v))
               then find_copy_preconditions_above has_triggered redop' reading copy_mask
                      (get_color (logical_node v)) version_info preconditions0 ancestors
               else (ancestors, preconditions0)) of
           (ancestors1, preconditions1) \<Rightarrow>
             (case find_local_copy_preconditions has_triggered redop' reading copy_mask
                     InvalidColor version_info preconditions1 v of
                (v1, preconditions2) \<Rightarrow> (preconditions2, v1, ancestors1))))"

text \<open>
  \<open>MaterializedView::add_copy_user_above\<close> (lines 979-994) and
  \<open>MaterializedView::add_copy_user\<close> (lines 490-517).
\<close>

fun add_copy_user_above ::
  "RegionUsage \<Rightarrow> Event \<Rightarrow> ColorPoint \<Rightarrow> VersionInfo \<Rightarrow> FieldMask \<Rightarrow> MaterializedView list \<Rightarrow>
   MaterializedView list" where
  "add_copy_user_above usage' copy_term child_color version_info copy_mask [] = []"
| "add_copy_user_above usage' copy_term child_color version_info copy_mask (v # ancestors) =
     (let ancestors1 =
            (if ancestors \<noteq> [] \<and> \<not> is_upper_bound_node version_info (node_id (logical_node v))
             then add_copy_user_above usage' copy_term (get_color (logical_node v)) version_info
                    copy_mask ancestors
             else ancestors)
      in snd (add_local_copy_user usage' copy_term False child_color version_info copy_mask v)
           # ancestors1)"

definition add_copy_user ::
  "ReductionOpID \<Rightarrow> Event \<Rightarrow> VersionInfo \<Rightarrow> FieldMask \<Rightarrow> bool \<Rightarrow> MaterializedView \<Rightarrow>
   MaterializedView list \<Rightarrow> bool \<times> MaterializedView \<times> MaterializedView list" where
  "add_copy_user redop' copy_term version_info copy_mask reading v ancestors =
     (if event_exists copy_term then
        let usage' = \<lparr>privilege = (if reading then READ_ONLY
                                    else if redop' > 0 then REDUCE else READ_WRITE),
                      coherence_prop = EXCLUSIVE, redop = redop'\<rparr>;
            ancestors1 =
              (if ancestors \<noteq> [] \<and> \<not> is_upper_bound_node version_info (node_id (logical_node v))
               then add_copy_user_above usage' copy_term (get_color (logical_node v))
                      version_info copy_mask ancestors
               else ancestors)
        in (case add_local_copy_user usage' copy_term True InvalidColor version_info copy_mask v of
              (issue_collect, v1) \<Rightarrow> (issue_collect, v1, ancestors1))
      else (False, v, ancestors))"

text \<open>
  \<open>MaterializedView::collect_users\<close> (lines 625-639), the task a fired event runs:
  \<open>filter_local_users\<close> for every event of the set, on the view and on its ancestors.
\<close>

definition collect_users :: "Event list \<Rightarrow> MaterializedView list \<Rightarrow> MaterializedView list" where
  "collect_users term_events views = map (fold filter_local_users term_events) views"

section \<open>Remote updates of the materialized view\<close>

text \<open>
  \<open>MaterializedView::send_view_updates\<close> (lines 667-808) and
  \<open>MaterializedView::process_update\<close> (lines 811-942). A \<open>Serializer\<close> is the list of
  the values written to it, each tagged with its C++ type; writing one serializer into
  another appends its values. The header of the message (the handle of the logical node and
  the distributed id, lines 782-789) is consumed by the runtime before \<open>process_update\<close>
  is called and is left out.

  Modelled from the spec: \<open>PhysicalUser::pack_user\<close> and
  \<open>PhysicalUser::unpack_user\<close> are defined in another file. The spec speaks of
  equivalence of user records, so the record is written as one value (\<open>TUser\<close>), and
  unpacking it allocates an object with the same contents and, as the call at line 823
  asks, one reference.
\<close>

datatype Token =
    TEvent Event
  | TInt int
  | TMask FieldMask
  | TSize nat
  | TUnsigned nat
  | TUser PhysicalUser

text \<open>
  \<open>std::map<PhysicalUser*,int> needed_users\<close>, in the order of its keys.
\<close>

type_synonym NeededUsers = "(PhysicalUserPtr \<times> int) list"

text \<open>
  Lines 699-712 and 677-719: the loop over the users of a multi-user bucket of the
  current epoch, and the body of the loop over the current epoch. The index of a user is
  the size of \<open>needed_users\<close> at that moment and is assigned without looking the user
  up. \<open>count\<close> starts at -1 and goes down by one for every user written; it is written
  before the users unless it is -2, that is unless exactly one user was written.
\<close>

definition send_current_user ::
  "FieldMask \<Rightarrow> PhysicalUserPtr \<times> FieldMask \<Rightarrow>
   NeededUsers \<times> Token list \<times> int \<times> MaterializedView \<Rightarrow>
   NeededUsers \<times> Token list \<times> int \<times> MaterializedView" where
  "send_current_user overlap it acc =
     (case acc of (needed_users, event_rez, count, v) \<Rightarrow>
        let overlap2 = snd it \<inter> overlap in
        if overlap2 = {} then acc
        else
          let index = int (length needed_users) in
          (map_set (fst it) index needed_users, event_rez @ [TInt index, TMask overlap2],
           count - 1, add_reference (fst it) v))"

definition send_current_entry ::
  "FieldMask \<Rightarrow> Event \<times> EventUsers \<Rightarrow>
   NeededUsers \<times> Token list \<times> nat \<times> MaterializedView \<Rightarrow>
   NeededUsers \<times> Token list \<times> nat \<times> MaterializedView" where
  "send_current_entry update_mask cit acc =
     (case acc of (needed_users, current_rez, current_events, v) \<Rightarrow>
        let overlap = user_mask (snd cit) \<inter> update_mask in
        if overlap = {} then acc
        else
          (case users (snd cit) of
             single_user u \<Rightarrow>
               let index = int (length needed_users) in
               (map_set u index needed_users,
                current_rez @ [TEvent (fst cit), TInt index, TMask overlap],
                Suc current_events, add_reference u v)
           | multi_users m \<Rightarrow>
               (case fold (send_current_user overlap) m (needed_users, [], - 1, v) of
                  (needed1, event_rez, count, v1) \<Rightarrow>
                    (needed1,
                     current_rez @ [TEvent (fst cit)] @
                       (if count = - 1 \<or> count < - 2 then [TInt count] else []) @ event_rez,
                     Suc current_events, v1))))"

text \<open>
  Lines 720-776: in the loops over the previous epoch a user that already
  has an index keeps it, and gets no second reference.
\<close>

definition find_or_add_index ::
  "PhysicalUserPtr \<Rightarrow> NeededUsers \<Rightarrow> MaterializedView \<Rightarrow> int \<times> NeededUsers \<times> MaterializedView" where
  "find_or_add_index u needed_users v =
     (case map_of needed_users u of
        None \<Rightarrow>
          let index = int (length needed_users) in
          (index, map_set u index needed_users, add_reference u v)
      | Some index \<Rightarrow> (index, needed_users, v))"

definition send_previous_user ::
  "FieldMask \<Rightarrow> PhysicalUserPtr \<times> FieldMask \<Rightarrow>
   NeededUsers \<times> Token list \<times> int \<times> MaterializedView \<Rightarrow>
   NeededUsers \<times> Token list \<times> int \<times> MaterializedView" where
  "send_previous_user overlap it acc =
     (case acc of (needed_users, event_rez, count, v) \<Rightarrow>
        let overlap2 = snd it \<inter> overlap in
        if overlap2 = {} then acc
        else
          (case find_or_add_index (fst it) needed_users v of
             (index, needed1, v1) \<Rightarrow>
               (needed1, event_rez @ [TInt index, TMask overlap2], count - 1, v1)))"

definition send_previous_entry ::
  "FieldMask \<Rightarrow> Event \<times> EventUsers \<Rightarrow>
   NeededUsers \<times> Token list \<times> nat \<times> MaterializedView \<Rightarrow>
   NeededUsers \<times> Token list \<times> nat \<times> MaterializedView" where
  "send_previous_entry update_mask pit acc =
     (case acc of (needed_users, previous_rez, previous_events, v) \<Rightarrow>
        let overlap = user_mask (snd pit) \<inter> update_mask in
        if overlap = {} then acc
        else
          (case users (snd pit) of
             single_user u \<Rightarrow>
               (case find_or_add_index u needed_users v of
                  (index, needed1, v1) \<Rightarrow>
                    (needed1, previous_rez @ [TEvent (fst pit), TInt index, TMask overlap],
                     Suc previous_events, v1))
           | multi_users m \<Rightarrow>
               (case fold (send_previous_user overlap) m (needed_users, [], - 1, v) of
                  (needed1, event_rez, count, v1) \<Rightarrow>
                    (needed1,
                     previous_rez @ [TEvent (fst pit)] @
                       (if count = - 1 \<or> count < - 2 then [TInt count] else []) @ event_rez,
                     Suc previous_events, v1))))"

text \<open>
  Lines 790-805: the users are packed in the order of \<open>needed_users\<close>, each
  with its index, and lose the reference the loops gave them; then come the number of
  current events, the current events, the number of previous events and the previous
  events. The result pairs the message with the view of the sender.
\<close>

definition pack_needed_user ::
  "PhysicalUserPtr \<times> int \<Rightarrow> Token list \<times> MaterializedView \<Rightarrow> Token list \<times> MaterializedView" where
  "pack_needed_user it acc =
     (case acc of (rez, v) \<Rightarrow>
        (rez @ [TInt (snd it), TUser (user_heap v (fst it))], drop_reference (fst it) v))"

definition send_view_updates :: "FieldMask \<Rightarrow> MaterializedView \<Rightarrow> Token list \<times> MaterializedView" where
  "send_view_updates update_mask v =
     (case fold (send_current_entry update_mask) (current_epoch_users v) ([], [], 0, v) of
        (needed1, current_rez, current_events, v1) \<Rightarrow>
          (case fold (send_previous_entry update_mask) (previous_epoch_users v)
                  (needed1, [], 0, v1) of
             (needed2, previous_rez, previous_events, v2) \<Rightarrow>
               (case fold pack_needed_user needed2 ([TSize (length needed2)], v2) of
                  (rez, v3) \<Rightarrow>
                    (rez @ [TUnsigned current_events] @ current_rez @
                       [TUnsigned previous_events] @ previous_rez,
                     v3))))"

text \<open>
  Lines 815-825: \<open>users[index] = unpack_user(...)\<close> for \<open>num_users\<close> users. The
  vector \<open>users\<close> holds NULL (\<open>None\<close>) where nothing was stored yet. Reading past the
  end of the message, reading a value of another type and writing outside the vector are
  errors (\<open>None\<close>).
\<close>

fun unpack_users ::
  "nat \<Rightarrow> Token list \<Rightarrow> PhysicalUserPtr option list \<Rightarrow> MaterializedView \<Rightarrow>
   (Token list \<times> PhysicalUserPtr option list \<times> MaterializedView) option" where
  "unpack_users 0 ts users_vec v = Some (ts, users_vec, v)"
| "unpack_users (Suc n) (TInt index # TUser obj # ts) users_vec v =
     (if 0 \<le> index \<and> nat index < length users_vec then
        (case legion_new obj v of
           (p, v1) \<Rightarrow> unpack_users n ts (users_vec[nat index := Some p]) (add_reference p v1))
      else None)"
| "unpack_users (Suc n) ts users_vec v = None"

text \<open>
  Lines 852-856 and 867-871 (and 899-903, 914-918): one user of an entry is registered
  with \<open>add_current_user\<close> or \<open>add_previous_user\<close>, passed as \<open>add\<close>; from its
  second registration on it is given one more reference. Using an index outside the
  vector, or an index at which no user was unpacked, is an error.
\<close>

definition install_user ::
  "(PhysicalUserPtr \<Rightarrow> Event \<Rightarrow> FieldMask \<Rightarrow> MaterializedView \<Rightarrow> MaterializedView) \<Rightarrow>
   PhysicalUserPtr option list \<Rightarrow> Event \<Rightarrow> int \<Rightarrow> FieldMask \<Rightarrow>
   bool list \<times> MaterializedView \<Rightarrow> (bool list \<times> MaterializedView) option" where
  "install_user add users_vec ev index fmask st =
     (case st of (need_reference, v) \<Rightarrow>
        if 0 \<le> index \<and> nat index < length users_vec \<and> nat index < length need_reference then
          (case users_vec ! nat index of
             None \<Rightarrow> None
           | Some p \<Rightarrow>
               Some (need_reference[nat index := True],
                     add p ev fmask
                       (if need_reference ! nat index then add_reference p v else v)))
        else None)"

text \<open>
  Lines 843-857 (and 890-904): the loop over the \<open>count\<close> users of a multi-user block.
\<close>

fun install_users ::
  "(PhysicalUserPtr \<Rightarrow> Event \<Rightarrow> FieldMask \<Rightarrow> MaterializedView \<Rightarrow> MaterializedView) \<Rightarrow>
   PhysicalUserPtr option list \<Rightarrow> Event \<Rightarrow> nat \<Rightarrow> Token list \<Rightarrow>
   bool list \<times> MaterializedView \<Rightarrow> (Token list \<times> bool list \<times> MaterializedView) option" where
  "install_users add users_vec ev 0 ts st = Some (ts, st)"
| "install_users add users_vec ev (Suc n) (TInt index # TMask fmask # ts) st =
     (case install_user add users_vec ev index fmask st of
        None \<Rightarrow> None
      | Some st1 \<Rightarrow> install_users add users_vec ev n ts st1)"
| "install_users add users_vec ev (Suc n) ts st = None"

text \<open>
  Lines 833-879 (and 880-926): the loop over the events of one epoch. A negative
  \<open>index\<close> announces \<open>(-index) - 1\<close> users; any other is the index of the only user.
  The event is then made outstanding. (The events that were not outstanding before are
  also handed to the parent and to the deferred collection, lines 928-937, which have no
  part in the tables.)
\<close>

fun process_events ::
  "(PhysicalUserPtr \<Rightarrow> Event \<Rightarrow> FieldMask \<Rightarrow> MaterializedView \<Rightarrow> MaterializedView) \<Rightarrow>
   PhysicalUserPtr option list \<Rightarrow> nat \<Rightarrow> Token list \<Rightarrow>
   bool list \<times> MaterializedView \<Rightarrow> (Token list \<times> bool list \<times> MaterializedView) option" where
  "process_events add users_vec 0 ts st = Some (ts, st)"
| "process_events add users_vec (Suc n) (TEvent ev # TInt index # ts) st =
     (case (if index < 0 then install_users add users_vec ev (nat (- index - 1)) ts st
            else
              (case ts of
                 TMask fmask # ts1 \<Rightarrow>
                   (case install_user add users_vec ev index fmask st of
                      None \<Rightarrow> None
                    | Some st1 \<Rightarrow> Some (ts1, st1))
               | _ \<Rightarrow> None)) of
        None \<Rightarrow> None
      | Some (ts2, need_reference, v) \<Rightarrow>
          process_events add users_vec n ts2
            (need_reference, v\<lparr>outstanding_gc_events := insert ev (outstanding_gc_events v)\<rparr>))"
| "process_events add users_vec (Suc n) ts st = None"

text \<open>
  \<open>MaterializedView::process_update\<close>. The result pairs the view of the receiver with
  what is left of the message.
\<close>

definition process_update ::
  "Token list \<Rightarrow> MaterializedView \<Rightarrow> (MaterializedView \<times> Token list) option" where
  "process_update ts v =
     (case ts of
        TSize num_users # ts0 \<Rightarrow>
          (case unpack_users num_users ts0 (replicate num_users None) v of
             None \<Rightarrow> None
           | Some (ts1, users_vec, v1) \<Rightarrow>
               (case ts1 of
                  TUnsigned num_current # ts2 \<Rightarrow>
                    (case process_events add_current_user users_vec num_current ts2
                            (replicate num_users False, v1) of
                       None \<Rightarrow> None
                     | Some (ts3, need_reference, v2) \<Rightarrow>
                         (case ts3 of
                            TUnsigned num_previous # ts4 \<Rightarrow>
                              (case process_events add_previous_user users_vec num_previous ts4
                                      (need_reference, v2) of
                                 None \<Rightarrow> None
                               | Some (ts5, need_reference1, v3) \<Rightarrow> Some (v3, ts5))
                          | _ \<Rightarrow> None))
                | _ \<Rightarrow> None))
      | _ \<Rightarrow> None)"

section \<open>The reduction view\<close>

text \<open>
  \<open>ReductionView::add_physical_user\<close> (lines 4539-4576).
\<close>

definition add_physical_user ::
  "PhysicalUserPtr \<Rightarrow> bool \<Rightarrow> Event \<Rightarrow> FieldMask \<Rightarrow> ReductionView \<Rightarrow> ReductionView" where
  "add_physical_user user reading term_event umask v =
     (if reading
      then v\<lparr>reading_users := add_event_user user term_event umask (reading_users v)\<rparr>
      else v\<lparr>reduction_users := add_event_user user term_event umask (reduction_users v)\<rparr>)"

text \<open>
  Lines 4304-4340 and 4345-4381 of \<open>ReductionView::find_copy_preconditions\<close>: the body
  of the loop over one of the two tables, which records a dependence on every event that
  has a user overlapping the copy mask.
\<close>

definition reduction_copy_step ::
  "FieldMask \<Rightarrow> Event \<times> EventUsers \<Rightarrow> (Event \<rightharpoonup> FieldMask) \<Rightarrow> (Event \<rightharpoonup> FieldMask)" where
  "reduction_copy_step copy_mask rit preconditions =
     (case users (snd rit) of
        single_user u \<Rightarrow>
          let overlap = copy_mask \<inter> user_mask (snd rit) in
          if overlap = {} then preconditions
          else record_dependence (fst rit) overlap preconditions
      | multi_users m \<Rightarrow>
          if copy_mask \<inter> user_mask (snd rit) \<noteq> {}
          then fold (\<lambda>it pre.
                       let overlap = copy_mask \<inter> snd it in
                       if overlap = {} then pre else record_dependence (fst rit) overlap pre)
                 m preconditions
          else preconditions)"

text \<open>\<open>ReductionView::find_copy_preconditions\<close> (lines 4283-4383).\<close>

definition reduction_find_copy_preconditions ::
  "ReductionOpID \<Rightarrow> bool \<Rightarrow> FieldMask \<Rightarrow> (Event \<rightharpoonup> FieldMask) \<Rightarrow> ReductionView \<Rightarrow>
   (Event \<rightharpoonup> FieldMask)" where
  "reduction_find_copy_preconditions redop' reading copy_mask preconditions v =
     (let preconditions0 = (if event_exists (use_event v)
                            then record_dependence (use_event v) copy_mask preconditions
                            else preconditions)
      in if reading
         then fold (reduction_copy_step copy_mask) (reduction_users v) preconditions0
         else fold (reduction_copy_step copy_mask) (reading_users v) preconditions0)"

text \<open>
  Lines 4474-4484 and 4507-4517 of \<open>ReductionView::add_user\<close>: the loop over the users
  of a map, left at the first user that overlaps.
\<close>

fun reduction_wait_users ::
  "FieldMask \<Rightarrow> Event \<Rightarrow> (PhysicalUserPtr \<times> FieldMask) list \<Rightarrow> Event set \<Rightarrow> Event set" where
  "reduction_wait_users umask ev [] wait_on = wait_on"
| "reduction_wait_users umask ev (it # rest) wait_on =
     (if umask \<inter> snd it = {} then reduction_wait_users umask ev rest wait_on
      else insert ev wait_on)"

text \<open>
  Lines 4459-4487 and 4492-4520 of \<open>ReductionView::add_user\<close>: the body of the loop
  over one of the two tables.
\<close>

definition reduction_wait_step :: "FieldMask \<Rightarrow> Event \<times> EventUsers \<Rightarrow> Event set \<Rightarrow> Event set" where
  "reduction_wait_step umask rit wait_on =
     (case users (snd rit) of
        single_user u \<Rightarrow>
          if umask \<inter> user_mask (snd rit) = {} then wait_on else insert (fst rit) wait_on
      | multi_users m \<Rightarrow>
          if umask \<inter> user_mask (snd rit) \<noteq> {}
          then reduction_wait_users umask (fst rit) m wait_on
          else wait_on)"

text \<open>
  \<open>ReductionView::add_user\<close> (lines 4428-4536). The result is the set of events whose
  merge is returned, the flag \<open>issue_collect\<close> and the view.
\<close>

definition reduction_add_user ::
  "RegionUsage \<Rightarrow> Event \<Rightarrow> FieldMask \<Rightarrow> ReductionView \<Rightarrow> Event set \<times> bool \<times> ReductionView" where
  "reduction_add_user usage' term_event umask v =
     (let reading = IS_READ_ONLY usage';
          wait_on = (if event_exists (use_event v) then {use_event v} else {})
      in
        (case legion_new \<lparr>usage = usage', child = InvalidColor, versions = None\<rparr> v of
           (new_user, v1) \<Rightarrow>
             let wait_on1 =
                   (if \<not> reading
                    then fold (reduction_wait_step umask) (reading_users v1) wait_on
                    else fold (reduction_wait_step umask) (reduction_users v1) wait_on);
                 v2 = add_physical_user new_user reading term_event umask v1
             in if term_event \<notin> outstanding_gc_events v2
                then (wait_on1, True,
                      v2\<lparr>outstanding_gc_events := insert term_event (outstanding_gc_events v2)\<rparr>)
                else (wait_on1, False, v2)))"

text \<open>\<open>ReductionView::add_copy_user\<close> (lines 4386-4425).\<close>

definition reduction_add_copy_user ::
  "ReductionOpID \<Rightarrow> Event \<Rightarrow> FieldMask \<Rightarrow> bool \<Rightarrow> ReductionView \<Rightarrow> bool \<times> ReductionView" where
  "reduction_add_copy_user redop' copy_term umask reading v =
     (if event_exists copy_term then
        (case legion_new
                (if reading
                 then \<lparr>usage = \<lparr>privilege = READ_ONLY, coherence_prop = EXCLUSIVE, redop = 0\<rparr>,
                       child = InvalidColor, versions = None\<rparr>
                 else \<lparr>usage = \<lparr>privilege = REDUCE, coherence_prop = EXCLUSIVE, redop = redop'\<rparr>,
                       child = InvalidColor, versions = None\<rparr>) v of
           (user, v1) \<Rightarrow>
             let v2 = add_physical_user user reading copy_term umask v1
             in if copy_term \<notin> outstanding_gc_events v2
                then (True,
                      v2\<lparr>outstanding_gc_events := insert copy_term (outstanding_gc_events v2)\<rparr>)
                else (False, v2))
      else (False, v))"

text \<open>\<open>ReductionView::add_initial_user\<close> (lines 4633-4646).\<close>

definition reduction_add_initial_user ::
  "Event \<Rightarrow> RegionUsage \<Rightarrow> FieldMask \<Rightarrow> ReductionView \<Rightarrow> ReductionView" where
  "reduction_add_initial_user term_event usage' umask v =
     (case legion_new \<lparr>usage = usage', child = InvalidColor, versions = None\<rparr> v of
        (user, v1) \<Rightarrow>
          let v2 = add_physical_user user (IS_READ_ONLY usage') term_event umask v1
          in v2\<lparr>initial_user_events := insert term_event (initial_user_events v2),
                outstanding_gc_events := insert term_event (outstanding_gc_events v2)\<rparr>)"

text \<open>
  \<open>ReductionView::filter_local_users\<close> (lines 4579-4630). The users of a reduction
  view are deleted outright, without a look at their reference count.
\<close>

definition delete_users :: "EventUsers \<Rightarrow> 'a InstanceView_scheme \<Rightarrow> 'a InstanceView_scheme" where
  "delete_users event_users v = fold legion_delete (bucket_users event_users) v"

definition reduction_filter_local_users :: "Event \<Rightarrow> ReductionView \<Rightarrow> ReductionView" where
  "reduction_filter_local_users term_event v =
     (if term_event \<in> outstanding_gc_events v then
        let v1 = (case map_of (reduction_users v) term_event of
                    None \<Rightarrow> v
                  | Some event_users \<Rightarrow>
                      (delete_users event_users v)
                        \<lparr>reduction_users := map_erase term_event (reduction_users v)\<rparr>);
            v2 = (case map_of (reading_users v1) term_event of
                    None \<Rightarrow> v1
                  | Some event_users \<Rightarrow>
                      (delete_users event_users v1)
                        \<lparr>reading_users := map_erase term_event (reading_users v1)\<rparr>)
        in v2\<lparr>outstanding_gc_events := outstanding_gc_events v2 - {term_event}\<rparr>
      else v)"

subsection \<open>Remote updates of the reduction view\<close>

text \<open>
  \<open>ReductionView::send_view_updates\<close> (lines 4776-4873). Lines 4785-4812 and
  4814-4841: the body of the loop over one of the two tables, with the serializer of the
  table, the deque of its users and the count of its events as accumulator. A single
  user is sent with the overlap; the users of a multi-user bucket are all sent, each with
  its whole mask. The view is not changed, and the header of the message (lines 4848-4852)
  is left out as for the materialized view.
\<close>

definition reduction_send_entry ::
  "FieldMask \<Rightarrow> Event \<times> EventUsers \<Rightarrow> Token list \<times> PhysicalUserPtr list \<times> nat \<Rightarrow>
   Token list \<times> PhysicalUserPtr list \<times> nat" where
  "reduction_send_entry update_mask rit acc =
     (case acc of (rez, sent_users, events) \<Rightarrow>
        let overlap = user_mask (snd rit) \<inter> update_mask in
        if overlap = {} then acc
        else
          (case users (snd rit) of
             single_user u \<Rightarrow>
               (rez @ [TEvent (fst rit), TSize 1, TMask overlap], sent_users @ [u], Suc events)
           | multi_users m \<Rightarrow>
               (rez @ [TEvent (fst rit), TSize (length m)] @ map (\<lambda>it. TMask (snd it)) m,
                sent_users @ map fst m, Suc events)))"

definition reduction_send_view_updates :: "FieldMask \<Rightarrow> ReductionView \<Rightarrow> Token list" where
  "reduction_send_view_updates update_mask v =
     (case fold (reduction_send_entry update_mask) (reduction_users v) ([], [], 0) of
        (reduction_rez, red_users, reduction_events) \<Rightarrow>
          (case fold (reduction_send_entry update_mask) (reading_users v) ([], [], 0) of
             (reading_rez, read_users, reading_events) \<Rightarrow>
               [TSize (length red_users)] @ map (\<lambda>p. TUser (user_heap v p)) red_users @
               [TSize (length read_users)] @ map (\<lambda>p. TUser (user_heap v p)) read_users @
               [TUnsigned reduction_events] @ reduction_rez @
               [TUnsigned reading_events] @ reading_rez))"

text \<open>
  \<open>ReductionView::process_update\<close> (lines 4876-4950). Lines 4880-4892: the users are
  unpacked into a vector in the order they come. Lines 4905-4911 (and 4927-4933): the
  users of an event are taken from the vector one after the other, \<open>reduction_index\<close>
  (or \<open>reading_index\<close>) running over the whole message; reading outside the vector is
  an error. Lines 4899-4918 (and 4921-4940): the loop over the events of a table.
\<close>

fun reduction_unpack_users ::
  "nat \<Rightarrow> Token list \<Rightarrow> ReductionView \<Rightarrow>
   (Token list \<times> PhysicalUserPtr list \<times> ReductionView) option" where
  "reduction_unpack_users 0 ts v = Some (ts, [], v)"
| "reduction_unpack_users (Suc n) (TUser obj # ts) v =
     (case legion_new obj v of
        (p, v1) \<Rightarrow>
          (case reduction_unpack_users n ts (add_reference p v1) of
             None \<Rightarrow> None
           | Some (ts1, unpacked_users, v2) \<Rightarrow> Some (ts1, p # unpacked_users, v2)))"
| "reduction_unpack_users (Suc n) ts v = None"

fun reduction_install_users ::
  "bool \<Rightarrow> PhysicalUserPtr list \<Rightarrow> Event \<Rightarrow> nat \<Rightarrow> Token list \<Rightarrow> nat \<times> ReductionView \<Rightarrow>
   (Token list \<times> nat \<times> ReductionView) option" where
  "reduction_install_users reading users_vec ev 0 ts st = Some (ts, st)"
| "reduction_install_users reading users_vec ev (Suc n) (TMask fmask # ts) st =
     (if fst st < length users_vec
      then reduction_install_users reading users_vec ev n ts
             (Suc (fst st), add_physical_user (users_vec ! fst st) reading ev fmask (snd st))
      else None)"
| "reduction_install_users reading users_vec ev (Suc n) ts st = None"

fun reduction_process_events ::
  "bool \<Rightarrow> PhysicalUserPtr list \<Rightarrow> nat \<Rightarrow> Token list \<Rightarrow> nat \<times> ReductionView \<Rightarrow>
   (Token list \<times> nat \<times> ReductionView) option" where
  "reduction_process_events reading users_vec 0 ts st = Some (ts, st)"
| "reduction_process_events reading users_vec (Suc n) (TEvent ev # TSize num_users # ts) st =
     (case reduction_install_users reading users_vec ev num_users ts st of
        None \<Rightarrow> None
      | Some (ts1, index, v) \<Rightarrow>
          reduction_process_events reading users_vec n ts1
            (index, v\<lparr>outstanding_gc_events := insert ev (outstanding_gc_events v)\<rparr>))"
| "reduction_process_events reading users_vec (Suc n) ts st = None"

definition reduction_process_update ::
  "Token list \<Rightarrow> ReductionView \<Rightarrow> (ReductionView \<times> Token list) option" where
  "reduction_process_update ts v =
     (case ts of
        TSize num_reduction_users # ts0 \<Rightarrow>
          (case reduction_unpack_users num_reduction_users ts0 v of
             None \<Rightarrow> None
           | Some (ts1, red_users, v1) \<Rightarrow>
               (case ts1 of
                  TSize num_reading_users # ts2 \<Rightarrow>
                    (case reduction_unpack_users num_reading_users ts2 v1 of
                       None \<Rightarrow> None
                     | Some (ts3, read_users, v2) \<Rightarrow>
                         (case ts3 of
                            TUnsigned num_reduction_events # ts4 \<Rightarrow>
                              (case reduction_process_events False red_users num_reduction_events
                                      ts4 (0, v2) of
                                 None \<Rightarrow> None
                               | Some (ts5, reduction_index, v3) \<Rightarrow>
                                   (case ts5 of
                                      TUnsigned num_reading_events # ts6 \<Rightarrow>
                                        (case reduction_process_events True read_users
                                                num_reading_events ts6 (0, v3) of
                                           None \<Rightarrow> None
                                         | Some (ts7, reading_index, v4) \<Rightarrow> Some (v4, ts7))
                                    | _ \<Rightarrow> None))
                          | _ \<Rightarrow> None))
                | _ \<Rightarrow> None))
      | _ \<Rightarrow> None)"

section \<open>The composite node\<close>

text \<open>
  A \<open>CompositeNode\<close> holds the maps \<open>valid_views\<close>, \<open>reduction_views\<close> and
  \<open>children\<close>. The views are named by their ids; what the notifications change of a
  view are its gc and valid reference counts, kept here per view id.

  Modelled from the spec: \<open>add_nested_gc_ref\<close>, \<open>remove_nested_gc_ref\<close>,
  \<open>add_nested_valid_ref\<close> and \<open>remove_nested_valid_ref\<close> belong to the distributed
  collectable, which is not part of this file; per the spec each addition bumps the
  counter of its kind and the paired removal lowers it.
\<close>

type_synonym ViewID = nat

datatype CompositeNode =
  CompositeNode
    (valid_views: "(ViewID \<times> FieldMask) list")
    (reduction_views: "(ViewID \<times> FieldMask) list")
    (children: "(CompositeNode \<times> FieldMask) list")

record ViewReferences =
  gc_references :: "ViewID \<Rightarrow> nat"
  valid_references :: "ViewID \<Rightarrow> nat"

definition add_nested_gc_ref :: "ViewID \<Rightarrow> ViewReferences \<Rightarrow> ViewReferences" where
  "add_nested_gc_ref view r = r\<lparr>gc_references := (gc_references r)(view := Suc (gc_references r view))\<rparr>"

definition remove_nested_gc_ref :: "ViewID \<Rightarrow> ViewReferences \<Rightarrow> ViewReferences" where
  "remove_nested_gc_ref view r = r\<lparr>gc_references := (gc_references r)(view := gc_references r view - 1)\<rparr>"

definition add_nested_valid_ref :: "ViewID \<Rightarrow> ViewReferences \<Rightarrow> ViewReferences" where
  "add_nested_valid_ref view r =
     r\<lparr>valid_references := (valid_references r)(view := Suc (valid_references r view))\<rparr>"

definition remove_nested_valid_ref :: "ViewID \<Rightarrow> ViewReferences \<Rightarrow> ViewReferences" where
  "remove_nested_valid_ref view r =
     r\<lparr>valid_references := (valid_references r)(view := valid_references r view - 1)\<rparr>"

text \<open>
  The iterator range of a loop that starts at \<open>m.end()\<close> and runs until \<open>m.end()\<close>:
  what is left of the map after all of its entries.
\<close>

definition from_end :: "'a list \<Rightarrow> 'a list" where
  "from_end m = drop (length m) m"

text \<open>
  \<open>CompositeNode::notify_active\<close> (lines 3782-3800),
  \<open>CompositeNode::notify_inactive\<close> (lines 3803-3823),
  \<open>CompositeNode::notify_valid\<close> (lines 3826-3844) and
  \<open>CompositeNode::notify_invalid\<close> (lines 3847-3867). In each the first loop runs over
  \<open>valid_views\<close>, the second over \<open>reduction_views\<close> and the third over the children.
\<close>

fun notify_active :: "CompositeNode \<Rightarrow> ViewReferences \<Rightarrow> ViewReferences" where
  "notify_active (CompositeNode vviews rviews cs) r =
     fold (\<lambda>it. notify_active (fst it)) cs
       (fold (\<lambda>it. add_nested_gc_ref (fst it)) rviews
          (fold (\<lambda>it. add_nested_gc_ref (fst it)) vviews r))"

fun notify_inactive :: "CompositeNode \<Rightarrow> ViewReferences \<Rightarrow> ViewReferences" where
  "notify_inactive (CompositeNode vviews rviews cs) r =
     fold (\<lambda>it. notify_inactive (fst it)) cs
       (fold (\<lambda>it. remove_nested_gc_ref (fst it)) rviews
          (fold (\<lambda>it. remove_nested_gc_ref (fst it)) (from_end vviews) r))"

fun notify_valid :: "CompositeNode \<Rightarrow> ViewReferences \<Rightarrow> ViewReferences" where
  "notify_valid (CompositeNode vviews rviews cs) r =
     fold (\<lambda>it. notify_valid (fst it)) cs
       (fold (\<lambda>it. add_nested_valid_ref (fst it)) rviews
          (fold (\<lambda>it. add_nested_valid_ref (fst it)) vviews r))"

fun notify_invalid :: "CompositeNode \<Rightarrow> ViewReferences \<Rightarrow> ViewReferences" where
  "notify_invalid (CompositeNode vviews rviews cs) r =
     fold (\<lambda>it. notify_invalid (fst it)) cs
       (fold (\<lambda>it. add_nested_valid_ref (fst it)) rviews
          (fold (\<lambda>it. add_nested_valid_ref (fst it)) (from_end vviews) r))"

section \<open>Predicates and example states for the properties\<close>

text \<open>
  The invariant of a bucket: the summary mask of a multi-user bucket is the union of the
  masks of its users. (The single-user form stores one mask only, which is both the
  user's mask and the summary.)
\<close>

definition summary_is_union :: "EventUsers \<Rightarrow> bool" where
  "summary_is_union event_users =
     (case users event_users of
        single_user u \<Rightarrow> True
      | multi_users m \<Rightarrow> user_mask event_users = \<Union> (snd ` set m))"

text \<open>The events of a table whose summary mask overlaps a given mask.\<close>

definition overlapping_events :: "FieldMask \<Rightarrow> (Event \<times> EventUsers) list \<Rightarrow> Event set" where
  "overlapping_events fmask table = {e. \<exists>eu. (e, eu) \<in> set table \<and> fmask \<inter> user_mask eu \<noteq> {}}"

text \<open>The user pointers a table holds under an event, in iteration order.\<close>

definition held_users :: "Event \<Rightarrow> (Event \<times> EventUsers) list \<Rightarrow> PhysicalUserPtr list" where
  "held_users e table =
     (case map_of table e of None \<Rightarrow> [] | Some event_users \<Rightarrow> bucket_users event_users)"

text \<open>
  One precondition map covers another when it has every event of the other, with at least
  the other's fields.
\<close>

definition covers :: "(Event \<rightharpoonup> FieldMask) \<Rightarrow> (Event \<rightharpoonup> FieldMask) \<Rightarrow> bool" where
  "covers p q = (\<forall>e m. p e = Some m \<longrightarrow> (\<exists>m'. q e = Some m' \<and> m \<subseteq> m'))"

text \<open>
  Example states. \<open>example_view\<close> is a materialized view on one field: a read-write
  user with term event 1 already moved to the previous epoch, a read-write user with term
  event 2 in the current epoch, and a manager whose use event is 9.
  \<open>example_reduction_view\<close> has a reducer with term event 1 and a reader with term
  event 2 on the same field.
\<close>

definition example_node :: RegionTreeNode where
  "example_node = \<lparr>node_id = 0, get_color = InvalidColor, are_children_disjoint = (\<lambda>a b. False)\<rparr>"

definition example_version_info :: VersionInfo where
  "example_version_info = \<lparr>is_upper_bound_node = (\<lambda>n. True), get_versions = (\<lambda>n. None)\<rparr>"

definition read_write_usage :: RegionUsage where
  "read_write_usage = \<lparr>privilege = READ_WRITE, coherence_prop = EXCLUSIVE, redop = 0\<rparr>"

definition read_only_usage :: RegionUsage where
  "read_only_usage = \<lparr>privilege = READ_ONLY, coherence_prop = EXCLUSIVE, redop = 0\<rparr>"

definition reduce_usage :: RegionUsage where
  "reduce_usage = \<lparr>privilege = REDUCE, coherence_prop = EXCLUSIVE, redop = 1\<rparr>"

definition example_view :: MaterializedView where
  "example_view =
     \<lparr>logical_node = example_node, use_event = 9, outstanding_gc_events = {1, 2},
      initial_user_events = {},
      user_heap = (\<lambda>p. \<lparr>usage = read_write_usage, child = InvalidColor, versions = None\<rparr>),
      references = (\<lambda>p. if p < 2 then 1 else 0), live_users = {0, 1}, next_address = 2,
      current_epoch_users = [(2, \<lparr>user_mask = {0}, users = single_user 1\<rparr>)],
      previous_epoch_users = [(1, \<lparr>user_mask = {0}, users = single_user 0\<rparr>)]\<rparr>"

definition example_reduction_view :: ReductionView where
  "example_reduction_view =
     \<lparr>logical_node = example_node, use_event = 9, outstanding_gc_events = {1, 2},
      initial_user_events = {},
      user_heap = (\<lambda>p. if p = 0
                        then \<lparr>usage = reduce_usage, child = InvalidColor, versions = None\<rparr>
                        else \<lparr>usage = read_only_usage, child = InvalidColor, versions = None\<rparr>),
      references = (\<lambda>p. 0), live_users = {0, 1}, next_address = 2,
      reduction_users = [(1, \<lparr>user_mask = {0}, users = single_user 0\<rparr>)],
      reading_users = [(2, \<lparr>user_mask = {0}, users = single_user 1\<rparr>)]\<rparr>"

subsection \<open>Tables seen user by user\<close>

text \<open>
  The fields a user holds in a bucket, in the map of a bucket and under an event of a
  table: the empty mask when the user, or the event, is not there.
\<close>

definition map_fields :: "(PhysicalUserPtr \<times> FieldMask) list \<Rightarrow> PhysicalUserPtr \<Rightarrow> FieldMask" where
  "map_fields m u = (case map_of m u of None \<Rightarrow> {} | Some fm \<Rightarrow> fm)"

definition bucket_fields :: "EventUsers \<Rightarrow> PhysicalUserPtr \<Rightarrow> FieldMask" where
  "bucket_fields event_users u =
     (case users event_users of
        single_user u' \<Rightarrow> if u' = u then user_mask event_users else {}
      | multi_users m \<Rightarrow> (case map_of m u of None \<Rightarrow> {} | Some fm \<Rightarrow> fm))"

definition user_fields :: "(Event \<times> EventUsers) list \<Rightarrow> Event \<Rightarrow> PhysicalUserPtr \<Rightarrow> FieldMask" where
  "user_fields table e u =
     (case map_of table e of None \<Rightarrow> {} | Some event_users \<Rightarrow> bucket_fields event_users u)"

text \<open>
  A well-formed bucket: the map of the multi-user form is a \<open>std::map\<close>, its keys
  strictly increasing, and the summary mask is the union of the masks in it. A
  well-formed table is a \<open>std::map\<close> of well-formed buckets.
\<close>

definition wf_bucket :: "EventUsers \<Rightarrow> bool" where
  "wf_bucket event_users =
     (case users event_users of
        single_user u \<Rightarrow> True
      | multi_users m \<Rightarrow>
          sorted_wrt (<) (map fst m) \<and> user_mask event_users = \<Union> (snd ` set m))"

definition wf_table :: "(Event \<times> EventUsers) list \<Rightarrow> bool" where
  "wf_table table =
     (sorted_wrt (<) (map fst table) \<and> (\<forall>kv \<in> set table. wf_bucket (snd kv)))"

text \<open>
  Frames. \<open>same_tables\<close> relates two views that differ in the reference counts and the
  set of live users only; \<open>entry_frame\<close> lets the previous epoch differ as well.
\<close>

definition same_tables :: "MaterializedView \<Rightarrow> MaterializedView \<Rightarrow> bool" where
  "same_tables v v' =
     (current_epoch_users v' = current_epoch_users v \<and>
      previous_epoch_users v' = previous_epoch_users v \<and>
      outstanding_gc_events v' = outstanding_gc_events v \<and>
      next_address v' = next_address v \<and>
      user_heap v' = user_heap v \<and>
      logical_node v' = logical_node v)"

definition entry_frame :: "MaterializedView \<Rightarrow> MaterializedView \<Rightarrow> bool" where
  "entry_frame v v' =
     (current_epoch_users v' = current_epoch_users v \<and>
      outstanding_gc_events v' = outstanding_gc_events v \<and>
      next_address v' = next_address v \<and>
      user_heap v' = user_heap v \<and>
      logical_node v' = logical_node v)"

text \<open>
  \<open>migrated ev moved v v'\<close>: the previous epoch of \<open>v'\<close> is the one of \<open>v\<close> with the
  bucket of \<open>ev\<close> replaced by a well-formed bucket that holds, user by user, what it held
  before and the fields \<open>moved\<close>. \<open>entry_post\<close> says the same of the whole previous
  table, which also covers the case where nothing moved and no bucket was made.
\<close>

definition migrated ::
  "Event \<Rightarrow> (PhysicalUserPtr \<Rightarrow> FieldMask) \<Rightarrow> MaterializedView \<Rightarrow> MaterializedView \<Rightarrow> bool" where
  "migrated ev moved v v' =
     (entry_frame v v' \<and>
      (\<exists>pb. previous_epoch_users v' = map_set ev pb (previous_epoch_users v) \<and> wf_bucket pb \<and>
         (\<forall>u. bucket_fields pb u = user_fields (previous_epoch_users v) ev u \<union> moved u)))"

definition entry_post ::
  "Event \<Rightarrow> (PhysicalUserPtr \<Rightarrow> FieldMask) \<Rightarrow> MaterializedView \<Rightarrow> MaterializedView \<Rightarrow> bool" where
  "entry_post e moved v v1 =
     (entry_frame v v1 \<and> wf_table (previous_epoch_users v1) \<and>
      set (map fst (previous_epoch_users v1)) \<subseteq> insert e (set (map fst (previous_epoch_users v))) \<and>
      (\<forall>e' u. user_fields (previous_epoch_users v1) e' u =
          user_fields (previous_epoch_users v) e' u \<union> (if e' = e then moved u else {})))"

text \<open>
  The two vectors the loops of lines 1865-1935 build from the current map \<open>cm\<close>: the
  map with the dominated fields taken out of every mask, and the users whose mask became
  empty.
\<close>

definition masks_left ::
  "FieldMask \<Rightarrow> (PhysicalUserPtr \<times> FieldMask) list \<Rightarrow> (PhysicalUserPtr \<times> FieldMask) list" where
  "masks_left so cm = map (\<lambda>it. (fst it, snd it - so)) cm"

definition emptied :: "FieldMask \<Rightarrow> (PhysicalUserPtr \<times> FieldMask) list \<Rightarrow> PhysicalUserPtr list" where
  "emptied so cm = map fst (filter (\<lambda>it. so \<inter> snd it \<noteq> {} \<and> snd it - so = {}) cm)"

text \<open>
  The entries \<open>filter_current_users\<close> erases from the current epoch: those of a triggered
  event, and those whose summary mask overlaps the dominated mask and lies inside it, so
  that nothing of it is left.
\<close>

definition erased :: "(Event \<Rightarrow> bool) \<Rightarrow> FieldMask \<Rightarrow> Event \<times> EventUsers \<Rightarrow> bool" where
  "erased ht d cit =
     (ht (fst cit) \<or> (user_mask (snd cit) \<inter> d \<noteq> {} \<and> user_mask (snd cit) \<subseteq> d))"

text \<open>
  What the loop of \<open>filter_current_users\<close> over the entries \<open>cl\<close> has done when it
  returns the kept entries and the view \<open>v2\<close>.
\<close>

definition loop_post ::
  "(Event \<Rightarrow> bool) \<Rightarrow> FieldMask \<Rightarrow> (Event \<times> EventUsers) list \<Rightarrow> MaterializedView \<Rightarrow>
   (Event \<times> EventUsers) list \<Rightarrow> MaterializedView \<Rightarrow> bool" where
  "loop_post ht d cl v kept v2 =
     (entry_frame v v2 \<and> wf_table (previous_epoch_users v2) \<and> wf_table kept \<and>
      set (map fst (previous_epoch_users v2)) \<subseteq>
        set (map fst cl) \<union> set (map fst (previous_epoch_users v)) \<and>
      map fst kept = map fst (filter (\<lambda>cit. \<not> erased ht d cit) cl) \<and>
      (\<forall>e u. user_fields (previous_epoch_users v2) e u =
          user_fields (previous_epoch_users v) e u \<union>
          (if ht e then {} else user_fields cl e u \<inter> d)) \<and>
      (\<forall>e u. user_fields kept e u = (if ht e then {} else user_fields cl e u - d)))"

text \<open>
  The users of a previous-epoch map whose mask is empty after the filter mask has been
  taken out of every mask (lines 1656-1661 of \<open>filter_previous_users\<close>).
\<close>

definition cleared :: "(PhysicalUserPtr \<times> FieldMask) list \<Rightarrow> PhysicalUserPtr list" where
  "cleared filtered = map fst (filter (\<lambda>it. snd it = {}) filtered)"

text \<open>
  What one step of \<open>filter_previous_users\<close> does for the event \<open>e\<close> and the mask
  \<open>f\<close>: the fields in \<open>f\<close> leave every user of \<open>e\<close> in the previous epoch, and
  nothing else changes in the tables.
\<close>

definition shrink_post ::
  "Event \<Rightarrow> FieldMask \<Rightarrow> MaterializedView \<Rightarrow> MaterializedView \<Rightarrow> bool" where
  "shrink_post e f v v' =
     (entry_frame v v' \<and> wf_table (previous_epoch_users v') \<and>
      set (map fst (previous_epoch_users v')) \<subseteq> set (map fst (previous_epoch_users v)) \<and>
      (\<forall>e' u. user_fields (previous_epoch_users v') e' u =
          (if e' = e then user_fields (previous_epoch_users v) e u - f
           else user_fields (previous_epoch_users v) e' u)))"

text \<open>
  \<open>shrinks v v'\<close>: the tables of \<open>v'\<close> are well formed, no user holds a field in the
  current epoch that it did not hold in \<open>v\<close>, and a user holds a field in the previous
  epoch only if it held it in one of the epochs of \<open>v\<close>. No user was allocated.
\<close>

definition shrinks :: "MaterializedView \<Rightarrow> MaterializedView \<Rightarrow> bool" where
  "shrinks v v' =
     (next_address v' = next_address v \<and>
      wf_table (current_epoch_users v') \<and> wf_table (previous_epoch_users v') \<and>
      (\<forall>e u. user_fields (current_epoch_users v') e u \<subseteq> user_fields (current_epoch_users v) e u) \<and>
      (\<forall>e u. user_fields (previous_epoch_users v') e u \<subseteq>
          user_fields (previous_epoch_users v) e u \<union> user_fields (current_epoch_users v) e u))"

text \<open>
  \<open>fresh_above n table\<close>: no address from \<open>n\<close> on holds a field in the table, which is
  the case when \<open>n\<close> is the next address \<open>legion_new\<close> hands out. \<open>one_event table\<close>:
  a user holds fields under one event only, the term event it was registered with.
  \<open>view_inv\<close> collects what every operation on a materialized view maintains.
\<close>

definition fresh_above :: "PhysicalUserPtr \<Rightarrow> (Event \<times> EventUsers) list \<Rightarrow> bool" where
  "fresh_above n table = (\<forall>e u. n \<le> u \<longrightarrow> user_fields table e u = {})"

definition one_event :: "(Event \<times> EventUsers) list \<Rightarrow> bool" where
  "one_event table =
     (\<forall>e e' u. user_fields table e u \<noteq> {} \<longrightarrow> user_fields table e' u \<noteq> {} \<longrightarrow> e = e')"

definition view_inv :: "MaterializedView \<Rightarrow> bool" where
  "view_inv v =
     (wf_table (current_epoch_users v) \<and> wf_table (previous_epoch_users v) \<and>
      fresh_above (next_address v) (current_epoch_users v) \<and>
      fresh_above (next_address v) (previous_epoch_users v) \<and>
      one_event (current_epoch_users v))"

text \<open>
  The dependence rule of the task path, entry by entry. A prior user is dependent for
  a caller when its mask overlaps the caller's, no child cut-off applies and the
  dependence table gives a true or an anti dependence; an entry is dependent when it
  holds such a user (the loop over a multi-user bucket is entered only if the summary
  mask overlaps); \<open>dependent_events\<close> are the events of the dependent entries of a
  table that have not triggered and are not the caller's term event.
\<close>

definition dependent_user ::
  "(RegionUsage \<Rightarrow> RegionUsage \<Rightarrow> DependenceType) \<Rightarrow> RegionTreeNode \<Rightarrow> RegionUsage \<Rightarrow>
   FieldMask \<Rightarrow> ColorPoint \<Rightarrow> PhysicalUser \<Rightarrow> FieldMask \<Rightarrow> bool" where
  "dependent_user cdt node next_usage next_mask child_color prev_user prev_mask =
     (prev_mask \<inter> next_mask \<noteq> {} \<and> \<not> child_cut_off node child_color prev_user \<and>
      cdt (usage prev_user) next_usage \<in> {TRUE_DEPENDENCE, ANTI_DEPENDENCE})"

definition dependent_entry ::
  "(RegionUsage \<Rightarrow> RegionUsage \<Rightarrow> DependenceType) \<Rightarrow> RegionTreeNode \<Rightarrow>
   (PhysicalUserPtr \<Rightarrow> PhysicalUser) \<Rightarrow> RegionUsage \<Rightarrow> FieldMask \<Rightarrow> ColorPoint \<Rightarrow>
   EventUsers \<Rightarrow> bool" where
  "dependent_entry cdt node heap next_usage next_mask child_color event_users =
     (case users event_users of
        single_user u \<Rightarrow>
          dependent_user cdt node next_usage next_mask child_color (heap u) (user_mask event_users)
      | multi_users m \<Rightarrow>
          next_mask \<inter> user_mask event_users \<noteq> {} \<and>
          (\<exists>it \<in> set m. dependent_user cdt node next_usage next_mask child_color
                           (heap (fst it)) (snd it)))"

definition dependent_events ::
  "(Event \<Rightarrow> bool) \<Rightarrow> (RegionUsage \<Rightarrow> RegionUsage \<Rightarrow> DependenceType) \<Rightarrow> RegionTreeNode \<Rightarrow>
   (PhysicalUserPtr \<Rightarrow> PhysicalUser) \<Rightarrow> RegionUsage \<Rightarrow> Event \<Rightarrow> FieldMask \<Rightarrow> ColorPoint \<Rightarrow>
   (Event \<times> EventUsers) list \<Rightarrow> Event set" where
  "dependent_events has_triggered cdt node heap next_usage term_event next_mask child_color table =
     set (map fst (filter (\<lambda>cit. \<not> has_triggered (fst cit) \<and> fst cit \<noteq> term_event \<and>
                             dependent_entry cdt node heap next_usage next_mask child_color (snd cit))
                     table))"

text \<open>
  What the clean-up of the analyzers has done to the events that have not triggered, for
  the dominated mask \<open>d\<close>: every user lost the fields in \<open>d\<close> in the current epoch and
  holds them in the previous epoch, and the event is still in the current epoch exactly
  when its summary mask was not emptied.
\<close>

definition filters_post ::
  "(Event \<Rightarrow> bool) \<Rightarrow> FieldMask \<Rightarrow> MaterializedView \<Rightarrow> MaterializedView \<Rightarrow> bool" where
  "filters_post ht d v v' =
     (\<forall>e. \<not> ht e \<longrightarrow>
        (\<forall>u. user_fields (current_epoch_users v') e u =
               user_fields (current_epoch_users v) e u - d \<and>
             user_fields (current_epoch_users v) e u \<inter> d \<subseteq>
               user_fields (previous_epoch_users v') e u) \<and>
        (e \<in> set (map fst (current_epoch_users v')) \<longleftrightarrow>
           (\<exists>eu. map_of (current_epoch_users v) e = Some eu \<and>
                 \<not> (user_mask eu \<inter> d \<noteq> {} \<and> user_mask eu \<subseteq> d))))"

text \<open>
  \<open>two_user_view\<close> is \<open>example_view\<close> after two more registrations: a second user
  under event 2, on fields 0 and 1, and a user under event 4 on field 0. Its current
  epoch has a multi-user bucket (users 1 and 2) under event 2 and user 3 under event 4.
\<close>

definition two_user_view :: MaterializedView where
  "two_user_view =
     add_initial_user 4 read_write_usage {0}
       (add_initial_user 2 read_write_usage {0, 1} example_view)"

text \<open>
  The users of a view record versions only if their usage is read-only: the allocations
  at lines 1008-1012 and 1165-1169 attach versions under \<open>IS_READ_ONLY\<close> only, and
  \<open>add_initial_user\<close> attaches none.
\<close>

definition versions_read_only :: "MaterializedView \<Rightarrow> bool" where
  "versions_read_only v =
     (\<forall>p. versions (user_heap v p) \<noteq> None \<longrightarrow> IS_READ_ONLY (usage (user_heap v p)))"

subsection \<open>The contents of an update\<close>

text \<open>
  The index a user gets in a message is its position in the order in which the users
  were first met; \<open>extend_order\<close> adds the users of a list that are not in the order
  yet. \<open>needed_ok\<close> relates \<open>needed_users\<close> to that order.
\<close>

fun position :: "PhysicalUserPtr \<Rightarrow> PhysicalUserPtr list \<Rightarrow> nat" where
  "position p [] = 0"
| "position p (x # xs) = (if x = p then 0 else Suc (position p xs))"

definition add_order :: "PhysicalUserPtr \<Rightarrow> PhysicalUserPtr list \<Rightarrow> PhysicalUserPtr list" where
  "add_order p order = (if p \<in> set order then order else order @ [p])"

definition extend_order :: "PhysicalUserPtr list \<Rightarrow> PhysicalUserPtr list \<Rightarrow> PhysicalUserPtr list" where
  "extend_order ps order = fold add_order ps order"

definition needed_ok :: "NeededUsers \<Rightarrow> PhysicalUserPtr list \<Rightarrow> bool" where
  "needed_ok needed_users order =
     (sorted_wrt (<) (map fst needed_users) \<and> distinct order \<and>
      length needed_users = length order \<and>
      (\<forall>p. map_of needed_users p =
         (if p \<in> set order then Some (int (position p order)) else None)))"

text \<open>
  What an update takes from a table for the update mask: the entries whose summary
  mask overlaps it, and from each the users whose mask overlaps it, each with the
  overlap. \<open>pointers_of\<close> lists the users in the order they are met, and
  \<open>final_order\<close> is the order in which the users of a view get their indexes: the
  current epoch first, then those met in the previous epoch only.
\<close>

definition selected_users ::
  "FieldMask \<Rightarrow> (PhysicalUserPtr \<times> FieldMask) list \<Rightarrow> (PhysicalUserPtr \<times> FieldMask) list" where
  "selected_users overlap m =
     filter (\<lambda>it. snd it \<noteq> {}) (map (\<lambda>it. (fst it, snd it \<inter> overlap)) m)"

definition selected_bucket :: "FieldMask \<Rightarrow> EventUsers \<Rightarrow> (PhysicalUserPtr \<times> FieldMask) list" where
  "selected_bucket update_mask event_users =
     (case users event_users of
        single_user u \<Rightarrow> [(u, user_mask event_users \<inter> update_mask)]
      | multi_users m \<Rightarrow> selected_users (user_mask event_users \<inter> update_mask) m)"

definition selected ::
  "FieldMask \<Rightarrow> (Event \<times> EventUsers) list \<Rightarrow> (Event \<times> (PhysicalUserPtr \<times> FieldMask) list) list" where
  "selected update_mask table =
     map (\<lambda>cit. (fst cit, selected_bucket update_mask (snd cit)))
       (filter (\<lambda>cit. user_mask (snd cit) \<inter> update_mask \<noteq> {}) table)"

definition pointers_of ::
  "(Event \<times> (PhysicalUserPtr \<times> FieldMask) list) list \<Rightarrow> PhysicalUserPtr list" where
  "pointers_of es = concat (map (\<lambda>en. map fst (snd en)) es)"

definition final_order :: "FieldMask \<Rightarrow> MaterializedView \<Rightarrow> PhysicalUserPtr list" where
  "final_order um v =
     extend_order (pointers_of (selected um (previous_epoch_users v)))
       (pointers_of (selected um (current_epoch_users v)))"

text \<open>
  The wire format. An entry is its event, then, unless it has exactly one user, the
  count -1 - n for its n users, then index and mask of every user; the users are packed as
  index and record.
\<close>

definition encode_pairs :: "PhysicalUserPtr list \<Rightarrow> (PhysicalUserPtr \<times> FieldMask) list \<Rightarrow> Token list" where
  "encode_pairs order us =
     concat (map (\<lambda>it. [TInt (int (position (fst it) order)), TMask (snd it)]) us)"

definition encode_entry ::
  "PhysicalUserPtr list \<Rightarrow> Event \<times> (PhysicalUserPtr \<times> FieldMask) list \<Rightarrow> Token list" where
  "encode_entry order en =
     [TEvent (fst en)] @
     (if length (snd en) = 1 then [] else [TInt (- 1 - int (length (snd en)))]) @
     encode_pairs order (snd en)"

definition encode_entries ::
  "PhysicalUserPtr list \<Rightarrow> (Event \<times> (PhysicalUserPtr \<times> FieldMask) list) list \<Rightarrow> Token list" where
  "encode_entries order es = concat (map (encode_entry order) es)"

definition pack_tokens :: "(PhysicalUserPtr \<Rightarrow> PhysicalUser) \<Rightarrow> NeededUsers \<Rightarrow> Token list" where
  "pack_tokens heap needed_users =
     concat (map (\<lambda>it. [TInt (snd it), TUser (heap (fst it))]) needed_users)"

text \<open>
  The receiver. \<open>fill_users\<close> is the vector \<open>users\<close> after unpacking, the k-th user
  packed being allocated at the k-th address from \<open>a\<close> on; \<open>unpacked\<close> is what
  unpacking does to the view; \<open>receiver_pointer\<close> maps a user of the sender to the
  address of its copy; \<open>users_ok\<close> says that the vector holds the copy of every user
  at its index.
\<close>

fun fill_users ::
  "PhysicalUserPtr \<Rightarrow> NeededUsers \<Rightarrow> PhysicalUserPtr option list \<Rightarrow> PhysicalUserPtr option list" where
  "fill_users a [] us = us"
| "fill_users a (it # nd) us = fill_users (Suc a) nd (us[nat (snd it) := Some a])"

definition unpacked ::
  "(PhysicalUserPtr \<Rightarrow> PhysicalUser) \<Rightarrow> NeededUsers \<Rightarrow> MaterializedView \<Rightarrow> MaterializedView \<Rightarrow> bool" where
  "unpacked heap nd v v' =
     (current_epoch_users v' = current_epoch_users v \<and>
      previous_epoch_users v' = previous_epoch_users v \<and>
      outstanding_gc_events v' = outstanding_gc_events v \<and>
      next_address v' = next_address v + length nd \<and>
      (\<forall>k < length nd. user_heap v' (next_address v + k) = heap (fst (nd ! k))) \<and>
      (\<forall>a < next_address v. user_heap v' a = user_heap v a))"

definition receiver_pointer :: "NeededUsers \<Rightarrow> PhysicalUserPtr \<Rightarrow> PhysicalUserPtr \<Rightarrow> PhysicalUserPtr" where
  "receiver_pointer nd a p = a + position p (map fst nd)"

definition users_ok ::
  "PhysicalUserPtr option list \<Rightarrow> (PhysicalUserPtr \<Rightarrow> PhysicalUserPtr) \<Rightarrow> PhysicalUserPtr list \<Rightarrow> bool" where
  "users_ok users_vec tr order =
     (length users_vec = length order \<and>
      (\<forall>p \<in> set order. users_vec ! position p order = Some (tr p)))"

text \<open>
  What \<open>process_events\<close> does with the entries it decodes, with the flags
  \<open>need_reference\<close> threaded through, and what it does to the tables alone.
\<close>

definition install_one ::
  "(PhysicalUserPtr \<Rightarrow> Event \<Rightarrow> FieldMask \<Rightarrow> MaterializedView \<Rightarrow> MaterializedView) \<Rightarrow>
   (PhysicalUserPtr \<Rightarrow> PhysicalUserPtr) \<Rightarrow> PhysicalUserPtr list \<Rightarrow> Event \<Rightarrow>
   PhysicalUserPtr \<times> FieldMask \<Rightarrow> bool list \<times> MaterializedView \<Rightarrow> bool list \<times> MaterializedView" where
  "install_one add tr order ev it st =
     ((fst st)[position (fst it) order := True],
      add (tr (fst it)) ev (snd it)
        (if fst st ! position (fst it) order then add_reference (tr (fst it)) (snd st)
         else snd st))"

definition install_entry ::
  "(PhysicalUserPtr \<Rightarrow> Event \<Rightarrow> FieldMask \<Rightarrow> MaterializedView \<Rightarrow> MaterializedView) \<Rightarrow>
   (PhysicalUserPtr \<Rightarrow> PhysicalUserPtr) \<Rightarrow> PhysicalUserPtr list \<Rightarrow>
   Event \<times> (PhysicalUserPtr \<times> FieldMask) list \<Rightarrow>
   bool list \<times> MaterializedView \<Rightarrow> bool list \<times> MaterializedView" where
  "install_entry add tr order en st =
     (fst (fold (install_one add tr order (fst en)) (snd en) st),
      (snd (fold (install_one add tr order (fst en)) (snd en) st))
        \<lparr>outstanding_gc_events :=
           insert (fst en)
             (outstanding_gc_events (snd (fold (install_one add tr order (fst en)) (snd en) st)))\<rparr>)"

definition install_entries ::
  "(PhysicalUserPtr \<Rightarrow> Event \<Rightarrow> FieldMask \<Rightarrow> MaterializedView \<Rightarrow> MaterializedView) \<Rightarrow>
   (PhysicalUserPtr \<Rightarrow> PhysicalUserPtr) \<Rightarrow> PhysicalUserPtr list \<Rightarrow>
   (Event \<times> (PhysicalUserPtr \<times> FieldMask) list) list \<Rightarrow>
   bool list \<times> MaterializedView \<Rightarrow> bool list \<times> MaterializedView" where
  "install_entries add tr order es st = fold (install_entry add tr order) es st"

definition install_users_table ::
  "(PhysicalUserPtr \<Rightarrow> PhysicalUserPtr) \<Rightarrow> Event \<Rightarrow> (PhysicalUserPtr \<times> FieldMask) list \<Rightarrow>
   (Event \<times> EventUsers) list \<Rightarrow> (Event \<times> EventUsers) list" where
  "install_users_table tr ev us table =
     fold (\<lambda>it t. add_event_user (tr (fst it)) ev (snd it) t) us table"

definition install_table ::
  "(PhysicalUserPtr \<Rightarrow> PhysicalUserPtr) \<Rightarrow> (Event \<times> (PhysicalUserPtr \<times> FieldMask) list) list \<Rightarrow>
   (Event \<times> EventUsers) list \<Rightarrow> (Event \<times> EventUsers) list" where
  "install_table tr es table = fold (\<lambda>en t. install_users_table tr (fst en) (snd en) t) es table"

definition installed_current ::
  "(PhysicalUserPtr \<Rightarrow> PhysicalUserPtr) \<Rightarrow> (Event \<times> (PhysicalUserPtr \<times> FieldMask) list) list \<Rightarrow>
   MaterializedView \<Rightarrow> MaterializedView \<Rightarrow> bool" where
  "installed_current tr es v v' =
     (current_epoch_users v' = install_table tr es (current_epoch_users v) \<and>
      previous_epoch_users v' = previous_epoch_users v \<and>
      outstanding_gc_events v' = outstanding_gc_events v \<union> fst ` set es \<and>
      next_address v' = next_address v \<and> user_heap v' = user_heap v)"

definition installed_previous ::
  "(PhysicalUserPtr \<Rightarrow> PhysicalUserPtr) \<Rightarrow> (Event \<times> (PhysicalUserPtr \<times> FieldMask) list) list \<Rightarrow>
   MaterializedView \<Rightarrow> MaterializedView \<Rightarrow> bool" where
  "installed_previous tr es v v' =
     (previous_epoch_users v' = install_table tr es (previous_epoch_users v) \<and>
      current_epoch_users v' = current_epoch_users v \<and>
      outstanding_gc_events v' = outstanding_gc_events v \<union> fst ` set es \<and>
      next_address v' = next_address v \<and> user_heap v' = user_heap v)"

definition delivered ::
  "FieldMask \<Rightarrow> MaterializedView \<Rightarrow> NeededUsers \<Rightarrow> MaterializedView \<Rightarrow> MaterializedView \<Rightarrow> bool" where
  "delivered um vs nd vr vr' =
     (current_epoch_users vr' =
        install_table (receiver_pointer nd (next_address vr))
          (selected um (current_epoch_users vs)) (current_epoch_users vr) \<and>
      previous_epoch_users vr' =
        install_table (receiver_pointer nd (next_address vr))
          (selected um (previous_epoch_users vs)) (previous_epoch_users vr) \<and>
      outstanding_gc_events vr' =
        outstanding_gc_events vr \<union> fst ` set (selected um (current_epoch_users vs)) \<union>
          fst ` set (selected um (previous_epoch_users vs)) \<and>
      next_address vr' = next_address vr + length nd \<and>
      (\<forall>p \<in> set (final_order um vs).
         user_heap vr' (receiver_pointer nd (next_address vr) p) = user_heap vs p) \<and>
      (\<forall>a < next_address vr. user_heap vr' a = user_heap vr a))"

text \<open>
  The update applied locally, as the spec words it: every user of the sender whose mask
  overlaps the update mask is registered in the receiver, in the same epoch and under the
  same event, with \<open>add_current_user\<close> or \<open>add_previous_user\<close> and the overlap as
  mask, and the event is made outstanding. \<open>copy\<close> maps a user of the sender to the
  equivalent user record of the receiver.
\<close>

definition bucket_masks :: "EventUsers \<Rightarrow> (PhysicalUserPtr \<times> FieldMask) list" where
  "bucket_masks event_users =
     (case users event_users of
        single_user u \<Rightarrow> [(u, user_mask event_users)]
      | multi_users m \<Rightarrow> m)"

definition apply_entry_locally ::
  "(PhysicalUserPtr \<Rightarrow> Event \<Rightarrow> FieldMask \<Rightarrow> MaterializedView \<Rightarrow> MaterializedView) \<Rightarrow>
   (PhysicalUserPtr \<Rightarrow> PhysicalUserPtr) \<Rightarrow> FieldMask \<Rightarrow> Event \<times> EventUsers \<Rightarrow>
   MaterializedView \<Rightarrow> MaterializedView" where
  "apply_entry_locally add copy update_mask entry v =
     (let sent = filter (\<lambda>it. snd it \<inter> update_mask \<noteq> {}) (bucket_masks (snd entry)) in
      if sent = [] then v
      else
        let v1 = fold (\<lambda>it w. add (copy (fst it)) (fst entry) (snd it \<inter> update_mask) w) sent v
        in v1\<lparr>outstanding_gc_events := insert (fst entry) (outstanding_gc_events v1)\<rparr>)"

definition local_update ::
  "(PhysicalUserPtr \<Rightarrow> PhysicalUserPtr) \<Rightarrow> FieldMask \<Rightarrow> MaterializedView \<Rightarrow>
   MaterializedView \<Rightarrow> MaterializedView" where
  "local_update copy update_mask sender receiver =
     fold (apply_entry_locally add_previous_user copy update_mask) (previous_epoch_users sender)
       (fold (apply_entry_locally add_current_user copy update_mask) (current_epoch_users sender)
          receiver)"

subsection \<open>Reachable states\<close>

text \<open>
  The entries of an update one by one, and the fields a message gives to the copy
  \<open>u\<close> of a user under the event \<open>e\<close>.
\<close>

definition flat ::
  "(Event \<times> (PhysicalUserPtr \<times> FieldMask) list) list \<Rightarrow> (Event \<times> PhysicalUserPtr \<times> FieldMask) list" where
  "flat es = concat (map (\<lambda>en. map (\<lambda>it. (fst en, fst it, snd it)) (snd en)) es)"

definition sent_fields ::
  "(PhysicalUserPtr \<Rightarrow> PhysicalUserPtr) \<Rightarrow> (Event \<times> PhysicalUserPtr \<times> FieldMask) list \<Rightarrow>
   Event \<Rightarrow> PhysicalUserPtr \<Rightarrow> FieldMask" where
  "sent_fields tr xs e u = {x. \<exists>p fm. (e, p, fm) \<in> set xs \<and> tr p = u \<and> x \<in> fm}"

text \<open>
  What the operations of a reduction view maintain: both tables are well formed and no
  address from the next one on is in them. \<open>users_table\<close> is the table
  \<open>add_physical_user\<close> picks.
\<close>

definition reduction_inv :: "ReductionView \<Rightarrow> bool" where
  "reduction_inv v =
     (wf_table (reduction_users v) \<and> wf_table (reading_users v) \<and>
      fresh_above (next_address v) (reduction_users v) \<and>
      fresh_above (next_address v) (reading_users v))"

definition users_table :: "bool \<Rightarrow> ReductionView \<Rightarrow> (Event \<times> EventUsers) list" where
  "users_table reading v = (if reading then reading_users v else reduction_users v)"

text \<open>
  The states of a materialized view that the operations of the file reach. A view is
  constructed with empty tables (lines 145-174). The entry points \<open>add_user\<close>,
  \<open>add_copy_user\<close> and \<open>find_copy_preconditions\<close> change the view and its ancestors,
  and so does the collection of fired events, \<open>collect_users\<close>; the two filters are
  also listed on their own, with any arguments. An update is processed when it was sent
  by a reachable view; sending it changes the reference counts of the sender.
\<close>

inductive reachable :: "MaterializedView \<Rightarrow> bool" where
  constructed:
    "current_epoch_users v = [] \<Longrightarrow> previous_epoch_users v = [] \<Longrightarrow> reachable v"
| initial_user:
    "reachable v \<Longrightarrow> reachable (add_initial_user term_event usage' umask v)"
| user:
    "reachable v \<Longrightarrow> \<forall>a \<in> set ancestors. reachable a \<Longrightarrow>
     add_user has_triggered cdt usage' term_event umask version_info v ancestors =
       (wait_on, issue_collect, v', ancestors') \<Longrightarrow>
     w \<in> set (v' # ancestors') \<Longrightarrow> reachable w"
| copy_user:
    "reachable v \<Longrightarrow> \<forall>a \<in> set ancestors. reachable a \<Longrightarrow>
     add_copy_user redop' copy_term version_info copy_mask reading v ancestors =
       (issue_collect, v', ancestors') \<Longrightarrow>
     w \<in> set (v' # ancestors') \<Longrightarrow> reachable w"
| preconditions:
    "reachable v \<Longrightarrow> \<forall>a \<in> set ancestors. reachable a \<Longrightarrow>
     find_copy_preconditions has_triggered redop' reading copy_mask version_info pre v ancestors =
       (pre', v', ancestors') \<Longrightarrow>
     w \<in> set (v' # ancestors') \<Longrightarrow> reachable w"
| filter_previous:
    "reachable v \<Longrightarrow> reachable (filter_previous_users filter_previous v)"
| filter_current:
    "reachable v \<Longrightarrow> reachable (filter_current_users has_triggered dominated v)"
| gc_fire:
    "\<forall>a \<in> set views. reachable a \<Longrightarrow> w \<in> set (collect_users term_events views) \<Longrightarrow>
     reachable w"
| update_sent:
    "reachable v \<Longrightarrow> reachable (snd (send_view_updates update_mask v))"
| update_processed:
    "reachable sender \<Longrightarrow> reachable v \<Longrightarrow>
     process_update (fst (send_view_updates update_mask sender)) v = Some (v', rest) \<Longrightarrow>
     reachable v'"

text \<open>
  The states of a reduction view that the operations of the file reach, from its
  construction with empty tables (lines 4075-4097). \<open>find_copy_preconditions\<close> and
  \<open>send_view_updates\<close> do not change a reduction view.
\<close>

inductive reachable_reduction :: "ReductionView \<Rightarrow> bool" where
  constructed:
    "reduction_users v = [] \<Longrightarrow> reading_users v = [] \<Longrightarrow> reachable_reduction v"
| initial_user:
    "reachable_reduction v \<Longrightarrow>
     reachable_reduction (reduction_add_initial_user term_event usage' umask v)"
| user:
    "reachable_reduction v \<Longrightarrow>
     reachable_reduction (snd (snd (reduction_add_user usage' term_event umask v)))"
| copy_user:
    "reachable_reduction v \<Longrightarrow>
     reachable_reduction (snd (reduction_add_copy_user redop' copy_term umask reading v))"
| gc_fire:
    "reachable_reduction v \<Longrightarrow> reachable_reduction (reduction_filter_local_users term_event v)"
| update_processed:
    "reachable_reduction sender \<Longrightarrow> reachable_reduction v \<Longrightarrow>
     reduction_process_update (reduction_send_view_updates update_mask sender) v =
       Some (v', rest) \<Longrightarrow>
     reachable_reduction v'"

text \<open>
  Example states: views with empty tables, and views with two users under one event.
\<close>

definition empty_view :: MaterializedView where
  "empty_view =
     \<lparr>logical_node = example_node, use_event = 9, outstanding_gc_events = {},
      initial_user_events = {},
      user_heap = (\<lambda>p. \<lparr>usage = read_write_usage, child = InvalidColor, versions = None\<rparr>),
      references = (\<lambda>p. 0), live_users = {}, next_address = 0,
      current_epoch_users = [], previous_epoch_users = []\<rparr>"

definition empty_reduction_view :: ReductionView where
  "empty_reduction_view =
     \<lparr>logical_node = example_node, use_event = 9, outstanding_gc_events = {},
      initial_user_events = {},
      user_heap = (\<lambda>p. \<lparr>usage = reduce_usage, child = InvalidColor, versions = None\<rparr>),
      references = (\<lambda>p. 0), live_users = {}, next_address = 0,
      reduction_users = [], reading_users = []\<rparr>"

definition sending_view :: MaterializedView where
  "sending_view =
     add_initial_user 2 read_write_usage {0, 1}
       (add_initial_user 2 read_write_usage {0} empty_view)"

definition sending_reduction_view :: ReductionView where
  "sending_reduction_view =
     reduction_add_initial_user 1 reduce_usage {0}
       (reduction_add_initial_user 1 reduce_usage {1} empty_reduction_view)"

section \<open>Properties\<close>

subsection \<open>The same-version skip of the copy path\<close>

text \<open>
  The users this file allocates record versions only when their usage is read-only
  (lines 1008-1012 and 1165-1169; \<open>add_initial_user\<close> records none), and a user
  unpacked from a message is a copy of such a user.
\<close>

lemma versions_only_when_read_only:
  "versions \<lparr>usage = usage', child = child_color,
              versions = (if IS_READ_ONLY usage' then recorded else None)\<rparr> \<noteq> None \<longrightarrow>
   IS_READ_ONLY (usage \<lparr>usage = usage', child = child_color,
                         versions = (if IS_READ_ONLY usage' then recorded else None)\<rparr>)"
  by simp

text \<open>
  Claim C5. On the copy path, for a prior user that records versions only if it is
  read-only, as every user of a view does: the same-version test of lines 1554-1555 and
  1597-1598 succeeds exactly when the caller is a non-reduce writer (not reading, no
  reduction operator) with versions supplied and the prior user is a non-reduce read-only
  user whose recorded version ids match the caller's on the overlap. When the masks
  overlap and no child cut-off applies, both per-entry tests omit the dependence exactly
  when that test succeeds or one of the two earlier rules applies (read after read, same
  reduction operator), and record it on the overlap otherwise. In particular a prior user
  that is not read-only always yields the dependence for a non-reduce writer.
\<close>

theorem same_version_skip_rule:
  assumes "copy_mask \<inter> umask \<noteq> {}"
    and "\<not> child_cut_off node child_color user"
    and "versions user \<noteq> None \<longrightarrow> IS_READ_ONLY (usage user)"
  shows
    "(same_version_skip redop' reading versions' user (copy_mask \<inter> umask) \<longleftrightarrow>
        \<not> reading \<and> redop' = 0 \<and> versions' \<noteq> None \<and>
        IS_READ_ONLY (usage user) \<and> \<not> IS_REDUCE (usage user) \<and>
        same_versions user (copy_mask \<inter> umask) (the versions')) \<and>
     fst (find_current_copy_preconditions node test_event user umask redop' reading copy_mask
            child_color versions' (preconditions, observed, non_dominated)) =
       (if (reading \<and> IS_READ_ONLY (usage user)) \<or>
           (redop' > 0 \<and> redop (usage user) = redop') \<or>
           (\<not> reading \<and> redop' = 0 \<and> versions' \<noteq> None \<and>
            IS_READ_ONLY (usage user) \<and> \<not> IS_REDUCE (usage user) \<and>
            same_versions user (copy_mask \<inter> umask) (the versions'))
        then preconditions
        else record_dependence test_event (copy_mask \<inter> umask) preconditions) \<and>
     find_previous_copy_preconditions node test_event user umask redop' reading copy_mask
       child_color versions' preconditions =
       (if (reading \<and> IS_READ_ONLY (usage user)) \<or>
           (redop' > 0 \<and> redop (usage user) = redop') \<or>
           (\<not> reading \<and> redop' = 0 \<and> versions' \<noteq> None \<and>
            IS_READ_ONLY (usage user) \<and> \<not> IS_REDUCE (usage user) \<and>
            same_versions user (copy_mask \<inter> umask) (the versions'))
        then preconditions
        else record_dependence test_event (copy_mask \<inter> umask) preconditions) \<and>
     (\<not> reading \<and> redop' = 0 \<and> \<not> IS_READ_ONLY (usage user) \<longrightarrow>
        fst (find_current_copy_preconditions node test_event user umask redop' reading copy_mask
               child_color versions' (preconditions, observed, non_dominated)) =
          record_dependence test_event (copy_mask \<inter> umask) preconditions \<and>
        find_previous_copy_preconditions node test_event user umask redop' reading copy_mask
          child_color versions' preconditions =
          record_dependence test_event (copy_mask \<inter> umask) preconditions)"
proof -
  from assms(2) have cut: "\<not> (is_valid child_color \<and> child_color = child user)"
    "\<not> (is_valid child_color \<and> is_valid (child user) \<and>
        are_children_disjoint node child_color (child user))"
    by (auto simp: child_cut_off_def)
  have ov: "umask \<inter> copy_mask = copy_mask \<inter> umask" by blast
  have ro: "same_versions user (copy_mask \<inter> umask) vs \<Longrightarrow> IS_READ_ONLY (usage user)" for vs
    using assms(3) by (cases "versions user") (simp_all add: same_versions_def)
  have nr: "IS_READ_ONLY (usage user) \<Longrightarrow> \<not> IS_REDUCE (usage user)"
    by (simp add: IS_READ_ONLY_def IS_REDUCE_def)
  have sk: "same_version_skip redop' reading versions' user (copy_mask \<inter> umask) \<longleftrightarrow>
        \<not> reading \<and> redop' = 0 \<and> versions' \<noteq> None \<and>
        IS_READ_ONLY (usage user) \<and> \<not> IS_REDUCE (usage user) \<and>
        same_versions user (copy_mask \<inter> umask) (the versions')"
    using ro nr by (cases versions') (auto simp: same_version_skip_def)
  have cur: "fst (find_current_copy_preconditions node test_event user umask redop' reading
            copy_mask child_color versions' (preconditions, observed, non_dominated)) =
       (if (reading \<and> IS_READ_ONLY (usage user)) \<or>
           (redop' > 0 \<and> redop (usage user) = redop') \<or>
           same_version_skip redop' reading versions' user (copy_mask \<inter> umask)
        then preconditions
        else record_dependence test_event (copy_mask \<inter> umask) preconditions)"
    using assms(1) cut by (auto simp: find_current_copy_preconditions_def Let_def)
  have prev: "find_previous_copy_preconditions node test_event user umask redop' reading
       copy_mask child_color versions' preconditions =
       (if (reading \<and> IS_READ_ONLY (usage user)) \<or>
           (redop' > 0 \<and> redop (usage user) = redop') \<or>
           same_version_skip redop' reading versions' user (copy_mask \<inter> umask)
        then preconditions
        else record_dependence test_event (copy_mask \<inter> umask) preconditions)"
    using assms(1) cut by (auto simp: find_previous_copy_preconditions_def Let_def ov)
  show ?thesis
    unfolding cur prev sk by simp
qed

theorem same_version_skip_rule_witness:
  "({0} \<inter> {0::nat} \<noteq> {}) \<and>
   \<not> child_cut_off example_node InvalidColor
       \<lparr>usage = read_only_usage, child = InvalidColor, versions = Some [(7, {0})]\<rparr> \<and>
   IS_READ_ONLY read_only_usage \<and>
   same_version_skip 0 False (Some [(7, {0})])
       \<lparr>usage = read_only_usage, child = InvalidColor, versions = Some [(7, {0})]\<rparr> ({0} \<inter> {0}) \<and>
   fst (find_current_copy_preconditions example_node 1
          \<lparr>usage = read_only_usage, child = InvalidColor, versions = Some [(7, {0})]\<rparr>
          {0} 0 False {0} InvalidColor (Some [(7, {0})]) (Map.empty, {}, {})) = Map.empty \<and>
   find_previous_copy_preconditions example_node 1
          \<lparr>usage = read_only_usage, child = InvalidColor, versions = Some [(7, {0})]\<rparr>
          {0} 0 False {0} InvalidColor (Some [(7, {0})]) Map.empty = Map.empty \<and>
   \<not> child_cut_off example_node InvalidColor
       \<lparr>usage = read_write_usage, child = InvalidColor, versions = None\<rparr> \<and>
   \<not> same_version_skip 0 False (Some [(7, {0})])
       \<lparr>usage = read_write_usage, child = InvalidColor, versions = None\<rparr> ({0} \<inter> {0}) \<and>
   fst (find_current_copy_preconditions example_node 1
          \<lparr>usage = read_write_usage, child = InvalidColor, versions = None\<rparr>
          {0} 0 False {0} InvalidColor (Some [(7, {0})]) (Map.empty, {}, {})) = [1 \<mapsto> {0}] \<and>
   find_previous_copy_preconditions example_node 1
          \<lparr>usage = read_write_usage, child = InvalidColor, versions = None\<rparr>
          {0} 0 False {0} InvalidColor (Some [(7, {0})]) Map.empty = [1 \<mapsto> {0}]"
  using same_version_skip_rule
    [where copy_mask = "{0}" and umask = "{0}" and node = example_node
       and child_color = InvalidColor and reading = False and redop' = 0
       and user = "\<lparr>usage = read_only_usage, child = InvalidColor, versions = Some [(7, {0})]\<rparr>"
       and versions' = "Some [(7, {0})]" and test_event = 1 and preconditions = Map.empty
       and observed = "{}" and non_dominated = "{}"]
    same_version_skip_rule
    [where copy_mask = "{0}" and umask = "{0}" and node = example_node
       and child_color = InvalidColor and reading = False and redop' = 0
       and user = "\<lparr>usage = read_write_usage, child = InvalidColor, versions = None\<rparr>"
       and versions' = "Some [(7, {0})]" and test_event = 1 and preconditions = Map.empty
       and observed = "{}" and non_dominated = "{}"]
  by (simp add: child_cut_off_def same_versions_def versions_at_def IS_REDUCE_def
      IS_READ_ONLY_def read_only_usage_def read_write_usage_def record_dependence_def)

subsection \<open>The notifications of a composite node\<close>

text \<open>
  Claim C9 does not hold of the code. For a composite node with one valid view (id 1) and
  one reduction view (id 2), starting from counters that are all zero: after
  \<open>notify_active\<close> and \<open>notify_inactive\<close> the valid view still holds one gc
  reference, and after \<open>notify_valid\<close> and \<open>notify_invalid\<close> the valid view still
  holds one valid reference and the reduction view holds two.
\<close>

theorem composite_notify_cycle_unpaired:
  "gc_references
     (notify_inactive (CompositeNode [(1, {0})] [] [])
        (notify_active (CompositeNode [(1, {0})] [] [])
           \<lparr>gc_references = (\<lambda>view. 0), valid_references = (\<lambda>view. 0)\<rparr>)) 1 = 1 \<and>
   valid_references
     (notify_invalid (CompositeNode [(1, {0})] [(2, {0})] [])
        (notify_valid (CompositeNode [(1, {0})] [(2, {0})] [])
           \<lparr>gc_references = (\<lambda>view. 0), valid_references = (\<lambda>view. 0)\<rparr>)) 1 = 1 \<and>
   valid_references
     (notify_invalid (CompositeNode [(1, {0})] [(2, {0})] [])
        (notify_valid (CompositeNode [(1, {0})] [(2, {0})] [])
           \<lparr>gc_references = (\<lambda>view. 0), valid_references = (\<lambda>view. 0)\<rparr>)) 2 = 2"
  by (simp add: add_nested_gc_ref_def remove_nested_gc_ref_def add_nested_valid_ref_def
      from_end_def)


subsection \<open>The use event of the manager\<close>


lemma find_current_preconditions_mono:
  "fst acc \<subseteq> fst (snd (find_current_preconditions cdt node e u m us um cc acc))"
  by (cases acc) (auto simp: find_current_preconditions_def Let_def split: DependenceType.splits)

lemma find_current_preconditions_users_mono:
  "fst acc \<subseteq> fst (find_current_preconditions_users cdt node heap e m us um cc acc)"
proof (induction m arbitrary: acc)
  case Nil
  then show ?case by simp
next
  case (Cons it rest)
  obtain r acc1 where h: "find_current_preconditions cdt node e (heap (fst it)) (snd it) us um cc acc = (r, acc1)"
    by (cases "find_current_preconditions cdt node e (heap (fst it)) (snd it) us um cc acc") auto
  have "fst acc \<subseteq> fst acc1"
    using find_current_preconditions_mono [of acc cdt node e "heap (fst it)" "snd it" us um cc] h by simp
  moreover have "fst acc1 \<subseteq> fst (find_current_preconditions_users cdt node heap e rest us um cc acc1)"
    by (rule Cons.IH)
  ultimately show ?case using h by auto
qed

lemma task_current_step_mono:
  "fst (snd acc) \<subseteq> fst (snd (task_current_step trig cdt node heap us te um cc cit acc))"
  using find_current_preconditions_mono [of "snd acc" cdt node "fst cit" _ "user_mask (snd cit)" us um cc]
    find_current_preconditions_users_mono [of "snd acc" cdt node heap "fst cit" _ us um cc]
  by (auto simp: task_current_step_def split: Users.splits)

lemma fold_mono_set:
  assumes "\<And>x acc. g acc \<subseteq> g (f x acc)"
  shows "g acc \<subseteq> g (fold f xs acc)"
proof (induction xs arbitrary: acc)
  case Nil
  then show ?case by simp
next
  case (Cons x xs)
  have "g acc \<subseteq> g (f x acc)" by (rule assms)
  also have "\<dots> \<subseteq> g (fold f xs (f x acc))" by (rule Cons.IH)
  finally show ?case by simp
qed

lemma task_current_pass_mono:
  "pre \<subseteq> fst (snd (task_current_pass trig cdt us te cc um pre v))"
  unfolding task_current_pass_def
  using fold_mono_set [where g = "\<lambda>acc. fst (snd acc)"
      and f = "task_current_step trig cdt (logical_node v) (user_heap v) us te um cc"
      and acc = "([], pre, {}, {})" and xs = "current_epoch_users v", OF task_current_step_mono]
  by simp

lemma find_previous_preconditions_mono:
  "pre \<subseteq> snd (find_previous_preconditions cdt node e u m us um cc pre)"
  by (auto simp: find_previous_preconditions_def Let_def split: DependenceType.splits)

lemma find_previous_preconditions_users_mono:
  "pre \<subseteq> find_previous_preconditions_users cdt node heap e m us um cc pre"
proof (induction m arbitrary: pre)
  case Nil
  then show ?case by simp
next
  case (Cons it rest)
  obtain r pre1 where h: "find_previous_preconditions cdt node e (heap (fst it)) (snd it) us um cc pre = (r, pre1)"
    by (cases "find_previous_preconditions cdt node e (heap (fst it)) (snd it) us um cc pre") auto
  have "pre \<subseteq> pre1"
    using find_previous_preconditions_mono [of pre cdt node e "heap (fst it)" "snd it" us um cc] h by simp
  moreover have "pre1 \<subseteq> find_previous_preconditions_users cdt node heap e rest us um cc pre1"
    by (rule Cons.IH)
  ultimately show ?case using h by auto
qed

lemma task_previous_step_mono:
  "snd (snd acc) \<subseteq> snd (snd (task_previous_step trig cdt node heap us te cc d nd pit acc))"
  using find_previous_preconditions_mono [of "snd (snd acc)" cdt node "fst pit" _ "user_mask (snd pit)" us nd cc]
    find_previous_preconditions_users_mono [of "snd (snd acc)" cdt node heap "fst pit" _ us nd cc]
  by (cases acc) (auto simp: task_previous_step_def Let_def split: Users.splits)

lemma task_analysis_mono:
  "pre \<subseteq> snd (snd (snd (task_analysis trig cdt us te cc um pre v)))"
proof -
  obtain dead pre1 obs nd where cp: "task_current_pass trig cdt us te cc um pre v = (dead, pre1, obs, nd)"
    by (cases "task_current_pass trig cdt us te cc um pre v") auto
  have 1: "pre \<subseteq> pre1" using task_current_pass_mono [of pre trig cdt us te cc um v] cp by simp
  let ?d = "obs \<inter> (um - nd)"
  let ?f = "task_previous_step trig cdt (logical_node v) (user_heap v) us te cc ?d (um - ?d)"
  have 2: "pre1 \<subseteq> snd (snd (fold ?f (previous_epoch_users v) (dead, [], pre1)))"
    using fold_mono_set [where g = "\<lambda>acc. snd (snd acc)" and f = ?f
        and acc = "(dead, [], pre1)" and xs = "previous_epoch_users v", OF task_previous_step_mono]
    by simp
  show ?thesis
    using 1 2 by (auto simp: task_analysis_def cp Let_def split: prod.splits)
qed

lemma add_local_user_mono:
  "pre \<subseteq> snd (snd (add_local_user trig cdt us te b cc vi um pre v))"
  using task_analysis_mono [of pre trig cdt us te cc um v]
  by (auto simp: add_local_user_def Let_def split: prod.splits)

lemma add_user_above_mono:
  "pre \<subseteq> snd (add_user_above trig cdt us te cc vi um pre vs)"
proof (induction vs arbitrary: pre cc)
  case Nil
  then show ?case by simp
next
  case (Cons v ancestors)
  show ?case
  proof (cases "ancestors \<noteq> [] \<and> \<not> is_upper_bound_node vi (node_id (logical_node v))")
    case True
    obtain a1 p1 where h: "add_user_above trig cdt us te (get_color (logical_node v)) vi um pre ancestors = (a1, p1)"
      by (cases "add_user_above trig cdt us te (get_color (logical_node v)) vi um pre ancestors") auto
    have "pre \<subseteq> p1" using Cons.IH [of pre "get_color (logical_node v)"] h by simp
    moreover have "p1 \<subseteq> snd (snd (add_local_user trig cdt us te False cc vi um p1 v))"
      by (rule add_local_user_mono)
    ultimately show ?thesis using True h by (auto split: prod.splits)
  next
    case False
    then show ?thesis
      using add_local_user_mono [of pre trig cdt us te False cc vi um v]
      by (auto split: prod.splits)
  qed
qed

lemma add_user_includes_use_event:
  assumes "event_exists (use_event v)"
  shows "use_event v \<in> fst (add_user trig cdt us te um vi v ancestors)"
proof -
  let ?w = "{use_event v}"
  obtain a1 w1 where h: "(if ancestors \<noteq> [] \<and> \<not> is_upper_bound_node vi (node_id (logical_node v))
               then add_user_above trig cdt us te (get_color (logical_node v)) vi um ?w ancestors
               else (ancestors, ?w)) = (a1, w1)"
    by (metis surj_pair)
  have "?w \<subseteq> w1"
    using h add_user_above_mono [of ?w trig cdt us te "get_color (logical_node v)" vi um ancestors]
    by (auto split: if_splits)
  moreover have "w1 \<subseteq> snd (snd (add_local_user trig cdt us te True InvalidColor vi um w1 v))"
    by (rule add_local_user_mono)
  ultimately show ?thesis
    using assms h by (auto simp: add_user_def Let_def split: prod.splits)
qed

lemma covers_refl: "covers p p"
  by (simp add: covers_def)

lemma covers_trans: "covers p q \<Longrightarrow> covers q r \<Longrightarrow> covers p r"
  unfolding covers_def by (meson subset_trans)

lemma covers_record_dependence: "covers p (record_dependence e m p)"
  by (auto simp: covers_def record_dependence_def split: option.splits)

lemma record_dependence_has:
  "\<exists>m'. record_dependence e m p e = Some m' \<and> m \<subseteq> m'"
  by (auto simp: record_dependence_def split: option.splits)

lemma fold_covers:
  assumes "\<And>x acc. covers (g acc) (g (f x acc))"
  shows "covers (g acc) (g (fold f xs acc))"
proof (induction xs arbitrary: acc)
  case Nil
  then show ?case by (simp add: covers_refl)
next
  case (Cons x xs)
  have "covers (g acc) (g (f x acc))" by (rule assms)
  moreover have "covers (g (f x acc)) (g (fold f xs (f x acc)))" by (rule Cons.IH)
  ultimately show ?case using covers_trans by fastforce
qed

lemma find_current_copy_covers:
  "covers (fst acc) (fst (find_current_copy_preconditions node e u m r rd cm cc vs acc))"
  by (cases acc) (auto simp: find_current_copy_preconditions_def Let_def covers_refl
      covers_record_dependence)

lemma find_previous_copy_covers:
  "covers pre (find_previous_copy_preconditions node e u m r rd cm cc vs pre)"
  by (auto simp: find_previous_copy_preconditions_def Let_def covers_refl
      covers_record_dependence)

lemma copy_current_step_covers:
  "covers (fst (snd acc)) (fst (snd (copy_current_step trig node heap r rd cm cc vs cit acc)))"
proof -
  have m: "\<And>m. covers (fst (snd acc)) (fst (fold (\<lambda>it. find_current_copy_preconditions node (fst cit)
        (heap (fst it)) (snd it) r rd cm cc vs) m (snd acc)))"
    by (rule fold_covers [where g = fst]) (rule find_current_copy_covers)
  show ?thesis
    using m find_current_copy_covers [of "snd acc" node "fst cit" _ "user_mask (snd cit)" r rd cm cc vs]
    by (auto simp: copy_current_step_def covers_refl split: Users.splits)
qed

lemma copy_previous_step_covers:
  "covers (snd (snd acc)) (snd (snd (copy_previous_step trig node heap r rd cc vs d nd pit acc)))"
proof -
  have m: "\<And>m. covers (snd (snd acc)) (fold (\<lambda>it. find_previous_copy_preconditions node (fst pit)
        (heap (fst it)) (snd it) r rd nd cc vs) m (snd (snd acc)))"
    by (rule fold_covers [where g = "\<lambda>x. x"]) (rule find_previous_copy_covers)
  show ?thesis
    using m find_previous_copy_covers [of "snd (snd acc)" node "fst pit" _ "user_mask (snd pit)" r rd nd cc vs]
    by (cases acc) (auto simp: copy_previous_step_def Let_def covers_refl split: Users.splits)
qed

lemma copy_analysis_covers:
  "covers pre (snd (snd (snd (copy_analysis trig r rd cm cc vs pre v))))"
proof -
  obtain dead pre1 obs nd where cp: "copy_current_pass trig r rd cm cc vs pre v = (dead, pre1, obs, nd)"
    by (cases "copy_current_pass trig r rd cm cc vs pre v") auto
  have 1: "covers pre pre1"
    using fold_covers [where g = "\<lambda>acc. fst (snd acc)"
        and f = "copy_current_step trig (logical_node v) (user_heap v) r rd cm cc vs"
        and acc = "([], pre, {}, {})" and xs = "current_epoch_users v", OF copy_current_step_covers]
      cp by (simp add: copy_current_pass_def)
  let ?d = "obs \<inter> (cm - nd)"
  let ?f = "copy_previous_step trig (logical_node v) (user_heap v) r rd cc vs ?d (cm - ?d)"
  have 2: "covers pre1 (snd (snd (fold ?f (previous_epoch_users v) (dead, [], pre1))))"
    using fold_covers [where g = "\<lambda>acc. snd (snd acc)" and f = ?f
        and acc = "(dead, [], pre1)" and xs = "previous_epoch_users v", OF copy_previous_step_covers]
    by simp
  show ?thesis
    using covers_trans [OF 1 2] by (auto simp: copy_analysis_def cp Let_def split: prod.splits)
qed

lemma find_local_copy_covers:
  "covers pre (snd (find_local_copy_preconditions trig r rd cm cc vi pre v))"
proof -
  let ?vs = "if is_valid cc then None else get_versions vi (node_id (logical_node v))"
  show ?thesis
    using copy_analysis_covers [of pre trig r rd cm cc ?vs v]
    by (cases "copy_analysis trig r rd cm cc ?vs pre v")
      (simp add: find_local_copy_preconditions_def Let_def)
qed

lemma find_copy_above_covers:
  "covers pre (snd (find_copy_preconditions_above trig r rd cm cc vi pre vs))"
proof (induction vs arbitrary: pre cc)
  case Nil
  then show ?case by (simp add: covers_refl)
next
  case (Cons v ancestors)
  show ?case
  proof (cases "ancestors \<noteq> [] \<and> \<not> is_upper_bound_node vi (node_id (logical_node v))")
    case True
    obtain a1 p1 where h: "find_copy_preconditions_above trig r rd cm (get_color (logical_node v)) vi pre ancestors = (a1, p1)"
      by (cases "find_copy_preconditions_above trig r rd cm (get_color (logical_node v)) vi pre ancestors") auto
    have "covers pre p1" using Cons.IH [of pre "get_color (logical_node v)"] h by simp
    moreover have "covers p1 (snd (find_local_copy_preconditions trig r rd cm cc vi p1 v))"
      by (rule find_local_copy_covers)
    ultimately show ?thesis using True h covers_trans by (auto split: prod.splits)
  next
    case False
    then show ?thesis
      using find_local_copy_covers [of pre trig r rd cm cc vi v]
      by (auto split: prod.splits)
  qed
qed

lemma find_copy_preconditions_has_use_event:
  assumes "event_exists (use_event v)"
  shows "\<exists>m. fst (find_copy_preconditions trig r rd cm vi pre v ancestors) (use_event v) = Some m \<and> cm \<subseteq> m"
proof -
  let ?p0 = "record_dependence (use_event v) cm pre"
  obtain a1 p1 where h: "(if ancestors \<noteq> [] \<and> \<not> is_upper_bound_node vi (node_id (logical_node v))
               then find_copy_preconditions_above trig r rd cm (get_color (logical_node v)) vi ?p0 ancestors
               else (ancestors, ?p0)) = (a1, p1)"
    by (metis surj_pair)
  have "covers ?p0 p1"
    using h find_copy_above_covers [of ?p0 trig r rd cm "get_color (logical_node v)" vi ancestors]
    by (auto simp: covers_refl split: if_splits)
  moreover have "covers p1 (snd (find_local_copy_preconditions trig r rd cm InvalidColor vi p1 v))"
    by (rule find_local_copy_covers)
  ultimately have "covers ?p0 (snd (find_local_copy_preconditions trig r rd cm InvalidColor vi p1 v))"
    by (rule covers_trans)
  then obtain m where "snd (find_local_copy_preconditions trig r rd cm InvalidColor vi p1 v) (use_event v) = Some m" "cm \<subseteq> m"
    using record_dependence_has [of "use_event v" cm pre] unfolding covers_def
    by (meson subset_trans)
  then show ?thesis
    using assms h by (auto simp: find_copy_preconditions_def Let_def split: prod.splits)
qed

lemma reduction_copy_step_covers:
  "covers pre (reduction_copy_step cm rit pre)"
proof -
  have m: "\<And>m. covers pre (fold (\<lambda>it pre. let overlap = cm \<inter> snd it in
                       if overlap = {} then pre else record_dependence (fst rit) overlap pre) m pre)"
    by (rule fold_covers [where g = "\<lambda>x. x"]) (simp add: Let_def covers_refl covers_record_dependence)
  show ?thesis
    using m by (auto simp: reduction_copy_step_def Let_def covers_refl covers_record_dependence
        split: Users.splits)
qed

lemma reduction_find_copy_has_use_event:
  assumes "event_exists (use_event v)"
  shows "\<exists>m. reduction_find_copy_preconditions r rd cm pre v (use_event v) = Some m \<and> cm \<subseteq> m"
proof -
  let ?p0 = "record_dependence (use_event v) cm pre"
  have "covers ?p0 (fold (reduction_copy_step cm) tbl ?p0)" for tbl
    by (rule fold_covers [where g = "\<lambda>x. x"]) (rule reduction_copy_step_covers)
  then show ?thesis
    using assms record_dependence_has [of "use_event v" cm pre]
    unfolding covers_def reduction_find_copy_preconditions_def Let_def
    by (auto) (meson subset_trans)+
qed

lemma reduction_wait_users_mono: "w \<subseteq> reduction_wait_users um e m w"
  by (induction m) auto

lemma reduction_wait_step_mono: "w \<subseteq> reduction_wait_step um rit w"
  using reduction_wait_users_mono by (auto simp: reduction_wait_step_def split: Users.splits)

lemma reduction_add_user_has_use_event:
  assumes "event_exists (use_event v)"
  shows "use_event v \<in> fst (reduction_add_user us te um v)"
proof -
  have "w \<subseteq> fold (reduction_wait_step um) tbl w" for w tbl
    by (rule fold_mono_set [where g = "\<lambda>x. x"]) (rule reduction_wait_step_mono)
  then have "use_event v \<in> fold (reduction_wait_step um) tbl {use_event v}" for tbl
    by blast
  then show ?thesis
    using assms by (auto simp: reduction_add_user_def legion_new_def Let_def split: prod.splits)
qed

text \<open>
  Claim C10. When the use event of the manager exists, \<open>MaterializedView::add_user\<close>
  and \<open>ReductionView::add_user\<close> have it among the events whose merge they return, and
  \<open>MaterializedView::find_copy_preconditions\<close> and
  \<open>ReductionView::find_copy_preconditions\<close> return a precondition map that has it with
  at least the whole copy mask, whatever the tables, the ancestors and the incoming
  preconditions are.
\<close>

theorem use_event_always_included:
  assumes "event_exists (use_event v)" and "event_exists (use_event rv)"
  shows
    "use_event v \<in> fst (add_user has_triggered cdt usage' term_event umask version_info v ancestors) \<and>
     (\<exists>m. fst (find_copy_preconditions has_triggered redop' reading copy_mask version_info
                 preconditions v ancestors) (use_event v) = Some m \<and> copy_mask \<subseteq> m) \<and>
     use_event rv \<in> fst (reduction_add_user usage' term_event umask rv) \<and>
     (\<exists>m. reduction_find_copy_preconditions redop' reading copy_mask preconditions rv
             (use_event rv) = Some m \<and> copy_mask \<subseteq> m)"
  by (intro conjI add_user_includes_use_event find_copy_preconditions_has_use_event
      reduction_add_user_has_use_event reduction_find_copy_has_use_event assms)

theorem use_event_always_included_witness:
  "event_exists (use_event example_view) \<and> event_exists (use_event example_reduction_view) \<and>
   9 \<in> fst (add_user (\<lambda>e. False) (\<lambda>a b. TRUE_DEPENDENCE) read_write_usage 3 {0}
               example_version_info example_view []) \<and>
   (\<exists>m. fst (find_copy_preconditions (\<lambda>e. False) 0 False {0} example_version_info Map.empty
               example_view []) 9 = Some m \<and> {0} \<subseteq> m) \<and>
   9 \<in> fst (reduction_add_user read_write_usage 3 {0} example_reduction_view) \<and>
   (\<exists>m. reduction_find_copy_preconditions 0 False {0} Map.empty example_reduction_view 9 = Some m \<and>
        {0} \<subseteq> m)"
  using use_event_always_included
    [where v = example_view and rv = example_reduction_view and has_triggered = "\<lambda>e. False"
       and cdt = "\<lambda>a b. TRUE_DEPENDENCE" and usage' = read_write_usage and term_event = 3
       and umask = "{0}" and version_info = example_version_info and ancestors = "[]"
       and redop' = 0 and reading = False and copy_mask = "{0}" and preconditions = Map.empty]
  by (simp add: example_view_def example_reduction_view_def event_exists_def NO_EVENT_def)


subsection \<open>The coherence rule of the reduction view\<close>

lemma dom_record_dependence: "dom (record_dependence e m p) = insert e (dom p)"
  by (auto simp: record_dependence_def split: option.splits)

lemma dom_fold_users:
  "dom (fold (\<lambda>it pre. let overlap = cm \<inter> snd it in
                 if overlap = {} then pre else record_dependence e overlap pre) m pre) =
     (if \<exists>it \<in> set m. cm \<inter> snd it \<noteq> {} then insert e (dom pre) else dom pre)"
  by (induction m arbitrary: pre) (auto simp: Let_def dom_record_dependence)

lemma dom_reduction_copy_step:
  assumes "summary_is_union (snd rit)"
  shows "dom (reduction_copy_step cm rit pre) =
     (if cm \<inter> user_mask (snd rit) \<noteq> {} then insert (fst rit) (dom pre) else dom pre)"
proof (cases "users (snd rit)")
  case (single_user u)
  then show ?thesis
    by (auto simp: reduction_copy_step_def Let_def dom_record_dependence)
next
  case (multi_users m)
  with assms have um: "user_mask (snd rit) = \<Union> (snd ` set m)"
    by (simp add: summary_is_union_def)
  have "(\<exists>it \<in> set m. cm \<inter> snd it \<noteq> {}) \<longleftrightarrow> cm \<inter> user_mask (snd rit) \<noteq> {}"
    unfolding um by auto
  then show ?thesis
    using multi_users by (simp add: reduction_copy_step_def dom_fold_users)
qed

lemma dom_fold_reduction_copy_step:
  assumes "\<forall>rit \<in> set table. summary_is_union (snd rit)"
  shows "dom (fold (reduction_copy_step cm) table pre) = dom pre \<union> overlapping_events cm table"
  using assms
proof (induction table arbitrary: pre)
  case Nil
  then show ?case by (simp add: overlapping_events_def)
next
  case (Cons rit table)
  have "dom (fold (reduction_copy_step cm) table (reduction_copy_step cm rit pre)) =
        dom (reduction_copy_step cm rit pre) \<union> overlapping_events cm table"
    using Cons by simp
  moreover have "dom (reduction_copy_step cm rit pre) =
     (if cm \<inter> user_mask (snd rit) \<noteq> {} then insert (fst rit) (dom pre) else dom pre)"
    using Cons.prems by (simp add: dom_reduction_copy_step)
  moreover have "overlapping_events cm (rit # table) =
     (if cm \<inter> user_mask (snd rit) \<noteq> {} then insert (fst rit) (overlapping_events cm table)
      else overlapping_events cm table)"
    by (cases rit) (auto simp: overlapping_events_def)
  ultimately show ?case by auto
qed

lemma reduction_wait_users_eq:
  "reduction_wait_users um e m w = (if \<exists>it \<in> set m. um \<inter> snd it \<noteq> {} then insert e w else w)"
  by (induction m) auto

lemma reduction_wait_step_eq:
  assumes "summary_is_union (snd rit)"
  shows "reduction_wait_step um rit w =
     (if um \<inter> user_mask (snd rit) \<noteq> {} then insert (fst rit) w else w)"
proof (cases "users (snd rit)")
  case (single_user u)
  then show ?thesis by (auto simp: reduction_wait_step_def)
next
  case (multi_users m)
  with assms have s: "user_mask (snd rit) = \<Union> (snd ` set m)"
    by (simp add: summary_is_union_def)
  have "(\<exists>it \<in> set m. um \<inter> snd it \<noteq> {}) \<longleftrightarrow> um \<inter> user_mask (snd rit) \<noteq> {}"
    unfolding s by auto
  then show ?thesis
    using multi_users by (simp add: reduction_wait_step_def reduction_wait_users_eq)
qed

lemma fold_reduction_wait_step:
  assumes "\<forall>rit \<in> set table. summary_is_union (snd rit)"
  shows "fold (reduction_wait_step um) table w = w \<union> overlapping_events um table"
  using assms
proof (induction table arbitrary: w)
  case Nil
  then show ?case by (simp add: overlapping_events_def)
next
  case (Cons rit table)
  have "overlapping_events um (rit # table) =
     (if um \<inter> user_mask (snd rit) \<noteq> {} then insert (fst rit) (overlapping_events um table)
      else overlapping_events um table)"
    by (cases rit) (auto simp: overlapping_events_def)
  then show ?case
    using Cons by (auto simp: reduction_wait_step_eq)
qed


text \<open>
  Claim C2. On a reduction view whose buckets have the union of their users' masks as
  summary mask: the events \<open>find_copy_preconditions\<close> adds for a reading caller are
  the use event and exactly the events of \<open>reduction_users\<close> that overlap the copy
  mask, and for a reducing caller the use event and exactly the events of
  \<open>reading_users\<close> that overlap; \<open>add_user\<close> waits for the use event and exactly the
  overlapping events of \<open>reduction_users\<close> when the usage is read-only, and of
  \<open>reading_users\<close> otherwise. The table of the caller's own kind is never consulted.
\<close>

theorem reduction_view_coherence:
  assumes "\<forall>rit \<in> set (reduction_users v). summary_is_union (snd rit)"
    and "\<forall>rit \<in> set (reading_users v). summary_is_union (snd rit)"
  shows
    "dom (reduction_find_copy_preconditions redop' True copy_mask preconditions v) =
       dom preconditions \<union> (if event_exists (use_event v) then {use_event v} else {}) \<union>
       overlapping_events copy_mask (reduction_users v) \<and>
     dom (reduction_find_copy_preconditions redop' False copy_mask preconditions v) =
       dom preconditions \<union> (if event_exists (use_event v) then {use_event v} else {}) \<union>
       overlapping_events copy_mask (reading_users v) \<and>
     fst (reduction_add_user usage' term_event umask v) =
       (if event_exists (use_event v) then {use_event v} else {}) \<union>
       overlapping_events umask (if IS_READ_ONLY usage' then reduction_users v else reading_users v)"
  using assms
  by (auto simp: reduction_find_copy_preconditions_def reduction_add_user_def Let_def
      dom_fold_reduction_copy_step fold_reduction_wait_step dom_record_dependence legion_new_def
      split: prod.splits)

theorem reduction_view_coherence_witness:
  "(\<forall>rit \<in> set (reduction_users example_reduction_view). summary_is_union (snd rit)) = True \<and>
   (\<forall>rit \<in> set (reading_users example_reduction_view). summary_is_union (snd rit)) = True \<and>
   dom (reduction_find_copy_preconditions 1 True {0} Map.empty example_reduction_view) = {9, 1} \<and>
   dom (reduction_find_copy_preconditions 1 False {0} Map.empty example_reduction_view) = {9, 2} \<and>
   fst (reduction_add_user read_only_usage 3 {0} example_reduction_view) = {9, 1} \<and>
   fst (reduction_add_user reduce_usage 3 {0} example_reduction_view) = {9, 2}"
  using reduction_view_coherence
    [where v = example_reduction_view and redop' = 1 and copy_mask = "{0}"
       and preconditions = Map.empty and usage' = read_only_usage and term_event = 3
       and umask = "{0}"]
    reduction_view_coherence
    [where v = example_reduction_view and redop' = 1 and copy_mask = "{0}"
       and preconditions = Map.empty and usage' = reduce_usage and term_event = 3
       and umask = "{0}"]
  by (auto simp: example_reduction_view_def summary_is_union_def overlapping_events_def
      event_exists_def NO_EVENT_def IS_READ_ONLY_def read_only_usage_def reduce_usage_def)


subsection \<open>\<open>filter_local_users\<close>\<close>

lemma map_of_map_erase: "map_of (map_erase k m) k' = (if k' = k then None else map_of m k')"
  by (induction m) (auto simp: map_erase_def)

lemma map_erase_absent: "map_of m e = None \<Longrightarrow> map_erase e m = m"
  by (induction m) (auto simp: map_erase_def split: if_splits)

lemma references_drop_reference:
  "references (drop_reference q v) p = (if p = q then references v p - 1 else references v p)"
  by (simp add: drop_reference_def remove_reference_def legion_delete_def)

lemma references_fold_drop:
  "references (fold drop_reference ps v) p = references v p - count_list ps p"
  by (induction ps arbitrary: v) (auto simp: references_drop_reference)

lemma fold_drop_frame:
  "current_epoch_users (fold drop_reference ps v) = current_epoch_users v"
  "previous_epoch_users (fold drop_reference ps v) = previous_epoch_users v"
  "outstanding_gc_events (fold drop_reference ps v) = outstanding_gc_events v"
  by (induction ps arbitrary: v)
    (auto simp: drop_reference_def remove_reference_def legion_delete_def)

lemma live_fold_delete:
  "live_users (fold legion_delete ps v) = live_users v - set ps"
  by (induction ps arbitrary: v) (auto simp: legion_delete_def)

lemma fold_delete_frame:
  "reduction_users (fold legion_delete ps v) = reduction_users v"
  "reading_users (fold legion_delete ps v) = reading_users v"
  "outstanding_gc_events (fold legion_delete ps v) = outstanding_gc_events v"
  by (induction ps arbitrary: v) (auto simp: legion_delete_def)

lemma filter_local_users_tables:
  assumes "e \<in> outstanding_gc_events v"
  shows "current_epoch_users (filter_local_users e v) = map_erase e (current_epoch_users v)"
    and "previous_epoch_users (filter_local_users e v) = map_erase e (previous_epoch_users v)"
    and "outstanding_gc_events (filter_local_users e v) = outstanding_gc_events v - {e}"
    and "references (filter_local_users e v) p =
           references v p - count_list (held_users e (current_epoch_users v)) p
             - count_list (held_users e (previous_epoch_users v)) p"
proof -
  note ne = map_erase_absent
  show "current_epoch_users (filter_local_users e v) = map_erase e (current_epoch_users v)"
    using assms
    by (auto simp: ne filter_local_users_def Let_def release_users_def fold_drop_frame
        split: option.splits)
  show "previous_epoch_users (filter_local_users e v) = map_erase e (previous_epoch_users v)"
    using assms
    by (auto simp: ne filter_local_users_def Let_def release_users_def fold_drop_frame
        split: option.splits)
  show "outstanding_gc_events (filter_local_users e v) = outstanding_gc_events v - {e}"
    using assms
    by (auto simp: filter_local_users_def Let_def release_users_def fold_drop_frame
        split: option.splits)
  show "references (filter_local_users e v) p =
           references v p - count_list (held_users e (current_epoch_users v)) p
             - count_list (held_users e (previous_epoch_users v)) p"
    using assms
    by (auto simp: filter_local_users_def Let_def release_users_def fold_drop_frame
        references_fold_drop held_users_def split: option.splits)
qed

lemma reduction_filter_local_users_tables:
  assumes "e \<in> outstanding_gc_events v"
  shows "reduction_users (reduction_filter_local_users e v) = map_erase e (reduction_users v)"
    and "reading_users (reduction_filter_local_users e v) = map_erase e (reading_users v)"
    and "outstanding_gc_events (reduction_filter_local_users e v) = outstanding_gc_events v - {e}"
    and "live_users (reduction_filter_local_users e v) =
           live_users v - set (held_users e (reduction_users v))
             - set (held_users e (reading_users v))"
proof -
  note ne = map_erase_absent
  show "reduction_users (reduction_filter_local_users e v) = map_erase e (reduction_users v)"
    using assms
    by (auto simp: ne reduction_filter_local_users_def Let_def delete_users_def fold_delete_frame
        split: option.splits)
  show "reading_users (reduction_filter_local_users e v) = map_erase e (reading_users v)"
    using assms
    by (auto simp: ne reduction_filter_local_users_def Let_def delete_users_def fold_delete_frame
        split: option.splits)
  show "outstanding_gc_events (reduction_filter_local_users e v) = outstanding_gc_events v - {e}"
    using assms
    by (auto simp: reduction_filter_local_users_def Let_def delete_users_def fold_delete_frame
        split: option.splits)
  show "live_users (reduction_filter_local_users e v) =
           live_users v - set (held_users e (reduction_users v))
             - set (held_users e (reading_users v))"
    using assms
    by (auto simp: reduction_filter_local_users_def Let_def delete_users_def fold_delete_frame
        live_fold_delete held_users_def split: option.splits)
qed

text \<open>
  Claim C8. On a view whose table keys are all in \<open>outstanding_gc_events\<close> (the
  invariant of the data model), \<open>filter_local_users e\<close> leaves no entry for \<open>e\<close> in
  either table nor in \<open>outstanding_gc_events\<close>, leaves every other event as it was, and
  lowers the reference count of every user by the number of times the removed buckets
  held it; on a reduction view the users of the removed buckets are deleted. The function
  has no failing path: for an event that is not outstanding (never recorded, or removed
  before) it returns the view unchanged, so a second call changes nothing.
\<close>

theorem filter_local_users_removes_and_is_total:
  assumes "fst ` set (current_epoch_users v) \<union> fst ` set (previous_epoch_users v)
             \<subseteq> outstanding_gc_events v"
    and "fst ` set (reduction_users rv) \<union> fst ` set (reading_users rv)
             \<subseteq> outstanding_gc_events rv"
  shows
    "map_of (current_epoch_users (filter_local_users e v)) e = None \<and>
     map_of (previous_epoch_users (filter_local_users e v)) e = None \<and>
     e \<notin> outstanding_gc_events (filter_local_users e v) \<and>
     (\<forall>e'. e' \<noteq> e \<longrightarrow>
        map_of (current_epoch_users (filter_local_users e v)) e' =
          map_of (current_epoch_users v) e' \<and>
        map_of (previous_epoch_users (filter_local_users e v)) e' =
          map_of (previous_epoch_users v) e' \<and>
        (e' \<in> outstanding_gc_events (filter_local_users e v) \<longleftrightarrow> e' \<in> outstanding_gc_events v)) \<and>
     (\<forall>p. references (filter_local_users e v) p =
        references v p - count_list (held_users e (current_epoch_users v)) p
          - count_list (held_users e (previous_epoch_users v)) p) \<and>
     (e \<notin> outstanding_gc_events v \<longrightarrow> filter_local_users e v = v) \<and>
     filter_local_users e (filter_local_users e v) = filter_local_users e v \<and>
     map_of (reduction_users (reduction_filter_local_users e rv)) e = None \<and>
     map_of (reading_users (reduction_filter_local_users e rv)) e = None \<and>
     e \<notin> outstanding_gc_events (reduction_filter_local_users e rv) \<and>
     (\<forall>e'. e' \<noteq> e \<longrightarrow>
        map_of (reduction_users (reduction_filter_local_users e rv)) e' =
          map_of (reduction_users rv) e' \<and>
        map_of (reading_users (reduction_filter_local_users e rv)) e' =
          map_of (reading_users rv) e' \<and>
        (e' \<in> outstanding_gc_events (reduction_filter_local_users e rv) \<longleftrightarrow>
           e' \<in> outstanding_gc_events rv)) \<and>
     live_users (reduction_filter_local_users e rv) =
       live_users rv - set (held_users e (reduction_users rv))
         - set (held_users e (reading_users rv)) \<and>
     (e \<notin> outstanding_gc_events rv \<longrightarrow> reduction_filter_local_users e rv = rv) \<and>
     reduction_filter_local_users e (reduction_filter_local_users e rv) =
       reduction_filter_local_users e rv"
proof (cases "e \<in> outstanding_gc_events v")
  case inv: True
  note mv = filter_local_users_tables [OF inv]
  have idem: "filter_local_users e (filter_local_users e v) = filter_local_users e v"
    using mv(3) by (simp add: filter_local_users_def [of e "filter_local_users e v"])
  show ?thesis
  proof (cases "e \<in> outstanding_gc_events rv")
    case True
    note rd = reduction_filter_local_users_tables [OF True]
    have ridem: "reduction_filter_local_users e (reduction_filter_local_users e rv) =
        reduction_filter_local_users e rv"
      using rd(3)
      by (simp add: reduction_filter_local_users_def [of e "reduction_filter_local_users e rv"])
    show ?thesis
      using inv True idem ridem
      by (simp add: mv rd map_of_map_erase)
  next
    case False
    have un: "reduction_filter_local_users e rv = rv"
      using False by (simp add: reduction_filter_local_users_def)
    have "map_of (reduction_users rv) e = None" "map_of (reading_users rv) e = None"
      using False assms(2) by (auto simp: map_of_eq_None_iff)
    then show ?thesis
      using inv False idem un
      by (simp add: mv map_of_map_erase held_users_def)
  qed
next
  case out: False
  have un: "filter_local_users e v = v"
    using out by (simp add: filter_local_users_def)
  have none: "map_of (current_epoch_users v) e = None" "map_of (previous_epoch_users v) e = None"
    using out assms(1) by (auto simp: map_of_eq_None_iff)
  show ?thesis
  proof (cases "e \<in> outstanding_gc_events rv")
    case True
    note rd = reduction_filter_local_users_tables [OF True]
    have ridem: "reduction_filter_local_users e (reduction_filter_local_users e rv) =
        reduction_filter_local_users e rv"
      using rd(3)
      by (simp add: reduction_filter_local_users_def [of e "reduction_filter_local_users e rv"])
    show ?thesis
      using out True un ridem none
      by (simp add: rd map_of_map_erase held_users_def)
  next
    case False
    have run: "reduction_filter_local_users e rv = rv"
      using False by (simp add: reduction_filter_local_users_def)
    have "map_of (reduction_users rv) e = None" "map_of (reading_users rv) e = None"
      using False assms(2) by (auto simp: map_of_eq_None_iff)
    then show ?thesis
      using out False un run none
      by (simp add: held_users_def)
  qed
qed

theorem filter_local_users_removes_and_is_total_witness:
  "fst ` set (current_epoch_users example_view) \<union> fst ` set (previous_epoch_users example_view)
     \<subseteq> outstanding_gc_events example_view \<and>
   fst ` set (reduction_users example_reduction_view) \<union>
     fst ` set (reading_users example_reduction_view)
     \<subseteq> outstanding_gc_events example_reduction_view \<and>
   map_of (current_epoch_users (filter_local_users 2 example_view)) 2 = None \<and>
   map_of (previous_epoch_users (filter_local_users 2 example_view)) 2 = None \<and>
   2 \<notin> outstanding_gc_events (filter_local_users 2 example_view) \<and>
   references (filter_local_users 2 example_view) 1 = 0 \<and>
   references (filter_local_users 2 example_view) 0 = 1 \<and>
   filter_local_users 2 (filter_local_users 2 example_view) = filter_local_users 2 example_view \<and>
   map_of (reading_users (reduction_filter_local_users 2 example_reduction_view)) 2 = None \<and>
   live_users (reduction_filter_local_users 2 example_reduction_view) = {0}"
proof -
  have a: "fst ` set (current_epoch_users example_view) \<union>
      fst ` set (previous_epoch_users example_view) \<subseteq> outstanding_gc_events example_view"
    by (simp add: example_view_def)
  have b: "fst ` set (reduction_users example_reduction_view) \<union>
      fst ` set (reading_users example_reduction_view)
      \<subseteq> outstanding_gc_events example_reduction_view"
    by (simp add: example_reduction_view_def)
  note t = filter_local_users_removes_and_is_total [OF a b, of 2]
  have r1: "references (filter_local_users 2 example_view) 1 = 0"
    using t by (simp add: example_view_def held_users_def bucket_users_def)
  have r0: "references (filter_local_users 2 example_view) 0 = 1"
    using t by (simp add: example_view_def held_users_def bucket_users_def)
  have l: "live_users (reduction_filter_local_users 2 example_reduction_view) = {0}"
    using t by (auto simp: example_reduction_view_def held_users_def bucket_users_def)
  show ?thesis
    using a b t r1 r0 l by simp
qed

subsection \<open>The previous-epoch pass when everything is dominated\<close>

lemma map_set_append:
  "\<forall>k' \<in> fst ` set m. k' < k \<Longrightarrow> map_set k v m = m @ [(k, v)]"
  by (induction m) auto

lemma record_filter_previous_append:
  assumes "\<forall>k' \<in> fst ` set fp. k' < fst pit"
  shows "record_filter_previous d pit fp =
     fp @ map (\<lambda>pit. (fst pit, user_mask (snd pit) \<inter> d))
            (filter (\<lambda>pit. user_mask (snd pit) \<inter> d \<noteq> {}) [pit])"
  using assms by (auto simp: record_filter_previous_def Let_def map_set_append)

lemma task_previous_skip:
  assumes "sorted_wrt (<) (map fst fp @ map fst ps)"
  shows "fold (task_previous_step trig cdt node heap us te cc d {}) ps (dead, fp, pre) =
     (fold (\<lambda>pit dead. if trig (fst pit) then set_insert (fst pit) dead else dead) ps dead,
      fp @ map (\<lambda>pit. (fst pit, user_mask (snd pit) \<inter> d))
             (filter (\<lambda>pit. \<not> trig (fst pit) \<and> fst pit \<noteq> te \<and> fst pit \<notin> pre \<and>
                             user_mask (snd pit) \<inter> d \<noteq> {}) ps),
      pre)"
  using assms
proof (induction ps arbitrary: dead fp)
  case Nil
  then show ?case by simp
next
  case (Cons pit ps)
  have lt: "\<forall>k' \<in> fst ` set fp. k' < fst pit"
    using Cons.prems by (auto simp: sorted_wrt_append)
  let ?fp1 = "record_filter_previous d pit fp"
  have fp1: "?fp1 = fp @ map (\<lambda>pit. (fst pit, user_mask (snd pit) \<inter> d))
            (filter (\<lambda>pit. user_mask (snd pit) \<inter> d \<noteq> {}) [pit])"
    by (rule record_filter_previous_append [OF lt])
  have s1: "sorted_wrt (<) (map fst ?fp1 @ map fst ps)"
    using Cons.prems unfolding fp1 by (auto simp: sorted_wrt_append)
  have s0: "sorted_wrt (<) (map fst fp @ map fst ps)"
    using Cons.prems by (auto simp: sorted_wrt_append)
  show ?case
  proof (cases "trig (fst pit) \<or> fst pit = te \<or> fst pit \<in> pre")
    case True
    then show ?thesis
      using Cons.IH [OF s0] by (auto simp: task_previous_step_def)
  next
    case False
    then have step: "task_previous_step trig cdt node heap us te cc d {} pit (dead, fp, pre) =
        (dead, ?fp1, pre)"
      by (simp add: task_previous_step_def Let_def)
    show ?thesis
      using False Cons.IH [OF s1, of dead] unfolding fold_Cons comp_def step fp1
      by auto
  qed
qed

lemma copy_previous_skip:
  assumes "sorted_wrt (<) (map fst fp @ map fst ps)"
  shows "fold (copy_previous_step trig node heap r rd cc vs d {}) ps (dead, fp, pre) =
     (fold (\<lambda>pit dead. if trig (fst pit) then set_insert (fst pit) dead else dead) ps dead,
      fp @ map (\<lambda>pit. (fst pit, user_mask (snd pit) \<inter> d))
             (filter (\<lambda>pit. \<not> trig (fst pit) \<and> user_mask (snd pit) \<inter> d \<noteq> {}) ps),
      pre)"
  using assms
proof (induction ps arbitrary: dead fp)
  case Nil
  then show ?case by simp
next
  case (Cons pit ps)
  have lt: "\<forall>k' \<in> fst ` set fp. k' < fst pit"
    using Cons.prems by (auto simp: sorted_wrt_append)
  let ?fp1 = "record_filter_previous d pit fp"
  have fp1: "?fp1 = fp @ map (\<lambda>pit. (fst pit, user_mask (snd pit) \<inter> d))
            (filter (\<lambda>pit. user_mask (snd pit) \<inter> d \<noteq> {}) [pit])"
    by (rule record_filter_previous_append [OF lt])
  have s1: "sorted_wrt (<) (map fst ?fp1 @ map fst ps)"
    using Cons.prems unfolding fp1 by (auto simp: sorted_wrt_append)
  have s0: "sorted_wrt (<) (map fst fp @ map fst ps)"
    using Cons.prems by (auto simp: sorted_wrt_append)
  show ?case
  proof (cases "trig (fst pit)")
    case True
    then show ?thesis
      using Cons.IH [OF s0] by (auto simp: copy_previous_step_def)
  next
    case False
    then have step: "copy_previous_step trig node heap r rd cc vs d {} pit (dead, fp, pre) =
        (dead, ?fp1, pre)"
      by (simp add: copy_previous_step_def Let_def)
    show ?thesis
      using False Cons.IH [OF s1, of dead] unfolding fold_Cons comp_def step fp1
      by auto
  qed
qed


text \<open>
  Claim C4, as amended. In both analyzers, when \<open>non_dominated\<close>, as recomputed after
  the current-epoch pass (the request mask without \<open>dominated\<close>), is empty, the
  previous-epoch pass derives no precondition: the preconditions are those of the
  current-epoch pass. The map \<open>filter_previous\<close> is built all the same: it gets an
  entry, the overlap of the summary mask with \<open>dominated\<close> (here the whole request
  mask), for every previous-epoch event with such an overlap that has not triggered (and,
  in the task path, is neither the caller's own event nor already a precondition).
\<close>

theorem previous_pass_skipped_when_dominated:
  assumes "sorted_wrt (<) (map fst (previous_epoch_users v))"
    and "task_current_pass has_triggered cdt usage' term_event child_color umask preconditions v =
           (dead_events, preconditions1, observed, non_dominated)"
    and "umask - observed \<inter> (umask - non_dominated) = {}"
    and "copy_current_pass has_triggered redop' reading copy_mask child_color versions'
           copy_preconditions v = (copy_dead_events, copy_preconditions1, copy_observed,
           copy_non_dominated)"
    and "copy_mask - copy_observed \<inter> (copy_mask - copy_non_dominated) = {}"
  shows
    "snd (snd (snd (task_analysis has_triggered cdt usage' term_event child_color umask
                      preconditions v))) = preconditions1 \<and>
     fst (snd (task_analysis has_triggered cdt usage' term_event child_color umask
                 preconditions v)) =
       map (\<lambda>pit. (fst pit, user_mask (snd pit) \<inter> umask))
         (filter (\<lambda>pit. \<not> has_triggered (fst pit) \<and> fst pit \<noteq> term_event \<and>
                          fst pit \<notin> preconditions1 \<and> user_mask (snd pit) \<inter> umask \<noteq> {})
            (previous_epoch_users v)) \<and>
     snd (snd (snd (copy_analysis has_triggered redop' reading copy_mask child_color versions'
                      copy_preconditions v))) = copy_preconditions1 \<and>
     fst (snd (copy_analysis has_triggered redop' reading copy_mask child_color versions'
                 copy_preconditions v)) =
       map (\<lambda>pit. (fst pit, user_mask (snd pit) \<inter> copy_mask))
         (filter (\<lambda>pit. \<not> has_triggered (fst pit) \<and> user_mask (snd pit) \<inter> copy_mask \<noteq> {})
            (previous_epoch_users v))"
proof -
  have d1: "observed \<inter> (umask - non_dominated) = umask"
    using assms(3) by blast
  have d2: "copy_observed \<inter> (copy_mask - copy_non_dominated) = copy_mask"
    using assms(5) by blast
  have s: "sorted_wrt (<) (map fst [] @ map fst (previous_epoch_users v))"
    using assms(1) by simp
  show ?thesis
    using task_previous_skip [OF s, of has_triggered cdt "logical_node v" "user_heap v" usage'
        term_event child_color umask dead_events preconditions1]
      copy_previous_skip [OF s, of has_triggered "logical_node v" "user_heap v" redop' reading
        child_color versions' copy_mask copy_dead_events copy_preconditions1]
    by (simp add: task_analysis_def copy_analysis_def assms(2,4) Let_def d1 d2)
qed


theorem previous_pass_skipped_when_dominated_witness:
  "sorted_wrt (<) (map fst (previous_epoch_users example_view)) \<and>
   task_current_pass (\<lambda>e. False) (\<lambda>a b. TRUE_DEPENDENCE) read_write_usage 3 InvalidColor {0} {}
     example_view = ([], {2}, {0}, {}) \<and>
   copy_current_pass (\<lambda>e. False) 0 False {0} InvalidColor None Map.empty example_view =
     ([], [2 \<mapsto> {0}], {0}, {}) \<and>
   snd (snd (snd (task_analysis (\<lambda>e. False) (\<lambda>a b. TRUE_DEPENDENCE) read_write_usage 3
                    InvalidColor {0} {} example_view))) = {2} \<and>
   fst (snd (task_analysis (\<lambda>e. False) (\<lambda>a b. TRUE_DEPENDENCE) read_write_usage 3
               InvalidColor {0} {} example_view)) = [(1, {0})] \<and>
   snd (snd (snd (copy_analysis (\<lambda>e. False) 0 False {0} InvalidColor None Map.empty
                    example_view))) = [2 \<mapsto> {0}] \<and>
   fst (snd (copy_analysis (\<lambda>e. False) 0 False {0} InvalidColor None Map.empty example_view)) =
     [(1, {0})]"
proof -
  have s: "sorted_wrt (<) (map fst (previous_epoch_users example_view))"
    by (simp add: example_view_def)
  have t: "task_current_pass (\<lambda>e. False) (\<lambda>a b. TRUE_DEPENDENCE) read_write_usage 3 InvalidColor
      {0} {} example_view = ([], {2}, {0}, {})"
    by (simp add: task_current_pass_def task_current_step_def find_current_preconditions_def
        example_view_def Let_def)
  have c: "copy_current_pass (\<lambda>e. False) 0 False {0} InvalidColor None Map.empty example_view =
      ([], [2 \<mapsto> {0}], {0}, {})"
    by (simp add: copy_current_pass_def copy_current_step_def
        find_current_copy_preconditions_def same_version_skip_def record_dependence_def
        example_view_def Let_def)
  have e: "{0::nat} - {0} \<inter> ({0} - {}) = {}"
    by simp
  have p: "previous_epoch_users example_view = [(1, \<lparr>user_mask = {0}, users = single_user 0\<rparr>)]"
    by (simp add: example_view_def)
  show ?thesis
    using s t c previous_pass_skipped_when_dominated [OF s t e c e]
    by (simp add: p)
qed

text \<open>
  The claim as stated fails: on \<open>example_view\<close>, for a read-write caller on the same
  field, \<open>non_dominated\<close> is empty after the current-epoch pass (both as accumulated and
  as recomputed) and \<open>filter_previous\<close> has an entry for event 1, in the task path and
  in the copy path.
\<close>

theorem previous_pass_counterexample:
  "snd (snd (snd (task_current_pass (\<lambda>e. False) (\<lambda>a b. TRUE_DEPENDENCE) read_write_usage 3
                    InvalidColor {0} {} example_view))) = {} \<and>
   {0} - fst (snd (snd (task_analysis (\<lambda>e. False) (\<lambda>a b. TRUE_DEPENDENCE) read_write_usage 3
                          InvalidColor {0} {} example_view))) = {} \<and>
   fst (snd (task_analysis (\<lambda>e. False) (\<lambda>a b. TRUE_DEPENDENCE) read_write_usage 3
                    InvalidColor {0} {} example_view)) = [(1, {0})] \<and>
   snd (snd (snd (copy_current_pass (\<lambda>e. False) 0 False {0} InvalidColor None Map.empty
                    example_view))) = {} \<and>
   {0} - fst (snd (snd (copy_analysis (\<lambda>e. False) 0 False {0} InvalidColor None Map.empty
                          example_view))) = {} \<and>
   fst (snd (copy_analysis (\<lambda>e. False) 0 False {0} InvalidColor None Map.empty
                    example_view)) = [(1, {0})]"
  by (simp add: task_analysis_def task_current_pass_def task_current_step_def
      task_previous_step_def copy_analysis_def copy_current_pass_def copy_current_step_def
      copy_previous_step_def find_current_preconditions_def find_current_copy_preconditions_def
      record_filter_previous_def same_version_skip_def IS_READ_ONLY_def
      example_view_def example_node_def read_write_usage_def Let_def)

subsection \<open>Dominated fields move to the previous epoch\<close>

lemma map_of_map_set: "map_of (map_set k v m) k' = (if k' = k then Some v else map_of m k')"
  by (induction m) auto

lemma keys_map_set: "set (map fst (map_set k v m)) = insert k (set (map fst m))"
proof (induction m)
  case Nil
  then show ?case by simp
next
  case (Cons a m)
  obtain k' v' where a: "a = (k', v')" by (cases a)
  have "set (map fst (map_set k v ((k', v') # m))) = insert k (insert k' (set (map fst m)))"
    using Cons.IH by (simp only: map_set.simps list.map list.set fst_conv split: if_splits) blast
  then show ?case using a by simp
qed

lemma sorted_map_set:
  "sorted_wrt (<) (map fst m) \<Longrightarrow> sorted_wrt (<) (map fst (map_set k v m))"
proof (induction m)
  case Nil
  then show ?case by simp
next
  case (Cons a m)
  obtain k' v' where a: "a = (k', v')" by (cases a)
  have s: "sorted_wrt (<) (map fst m)" and lt: "\<forall>y \<in> set (map fst m). k' < y"
    using Cons.prems a by auto
  show ?case
  proof (cases "k < k'")
    case True
    then show ?thesis using a s lt by auto
  next
    case False
    show ?thesis
    proof (cases "k = k'")
      case True
      then show ?thesis using a s lt by auto
    next
      case ne: False
      with False have "k' < k" by simp
      then have "\<forall>y \<in> set (map fst (map_set k v m)). k' < y"
        using lt unfolding keys_map_set by simp
      then show ?thesis using a False ne Cons.IH [OF s] by simp
    qed
  qed
qed

lemma sorted_distinct_keys:
  "sorted_wrt (<) (map fst (m :: (nat \<times> 'v) list)) \<Longrightarrow> distinct (map fst m)"
  by (simp add: strict_sorted_iff)

lemma map_of_sorted_iff:
  "sorted_wrt (<) (map fst (m :: (nat \<times> 'v) list)) \<Longrightarrow>
   map_of m k = Some v \<longleftrightarrow> (k, v) \<in> set m"
  using sorted_distinct_keys [of m] map_of_eq_Some_iff [of m k v] by simp

lemma set_map_set:
  assumes "sorted_wrt (<) (map fst m)"
  shows "set (map_set k v m) = insert (k, v) {kv \<in> set m. fst kv \<noteq> k}"
proof (rule set_eqI)
  fix x :: "nat \<times> 'a"
  obtain a b where x: "x = (a, b)" by (cases x)
  have "x \<in> set (map_set k v m) \<longleftrightarrow> map_of (map_set k v m) a = Some b"
    using map_of_sorted_iff [OF sorted_map_set [OF assms]] x by simp
  also have "\<dots> \<longleftrightarrow> (if a = k then b = v else map_of m a = Some b)"
    by (auto simp: map_of_map_set)
  also have "\<dots> \<longleftrightarrow> x \<in> insert (k, v) {kv \<in> set m. fst kv \<noteq> k}"
    using map_of_sorted_iff [OF assms] x by auto
  finally show "x \<in> set (map_set k v m) \<longleftrightarrow> x \<in> insert (k, v) {kv \<in> set m. fst kv \<noteq> k}" .
qed

lemma sorted_map_erase:
  "sorted_wrt (<) (map fst m) \<Longrightarrow> sorted_wrt (<) (map fst (map_erase k m))"
  by (induction m) (auto simp: map_erase_def)

lemma set_map_erase: "set (map_erase k m) = {kv \<in> set m. fst kv \<noteq> k}"
  by (auto simp: map_erase_def)

lemma union_masks_pointwise:
  assumes "sorted_wrt (<) (map fst (m :: (nat \<times> 'a set) list))"
  shows "\<Union> (snd ` set m) = (\<Union>u. case map_of m u of None \<Rightarrow> {} | Some fm \<Rightarrow> fm)"
proof (rule set_eqI)
  fix x
  have "x \<in> \<Union> (snd ` set m) \<longleftrightarrow> (\<exists>u fm. (u, fm) \<in> set m \<and> x \<in> fm)"
    by force
  also have "\<dots> \<longleftrightarrow> (\<exists>u fm. map_of m u = Some fm \<and> x \<in> fm)"
    using map_of_sorted_iff [OF assms] by simp
  also have "\<dots> \<longleftrightarrow> x \<in> (\<Union>u. case map_of m u of None \<Rightarrow> {} | Some fm \<Rightarrow> fm)"
    by (auto split: option.splits)
  finally show "x \<in> \<Union> (snd ` set m) \<longleftrightarrow>
      x \<in> (\<Union>u. case map_of m u of None \<Rightarrow> {} | Some fm \<Rightarrow> fm)" .
qed

lemma wf_bucket_summary:
  assumes "wf_bucket eu"
  shows "user_mask eu = (\<Union>u. bucket_fields eu u)"
proof (cases "users eu")
  case (single_user u')
  then show ?thesis by (auto simp: bucket_fields_def)
next
  case (multi_users m)
  then show ?thesis
    using assms union_masks_pointwise [of m]
    by (simp add: wf_bucket_def bucket_fields_def)
qed

lemma wf_bucket_fields_subset:
  assumes "wf_bucket eu"
  shows "bucket_fields eu u \<subseteq> user_mask eu"
proof -
  have "bucket_fields eu u \<subseteq> (\<Union>u. bucket_fields eu u)" by blast
  then show ?thesis by (simp only: wf_bucket_summary [OF assms])
qed

lemma in_union_masks:
  assumes "sorted_wrt (<) (map fst (m :: (nat \<times> 'a set) list))"
  shows "x \<in> \<Union> (snd ` set m) \<longleftrightarrow> (\<exists>u fm. map_of m u = Some fm \<and> x \<in> fm)"
proof -
  have "x \<in> \<Union> (snd ` set m) \<longleftrightarrow> (\<exists>u fm. (u, fm) \<in> set m \<and> x \<in> fm)"
    by force
  also have "\<dots> \<longleftrightarrow> (\<exists>u fm. map_of m u = Some fm \<and> x \<in> fm)"
    using map_of_sorted_iff [OF assms] by simp
  finally show ?thesis .
qed

lemma wf_bucket_multiI:
  assumes "sorted_wrt (<) (map fst m)"
    and "\<And>x. x \<in> s \<longleftrightarrow> (\<exists>u fm. map_of m u = Some fm \<and> x \<in> fm)"
  shows "wf_bucket \<lparr>user_mask = s, users = multi_users m\<rparr>"
proof -
  have "x \<in> s \<longleftrightarrow> x \<in> \<Union> (snd ` set m)" for x
    unfolding in_union_masks [OF assms(1)] by (rule assms(2))
  then have "s = \<Union> (snd ` set m)" by blast
  then show ?thesis using assms(1) by (simp add: wf_bucket_def)
qed

lemma wf_bucket_multiD:
  assumes "wf_bucket eu" and "users eu = multi_users m"
  shows "sorted_wrt (<) (map fst m)"
    and "x \<in> user_mask eu \<longleftrightarrow> (\<exists>u fm. map_of m u = Some fm \<and> x \<in> fm)"
proof -
  show s: "sorted_wrt (<) (map fst m)" using assms by (simp add: wf_bucket_def)
  have "user_mask eu = \<Union> (snd ` set m)" using assms by (simp add: wf_bucket_def)
  then show "x \<in> user_mask eu \<longleftrightarrow> (\<exists>u fm. map_of m u = Some fm \<and> x \<in> fm)"
    by (simp only: in_union_masks [OF s])
qed

lemma wf_table_lookup:
  assumes "wf_table t" and "map_of t e = Some eu"
  shows "wf_bucket eu"
proof -
  have "(e, eu) \<in> set t" using assms(2) by (rule map_of_SomeD)
  then show ?thesis using assms(1) unfolding wf_table_def by force
qed

lemma wf_table_map_set:
  assumes "wf_table t" and "wf_bucket eu"
  shows "wf_table (map_set e eu t)"
proof -
  have s: "sorted_wrt (<) (map fst t)" using assms(1) by (simp add: wf_table_def)
  have "wf_bucket (snd kv)" if "kv \<in> set (map_set e eu t)" for kv
  proof -
    have "kv = (e, eu) \<or> kv \<in> set t" using that unfolding set_map_set [OF s] by blast
    then show ?thesis using assms unfolding wf_table_def by auto
  qed
  then show ?thesis using sorted_map_set [OF s] by (simp add: wf_table_def)
qed

lemma wf_table_map_erase:
  assumes "wf_table t"
  shows "wf_table (map_erase e t)"
proof -
  have s: "sorted_wrt (<) (map fst t)" using assms(1) by (simp add: wf_table_def)
  have "wf_bucket (snd kv)" if "kv \<in> set (map_erase e t)" for kv
    using that assms unfolding set_map_erase wf_table_def by blast
  then show ?thesis using sorted_map_erase [OF s] by (simp add: wf_table_def)
qed

lemma user_fields_map_set:
  "user_fields (map_set e eu t) e' u = (if e' = e then bucket_fields eu u else user_fields t e' u)"
  by (simp add: user_fields_def map_of_map_set)

lemma user_fields_map_erase:
  "user_fields (map_erase e t) e' u = (if e' = e then {} else user_fields t e' u)"
  by (simp add: user_fields_def map_of_map_erase)

lemma map_fields_Nil [simp]: "map_fields [] u = {}"
  by (simp add: map_fields_def)

lemma map_fields_map_set:
  "map_fields (map_set k fm m) u = (if u = k then fm else map_fields m u)"
  by (simp add: map_fields_def map_of_map_set)

lemma map_fields_Cons:
  "map_fields ((k, fm) # m) u = (if u = k then fm else map_fields m u)"
  by (simp add: map_fields_def)

lemma map_fields_absent: "u \<notin> set (map fst m) \<Longrightarrow> map_fields m u = {}"
  by (simp add: map_fields_def map_of_eq_None_iff [THEN iffD2])

lemma bucket_fields_multi [simp]:
  "bucket_fields \<lparr>user_mask = s, users = multi_users m\<rparr> u = map_fields m u"
  by (simp add: bucket_fields_def map_fields_def)

lemma bucket_fields_single [simp]:
  "bucket_fields \<lparr>user_mask = s, users = single_user p\<rparr> u = (if p = u then s else {})"
  by (simp add: bucket_fields_def)

lemma wf_bucket_single [simp]: "wf_bucket \<lparr>user_mask = s, users = single_user p\<rparr>"
  by (simp add: wf_bucket_def)

lemma in_map_fields_iff:
  "(\<exists>u fm. map_of m u = Some fm \<and> x \<in> fm) \<longleftrightarrow> (\<exists>u. x \<in> map_fields m u)"
  by (auto simp: map_fields_def split: option.splits)

lemma wf_bucket_multi_iff:
  "wf_bucket \<lparr>user_mask = s, users = multi_users m\<rparr> \<longleftrightarrow>
     sorted_wrt (<) (map fst m) \<and> (\<forall>x. x \<in> s \<longleftrightarrow> (\<exists>u. x \<in> map_fields m u))"
proof (cases "sorted_wrt (<) (map fst m)")
  case True
  have "s = \<Union> (snd ` set m) \<longleftrightarrow> (\<forall>x. x \<in> s \<longleftrightarrow> x \<in> \<Union> (snd ` set m))"
    by blast
  also have "\<dots> \<longleftrightarrow> (\<forall>x. x \<in> s \<longleftrightarrow> (\<exists>u. x \<in> map_fields m u))"
    by (simp only: in_union_masks [OF True] in_map_fields_iff)
  finally show ?thesis using True by (simp add: wf_bucket_def)
next
  case False
  then show ?thesis by (simp add: wf_bucket_def)
qed

lemma same_tables_refl [simp]: "same_tables v v"
  by (simp add: same_tables_def)

lemma same_tables_trans: "same_tables v v' \<Longrightarrow> same_tables v' v'' \<Longrightarrow> same_tables v v''"
  by (simp add: same_tables_def)

lemma same_tables_add_reference [simp]: "same_tables v (add_reference p v)"
  by (simp add: same_tables_def add_reference_def)

lemma same_tables_remove_reference [simp]: "same_tables v (remove_reference p v)"
  by (simp add: same_tables_def remove_reference_def)

lemma same_tables_legion_delete [simp]: "same_tables v (legion_delete p v)"
  by (simp add: same_tables_def legion_delete_def)

lemma same_tables_drop_reference [simp]: "same_tables v (drop_reference p v)"
  by (simp add: same_tables_def drop_reference_def remove_reference_def legion_delete_def)

lemma same_tables_fold:
  assumes "\<And>x v. same_tables v (f x v)"
  shows "same_tables v (fold f xs v)"
proof (induction xs arbitrary: v)
  case Nil
  then show ?case by simp
next
  case (Cons x xs)
  show ?case
    using same_tables_trans [OF assms [of v x] Cons.IH [of "f x v"]] by simp
qed

lemma same_tables_release_users [simp]: "same_tables v (release_users eu v)"
  unfolding release_users_def by (rule same_tables_fold) simp

lemma diff_int_self: "fm - so \<inter> fm = fm - (so :: 'a set)"
  by blast

lemma diff_disjoint: "so \<inter> fm = {} \<Longrightarrow> fm - so = (fm :: 'a set)"
  by blast

lemma send_back_step_eq:
  "\<exists>v'. send_back_step so (p, fm) (pm, acc, del, v) =
        (if so \<inter> fm = {} then pm else map_set p (map_fields pm p \<union> (so \<inter> fm)) pm,
         acc @ [(p, fm - so)],
         del @ (if so \<inter> fm \<noteq> {} \<and> fm - so = {} then [p] else []), v') \<and>
      same_tables v v'"
proof (cases "so \<inter> fm = {}")
  case True
  then show ?thesis
    by (simp add: send_back_step_def Let_def diff_disjoint)
next
  case False
  show ?thesis
  proof (cases "map_of pm p")
    case None
    then show ?thesis
      using False
      by (cases "fm - so = {}")
        (simp_all add: send_back_step_def Let_def diff_int_self map_fields_def)
  next
    case (Some a)
    then show ?thesis
      using False
      by (cases "fm - so = {}")
        (simp_all add: send_back_step_def Let_def diff_int_self map_fields_def)
  qed
qed

lemma send_back_new_step_eq:
  "\<exists>v'. send_back_new_step so (p, fm) (nm, acc, del, v) =
        (if so \<inter> fm = {} then nm else map_set p (so \<inter> fm) nm,
         acc @ [(p, fm - so)],
         del @ (if so \<inter> fm \<noteq> {} \<and> fm - so = {} then [p] else []), v') \<and>
      same_tables v v'"
proof (cases "so \<inter> fm = {}")
  case True
  then show ?thesis
    by (simp add: send_back_new_step_def Let_def diff_disjoint)
next
  case False
  then show ?thesis
    by (cases "fm - so = {}")
      (simp_all add: send_back_new_step_def Let_def diff_int_self)
qed

lemma merge_back_step_eq:
  "\<exists>v'. merge_back_step (p, fm) (pm, v) = (map_set p (map_fields pm p \<union> fm) pm, v') \<and>
      same_tables v v'"
  by (cases "map_of pm p") (simp_all add: merge_back_step_def map_fields_def)

lemma fold_merge_back:
  assumes "sorted_wrt (<) (map fst cm)"
  shows "\<exists>pm1 v1. fold merge_back_step cm (pm, v) = (pm1, v1) \<and>
     same_tables v v1 \<and>
     (sorted_wrt (<) (map fst pm) \<longrightarrow> sorted_wrt (<) (map fst pm1)) \<and>
     (\<forall>u. map_fields pm1 u = map_fields pm u \<union> map_fields cm u)"
  using assms
proof (induction cm arbitrary: pm v)
  case Nil
  then show ?case by simp
next
  case (Cons it cm)
  obtain p fm where it: "it = (p, fm)" by (cases it)
  have s: "sorted_wrt (<) (map fst cm)" and nin: "p \<notin> set (map fst cm)"
    using Cons.prems it by auto
  let ?pm' = "map_set p (map_fields pm p \<union> fm) pm"
  obtain v' where step: "merge_back_step it (pm, v) = (?pm', v')" and st: "same_tables v v'"
    using merge_back_step_eq [of p fm pm v] it by blast
  from Cons.IH [OF s, of ?pm' v'] obtain pm1 v1 where
    f: "fold merge_back_step cm (?pm', v') = (pm1, v1)" and st1: "same_tables v' v1"
    and so: "sorted_wrt (<) (map fst ?pm') \<longrightarrow> sorted_wrt (<) (map fst pm1)"
    and mf: "\<forall>u. map_fields pm1 u = map_fields ?pm' u \<union> map_fields cm u"
    by blast
  have "\<forall>u. map_fields pm1 u = map_fields pm u \<union> map_fields (it # cm) u"
    using mf nin by (auto simp: it map_fields_map_set map_fields_Cons map_fields_absent)
  then show ?case
    using f step st st1 so same_tables_trans [OF st st1] sorted_map_set [of pm p]
    by simp
qed

(* send_back_step fold *)

lemma fold_send_back:
  assumes "sorted_wrt (<) (map fst cm)"
  shows "\<exists>pm1 v1. fold (send_back_step so) cm (pm, acc, del, v) =
        (pm1, acc @ map (\<lambda>it. (fst it, snd it - so)) cm,
         del @ map fst (filter (\<lambda>it. so \<inter> snd it \<noteq> {} \<and> snd it - so = {}) cm), v1) \<and>
     same_tables v v1 \<and>
     (sorted_wrt (<) (map fst pm) \<longrightarrow> sorted_wrt (<) (map fst pm1)) \<and>
     (\<forall>u. map_fields pm1 u = map_fields pm u \<union> (so \<inter> map_fields cm u))"
  using assms
proof (induction cm arbitrary: pm acc del v)
  case Nil
  then show ?case by simp
next
  case (Cons it cm)
  obtain p fm where it: "it = (p, fm)" by (cases it)
  have s: "sorted_wrt (<) (map fst cm)" and nin: "p \<notin> set (map fst cm)"
    using Cons.prems it by auto
  let ?pm' = "if so \<inter> fm = {} then pm else map_set p (map_fields pm p \<union> (so \<inter> fm)) pm"
  let ?acc' = "acc @ [(p, fm - so)]"
  let ?del' = "del @ (if so \<inter> fm \<noteq> {} \<and> fm - so = {} then [p] else [])"
  obtain v' where step: "send_back_step so it (pm, acc, del, v) = (?pm', ?acc', ?del', v')"
    and st: "same_tables v v'"
    using send_back_step_eq [of so p fm pm acc del v] it by blast
  from Cons.IH [OF s, of ?pm' ?acc' ?del' v'] obtain pm1 v1 where
    f: "fold (send_back_step so) cm (?pm', ?acc', ?del', v') =
        (pm1, ?acc' @ map (\<lambda>it. (fst it, snd it - so)) cm,
         ?del' @ map fst (filter (\<lambda>it. so \<inter> snd it \<noteq> {} \<and> snd it - so = {}) cm), v1)"
    and st1: "same_tables v' v1"
    and so: "sorted_wrt (<) (map fst ?pm') \<longrightarrow> sorted_wrt (<) (map fst pm1)"
    and mf: "\<forall>u. map_fields pm1 u = map_fields ?pm' u \<union> (so \<inter> map_fields cm u)"
    by blast
  have mf': "\<forall>u. map_fields pm1 u = map_fields pm u \<union> (so \<inter> map_fields (it # cm) u)"
    using mf nin by (auto simp: it map_fields_map_set map_fields_Cons map_fields_absent)
  have so': "sorted_wrt (<) (map fst pm) \<longrightarrow> sorted_wrt (<) (map fst pm1)"
    using so sorted_map_set [of pm p] by simp
  show ?case
    unfolding fold_Cons comp_def step
    using f st1 so' mf' same_tables_trans [OF st st1]
    by (simp add: it)
qed

lemma fold_send_back_new:
  assumes "sorted_wrt (<) (map fst cm)"
    and "\<forall>p \<in> set (map fst cm). map_fields nm p = {}"
  shows "\<exists>nm1 v1. fold (send_back_new_step so) cm (nm, acc, del, v) =
        (nm1, acc @ map (\<lambda>it. (fst it, snd it - so)) cm,
         del @ map fst (filter (\<lambda>it. so \<inter> snd it \<noteq> {} \<and> snd it - so = {}) cm), v1) \<and>
     same_tables v v1 \<and>
     (sorted_wrt (<) (map fst nm) \<longrightarrow> sorted_wrt (<) (map fst nm1)) \<and>
     (\<forall>u. map_fields nm1 u = map_fields nm u \<union> (so \<inter> map_fields cm u))"
  using assms
proof (induction cm arbitrary: nm acc del v)
  case Nil
  then show ?case by simp
next
  case (Cons it cm)
  obtain p fm where it: "it = (p, fm)" by (cases it)
  have s: "sorted_wrt (<) (map fst cm)" and nin: "p \<notin> set (map fst cm)"
    using Cons.prems(1) it by auto
  have e: "map_fields nm p = {}" using Cons.prems(2) it by simp
  let ?nm' = "if so \<inter> fm = {} then nm else map_set p (so \<inter> fm) nm"
  let ?acc' = "acc @ [(p, fm - so)]"
  let ?del' = "del @ (if so \<inter> fm \<noteq> {} \<and> fm - so = {} then [p] else [])"
  obtain v' where step: "send_back_new_step so it (nm, acc, del, v) = (?nm', ?acc', ?del', v')"
    and st: "same_tables v v'"
    using send_back_new_step_eq [of so p fm nm acc del v] it by blast
  have e': "\<forall>p \<in> set (map fst cm). map_fields ?nm' p = {}"
    using Cons.prems(2) nin by (auto simp: map_fields_map_set)
  from Cons.IH [OF s e', of ?acc' ?del' v'] obtain nm1 v1 where
    f: "fold (send_back_new_step so) cm (?nm', ?acc', ?del', v') =
        (nm1, ?acc' @ map (\<lambda>it. (fst it, snd it - so)) cm,
         ?del' @ map fst (filter (\<lambda>it. so \<inter> snd it \<noteq> {} \<and> snd it - so = {}) cm), v1)"
    and st1: "same_tables v' v1"
    and so: "sorted_wrt (<) (map fst ?nm') \<longrightarrow> sorted_wrt (<) (map fst nm1)"
    and mf: "\<forall>u. map_fields nm1 u = map_fields ?nm' u \<union> (so \<inter> map_fields cm u)"
    by blast
  have mf': "\<forall>u. map_fields nm1 u = map_fields nm u \<union> (so \<inter> map_fields (it # cm) u)"
    using mf nin e by (auto simp: it map_fields_map_set map_fields_Cons map_fields_absent)
  have so': "sorted_wrt (<) (map fst nm) \<longrightarrow> sorted_wrt (<) (map fst nm1)"
    using so sorted_map_set [of nm p] by simp
  show ?case
    unfolding fold_Cons comp_def step
    using f st1 so' mf' same_tables_trans [OF st st1]
    by (simp add: it)
qed

lemma entry_frame_refl [simp]: "entry_frame v v"
  by (simp add: entry_frame_def)

lemma entry_frame_trans: "entry_frame v v' \<Longrightarrow> entry_frame v' v'' \<Longrightarrow> entry_frame v v''"
  by (simp add: entry_frame_def)

lemma same_tables_entry_frame: "same_tables v v' \<Longrightarrow> entry_frame v v'"
  by (simp add: same_tables_def entry_frame_def)

lemma migratedI:
  assumes "same_tables v v0" and "same_tables (set_previous ev pb v0) v1"
    and "wf_bucket pb"
    and "\<And>u. bucket_fields pb u = user_fields (previous_epoch_users v) ev u \<union> moved u"
  shows "migrated ev moved v v1"
  using assms
  by (auto simp: migrated_def entry_frame_def same_tables_def set_previous_def)

lemma sorted_two: "sorted_wrt (<) (map fst (map_set a x (map_set b y [])))"
  by (intro sorted_map_set) simp

lemma fold_map_erase:
  "fold map_erase del cm = filter (\<lambda>kv. fst kv \<notin> set del) cm"
proof (induction del arbitrary: cm)
  case Nil
  then show ?case by simp
next
  case (Cons k del)
  have "filter (\<lambda>kv. fst kv \<notin> set del) (map_erase k cm) =
        filter (\<lambda>kv. fst kv \<notin> set (k # del)) cm"
    by (induction cm) (auto simp: map_erase_def)
  then show ?case using Cons.IH [of "map_erase k cm"] by simp
qed

lemma map_fields_filter:
  "map_fields (filter (\<lambda>kv. fst kv \<notin> D) m) u = (if u \<in> D then {} else map_fields m u)"
  by (induction m) (auto simp: map_fields_def)

lemma map_fields_map_diff:
  "map_fields (map (\<lambda>it. (fst it, snd it - so)) m) u = map_fields m u - so"
  by (induction m) (auto simp: map_fields_def)

lemma sorted_filter_keys:
  "sorted_wrt (<) (map fst m) \<Longrightarrow> sorted_wrt (<) (map fst (filter P m))"
  by (induction m) auto

lemma sorted_map_diff:
  "sorted_wrt (<) (map fst m) \<Longrightarrow> sorted_wrt (<) (map fst (map (\<lambda>it. (fst it, f (snd it))) m))"
  by (simp add: comp_def)

lemma map_fields_in_set:
  assumes "sorted_wrt (<) (map fst m)" and "it \<in> set m"
  shows "map_fields m (fst it) = snd it"
proof -
  have "map_of m (fst it) = Some (snd it)"
    using map_of_sorted_iff [OF assms(1), of "fst it" "snd it"] assms(2) by simp
  then show ?thesis by (simp add: map_fields_def)
qed

lemma collapse_current_eq:
  "collapse_current cmask cm1 del =
     (if del = [] then \<lparr>user_mask = cmask, users = multi_users cm1\<rparr>
      else if \<exists>user fm. fold map_erase del cm1 = [(user, fm)]
      then \<lparr>user_mask = snd (hd (fold map_erase del cm1)),
            users = single_user (fst (hd (fold map_erase del cm1)))\<rparr>
      else \<lparr>user_mask = cmask, users = multi_users (fold map_erase del cm1)\<rparr>)"
proof (cases "fold map_erase del cm1")
  case Nil
  then show ?thesis by (simp add: collapse_current_def)
next
  case (Cons a list)
  obtain user fm where a: "a = (user, fm)" by (cases a)
  show ?thesis
  proof (cases list)
    case Nil
    then show ?thesis using Cons a by (simp add: collapse_current_def)
  next
    case (Cons b list')
    then show ?thesis using \<open>fold map_erase del cm1 = a # list\<close> a
      by (simp add: collapse_current_def)
  qed
qed

lemma masks_left_fields: "map_fields (masks_left so cm) p = map_fields cm p - so"
  unfolding masks_left_def by (rule map_fields_map_diff)

lemma sorted_masks_left:
  "sorted_wrt (<) (map fst cm) \<Longrightarrow> sorted_wrt (<) (map fst (masks_left so cm))"
  unfolding masks_left_def by (simp add: comp_def)

lemma emptied_fields:
  assumes "sorted_wrt (<) (map fst cm)" and "p \<in> set (emptied so cm)"
  shows "map_fields cm p - so = {}"
proof -
  from assms(2) obtain it where it: "it \<in> set cm" "fst it = p" "snd it - so = {}"
    unfolding emptied_def by auto
  then show ?thesis using map_fields_in_set [OF assms(1) it(1)] by simp
qed

lemma remaining_fields:
  assumes "sorted_wrt (<) (map fst cm)"
  shows "map_fields (filter (\<lambda>kv. fst kv \<notin> set (emptied so cm)) (masks_left so cm)) p =
         map_fields cm p - so"
proof (cases "p \<in> set (emptied so cm)")
  case True
  then show ?thesis
    using emptied_fields [OF assms True] by (simp only: map_fields_filter if_True)
next
  case False
  then show ?thesis
    by (simp only: map_fields_filter if_False masks_left_fields)
qed

lemma sorted_remaining:
  assumes "sorted_wrt (<) (map fst cm)"
  shows "sorted_wrt (<) (map fst (filter (\<lambda>kv. fst kv \<notin> set (emptied so cm)) (masks_left so cm)))"
  by (rule sorted_filter_keys [OF sorted_masks_left [OF assms]])

lemma collapse_none:
  "collapse_current cmask cm1 [] = \<lparr>user_mask = cmask, users = multi_users cm1\<rparr>"
  by (simp add: collapse_current_def)

lemma collapse_one:
  assumes "del \<noteq> []" and "fold map_erase del cm1 = [(user, fm)]"
  shows "collapse_current cmask cm1 del = \<lparr>user_mask = fm, users = single_user user\<rparr>"
  using assms(1) unfolding collapse_current_def assms(2) by simp

lemma collapse_many:
  assumes "del \<noteq> []" and "\<not> (\<exists>user fm. fold map_erase del cm1 = [(user, fm)])"
  shows "collapse_current cmask cm1 del =
         \<lparr>user_mask = cmask, users = multi_users (fold map_erase del cm1)\<rparr>"
proof (cases "fold map_erase del cm1")
  case Nil
  show ?thesis using assms(1) unfolding collapse_current_def Nil by simp
next
  case (Cons a list)
  obtain user fm where a: "a = (user, fm)" by (cases a)
  show ?thesis
  proof (cases list)
    case Nil
    then have False using assms(2) Cons a by blast
    then show ?thesis ..
  next
    case c2: (Cons b list')
    show ?thesis using assms(1) unfolding collapse_current_def Cons a c2 by simp
  qed
qed

lemma collapse_current_fields:
  assumes s: "sorted_wrt (<) (map fst cm)"
  shows "bucket_fields (collapse_current cmask (masks_left so cm) (emptied so cm)) u =
         map_fields cm u - so"
proof -
  let ?rem = "filter (\<lambda>kv. fst kv \<notin> set (emptied so cm)) (masks_left so cm)"
  have fr: "fold map_erase (emptied so cm) (masks_left so cm) = ?rem"
    by (rule fold_map_erase)
  note rem = remaining_fields [OF s, of so]
  show ?thesis
  proof (cases "emptied so cm = []")
    case True
    have "bucket_fields \<lparr>user_mask = cmask, users = multi_users (masks_left so cm)\<rparr> u =
        map_fields cm u - so"
      unfolding bucket_fields_multi by (rule masks_left_fields)
    then show ?thesis unfolding True collapse_none .
  next
    case False
    show ?thesis
    proof (cases "\<exists>user fm. fold map_erase (emptied so cm) (masks_left so cm) = [(user, fm)]")
      case True
      then obtain user fm where
        one: "fold map_erase (emptied so cm) (masks_left so cm) = [(user, fm)]" by blast
      have a: "map_fields [(user, fm)] u = map_fields cm u - so"
        using rem [of u] unfolding fr [symmetric] one .
      have b: "map_fields [(user, fm)] u = (if user = u then fm else {})"
        by (simp add: map_fields_def)
      have "bucket_fields \<lparr>user_mask = fm, users = single_user user\<rparr> u =
          map_fields cm u - so"
        unfolding bucket_fields_single by (rule trans [OF b [symmetric] a])
      then show ?thesis unfolding collapse_one [OF False one] .
    next
      case none: False
      have "bucket_fields \<lparr>user_mask = cmask, users = multi_users ?rem\<rparr> u = map_fields cm u - so"
        unfolding bucket_fields_multi by (rule rem)
      then show ?thesis unfolding collapse_many [OF False none] fr .
    qed
  qed
qed

lemma collapse_current_wf:
  assumes s: "sorted_wrt (<) (map fst cm)"
    and cm: "\<forall>x. x \<in> cmask \<longleftrightarrow> (\<exists>u. x \<in> map_fields cm u - so)"
  shows "wf_bucket (collapse_current cmask (masks_left so cm) (emptied so cm))"
proof -
  let ?rem = "filter (\<lambda>kv. fst kv \<notin> set (emptied so cm)) (masks_left so cm)"
  have fr: "fold map_erase (emptied so cm) (masks_left so cm) = ?rem"
    by (rule fold_map_erase)
  note rem = remaining_fields [OF s, of so]
  show ?thesis
  proof (cases "emptied so cm = []")
    case True
    have "wf_bucket \<lparr>user_mask = cmask, users = multi_users (masks_left so cm)\<rparr>"
      unfolding wf_bucket_multi_iff masks_left_fields
      using cm sorted_masks_left [OF s] by simp
    then show ?thesis unfolding True collapse_none .
  next
    case False
    show ?thesis
    proof (cases "\<exists>user fm. fold map_erase (emptied so cm) (masks_left so cm) = [(user, fm)]")
      case True
      then obtain user fm where
        one: "fold map_erase (emptied so cm) (masks_left so cm) = [(user, fm)]" by blast
      show ?thesis unfolding collapse_one [OF False one] by simp
    next
      case none: False
      have "wf_bucket \<lparr>user_mask = cmask, users = multi_users ?rem\<rparr>"
        unfolding wf_bucket_multi_iff rem
        using cm sorted_remaining [OF s] by simp
      then show ?thesis unfolding collapse_many [OF False none] fr .
    qed
  qed
qed

lemma user_fields_None: "map_of t e = None \<Longrightarrow> user_fields t e u = {}"
  by (simp add: user_fields_def)

lemma user_fields_Some: "map_of t e = Some eu \<Longrightarrow> user_fields t e u = bucket_fields eu u"
  by (simp add: user_fields_def)

lemma wf_multi_pointwise:
  assumes "wf_bucket eu" and "users eu = multi_users m"
  shows "sorted_wrt (<) (map fst m)"
    and "\<forall>x. x \<in> user_mask eu \<longleftrightarrow> (\<exists>u. x \<in> map_fields m u)"
    and "\<And>u. bucket_fields eu u = map_fields m u"
proof -
  have eq: "eu = \<lparr>user_mask = user_mask eu, users = multi_users m\<rparr>"
    using assms(2) by simp
  have w: "wf_bucket \<lparr>user_mask = user_mask eu, users = multi_users m\<rparr>"
    using assms(1) eq by simp
  show "sorted_wrt (<) (map fst m)"
    using w unfolding wf_bucket_multi_iff by blast
  show "\<forall>x. x \<in> user_mask eu \<longleftrightarrow> (\<exists>u. x \<in> map_fields m u)"
    using w unfolding wf_bucket_multi_iff by blast
  show "\<And>u. bucket_fields eu u = map_fields m u"
    using assms(2) by (simp add: bucket_fields_def map_fields_def)
qed

lemma wf_bucket_multi_set:
  assumes "sorted_wrt (<) (map fst pm)"
    and "\<forall>x. x \<in> s \<longleftrightarrow> (\<exists>u. x \<in> map_fields pm u)"
    and "map_fields pm p \<subseteq> fm"
  shows "wf_bucket \<lparr>user_mask = s \<union> fm, users = multi_users (map_set p fm pm)\<rparr>"
proof -
  have "x \<in> s \<union> fm \<longleftrightarrow> (\<exists>u. x \<in> map_fields (map_set p fm pm) u)" for x
  proof
    assume "x \<in> s \<union> fm"
    then show "\<exists>u. x \<in> map_fields (map_set p fm pm) u"
    proof
      assume "x \<in> s"
      then obtain u where u: "x \<in> map_fields pm u" using assms(2) by blast
      show ?thesis
      proof (cases "u = p")
        case True
        then have "x \<in> map_fields (map_set p fm pm) p"
          using u assms(3) by (auto simp: map_fields_map_set)
        then show ?thesis ..
      next
        case False
        then have "x \<in> map_fields (map_set p fm pm) u"
          using u by (simp add: map_fields_map_set)
        then show ?thesis ..
      qed
    next
      assume "x \<in> fm"
      then have "x \<in> map_fields (map_set p fm pm) p" by (simp add: map_fields_map_set)
      then show ?thesis ..
    qed
  next
    assume "\<exists>u. x \<in> map_fields (map_set p fm pm) u"
    then obtain u where u: "x \<in> map_fields (map_set p fm pm) u" ..
    show "x \<in> s \<union> fm"
    proof (cases "u = p")
      case True
      then show ?thesis using u by (simp add: map_fields_map_set)
    next
      case False
      then have "x \<in> map_fields pm u" using u by (simp add: map_fields_map_set)
      then show ?thesis using assms(2) by blast
    qed
  qed
  then show ?thesis
    unfolding wf_bucket_multi_iff using sorted_map_set [OF assms(1)] by blast
qed

lemma same_tables_if_ref:
  "same_tables w (if c then w else add_reference p w)"
  "same_tables w (if c then remove_reference p w else w)"
  by simp_all

lemma filter_current_single_flag:
  "fst (filter_current_single ev user cmask so v) = (cmask = {})"
  by (simp add: filter_current_single_def Let_def split: option.splits Users.splits)

lemma filter_current_single_migrated:
  assumes wf: "wf_table (previous_epoch_users v)"
  shows "migrated ev (\<lambda>u. if user = u then so else {}) v
           (snd (filter_current_single ev user cmask so v))"
proof (cases "map_of (previous_epoch_users v) ev")
  case None
  let ?pb = "\<lparr>user_mask = so, users = single_user user\<rparr>"
  have r: "snd (filter_current_single ev user cmask so v) =
      (if cmask = {} then set_previous ev ?pb v else add_reference user (set_previous ev ?pb v))"
    using None by (simp add: filter_current_single_def Let_def)
  show ?thesis
  proof (rule migratedI [where ?v0.0 = v and pb = ?pb])
    show "same_tables v v" by simp
    show "same_tables (set_previous ev ?pb v) (snd (filter_current_single ev user cmask so v))"
      unfolding r by (rule same_tables_if_ref)
    show "wf_bucket ?pb" by simp
    show "\<And>u. bucket_fields ?pb u =
        user_fields (previous_epoch_users v) ev u \<union> (if user = u then so else {})"
      by (simp add: user_fields_None [OF None])
  qed
next
  case (Some prev_users)
  note wfp = wf_table_lookup [OF wf Some]
  note uf = user_fields_Some [OF Some]
  show ?thesis
  proof (cases "users prev_users")
    case (single_user prev_user)
    have bf: "bucket_fields prev_users u = (if prev_user = u then user_mask prev_users else {})" for u
      using single_user by (simp add: bucket_fields_def)
    show ?thesis
    proof (cases "prev_user = user")
      case True
      let ?pb = "prev_users\<lparr>user_mask := user_mask prev_users \<union> so\<rparr>"
      have r: "snd (filter_current_single ev user cmask so v) =
          (if cmask = {} then remove_reference user (set_previous ev ?pb v)
           else set_previous ev ?pb v)"
        using Some single_user True by (simp add: filter_current_single_def Let_def)
      show ?thesis
      proof (rule migratedI [where ?v0.0 = v and pb = ?pb])
        show "same_tables v v" by simp
        show "same_tables (set_previous ev ?pb v) (snd (filter_current_single ev user cmask so v))"
          unfolding r by (rule same_tables_if_ref)
        show "wf_bucket ?pb" using single_user by (simp add: wf_bucket_def)
        show "\<And>u. bucket_fields ?pb u =
            user_fields (previous_epoch_users v) ev u \<union> (if user = u then so else {})"
          unfolding uf bf using single_user True by (simp add: bucket_fields_def)
      qed
    next
      case False
      let ?nm = "map_set user so (map_set prev_user (user_mask prev_users) [])"
      let ?pb = "\<lparr>user_mask = user_mask prev_users \<union> so, users = multi_users ?nm\<rparr>"
      have r: "snd (filter_current_single ev user cmask so v) =
          (if cmask = {} then set_previous ev ?pb v
           else add_reference user (set_previous ev ?pb v))"
        using Some single_user False by (simp add: filter_current_single_def Let_def)
      have w0: "wf_bucket \<lparr>user_mask = {} \<union> user_mask prev_users,
          users = multi_users (map_set prev_user (user_mask prev_users) [])\<rparr>"
        by (rule wf_bucket_multi_set) simp_all
      have s1: "sorted_wrt (<) (map fst (map_set prev_user (user_mask prev_users) []))"
        by simp
      have c1: "\<forall>x. x \<in> user_mask prev_users \<longleftrightarrow>
          (\<exists>u. x \<in> map_fields (map_set prev_user (user_mask prev_users) []) u)"
        using w0 unfolding wf_bucket_multi_iff by simp
      have m1: "map_fields (map_set prev_user (user_mask prev_users) []) user \<subseteq> so"
        using False by (simp only: map_fields_map_set map_fields_Nil) simp
      show ?thesis
      proof (rule migratedI [where ?v0.0 = v and pb = ?pb])
        show "same_tables v v" by simp
        show "same_tables (set_previous ev ?pb v) (snd (filter_current_single ev user cmask so v))"
          unfolding r by (rule same_tables_if_ref)
        show "wf_bucket ?pb" by (rule wf_bucket_multi_set [OF s1 c1 m1])
        show "\<And>u. bucket_fields ?pb u =
            user_fields (previous_epoch_users v) ev u \<union> (if user = u then so else {})"
        proof -
          fix u
          have "bucket_fields ?pb u = map_fields ?nm u"
            by (rule bucket_fields_multi)
          also have "\<dots> = (if u = user then so else if u = prev_user then user_mask prev_users else {})"
            by (simp only: map_fields_map_set map_fields_Nil)
          also have "\<dots> = bucket_fields prev_users u \<union> (if user = u then so else {})"
            unfolding bf using False by auto
          finally show "bucket_fields ?pb u =
            user_fields (previous_epoch_users v) ev u \<union> (if user = u then so else {})"
            unfolding uf .
        qed
      qed
    qed
  next
    case (multi_users pm)
    note w = wf_multi_pointwise [OF wfp multi_users]
    let ?fm = "map_fields pm user \<union> so"
    let ?pb = "\<lparr>user_mask = user_mask prev_users \<union> ?fm, users = multi_users (map_set user ?fm pm)\<rparr>"
    have sub: "map_fields pm user \<subseteq> user_mask prev_users"
      using w(2) by blast
    then have um: "user_mask prev_users \<union> ?fm = user_mask prev_users \<union> so"
      by blast
    have r: "snd (filter_current_single ev user cmask so v) =
        (case map_of pm user of
           None \<Rightarrow> (if cmask = {} then set_previous ev ?pb v
                    else add_reference user (set_previous ev ?pb v))
         | Some fm \<Rightarrow> (if cmask = {} then remove_reference user (set_previous ev ?pb v)
                    else set_previous ev ?pb v))"
      using Some multi_users unfolding um
      by (simp add: filter_current_single_def Let_def map_fields_def split: option.splits)
    show ?thesis
    proof (rule migratedI [where ?v0.0 = v and pb = ?pb])
      show "same_tables v v" by simp
      show "same_tables (set_previous ev ?pb v) (snd (filter_current_single ev user cmask so v))"
        unfolding r by (cases "map_of pm user") (simp_all add: same_tables_if_ref)
      show "wf_bucket ?pb" by (rule wf_bucket_multi_set [OF w(1) w(2)]) simp
      show "\<And>u. bucket_fields ?pb u =
          user_fields (previous_epoch_users v) ev u \<union> (if user = u then so else {})"
        unfolding uf w(3) by (simp add: map_fields_map_set)
    qed
  qed
qed

lemma wf_bucket_pointwise:
  assumes "sorted_wrt (<) (map fst m)"
    and "\<And>x. x \<in> s \<longleftrightarrow> (\<exists>u. x \<in> map_fields m u)"
  shows "wf_bucket \<lparr>user_mask = s, users = multi_users m\<rparr>"
  unfolding wf_bucket_multi_iff using assms by blast

lemma filter_current_whole_migrated:
  assumes wf: "wf_table (previous_epoch_users v)"
    and s: "sorted_wrt (<) (map fst cm)"
    and sum: "\<forall>x. x \<in> so \<longleftrightarrow> (\<exists>u. x \<in> map_fields cm u)"
  shows "migrated ev (map_fields cm) v (filter_current_whole ev cm so v)"
proof (cases "map_of (previous_epoch_users v) ev")
  case None
  let ?pb = "\<lparr>user_mask = so, users = multi_users cm\<rparr>"
  have r: "filter_current_whole ev cm so v = set_previous ev ?pb v"
    using None by (simp add: filter_current_whole_def)
  show ?thesis
  proof (rule migratedI [where ?v0.0 = v and pb = ?pb])
    show "same_tables v v" by simp
    show "same_tables (set_previous ev ?pb v) (filter_current_whole ev cm so v)"
      unfolding r by simp
    show "wf_bucket ?pb" using s sum by (intro wf_bucket_pointwise) blast+
    show "\<And>u. bucket_fields ?pb u = user_fields (previous_epoch_users v) ev u \<union> map_fields cm u"
      by (simp add: user_fields_None [OF None])
  qed
next
  case (Some prev_users)
  note wfp = wf_table_lookup [OF wf Some]
  note uf = user_fields_Some [OF Some]
  show ?thesis
  proof (cases "users prev_users")
    case (single_user prev_user)
    have bf: "bucket_fields prev_users u = (if prev_user = u then user_mask prev_users else {})" for u
      using single_user by (simp add: bucket_fields_def)
    let ?fm = "map_fields cm prev_user \<union> user_mask prev_users"
    let ?pb = "\<lparr>user_mask = user_mask prev_users \<union> so,
               users = multi_users (map_set prev_user ?fm cm)\<rparr>"
    have r: "filter_current_whole ev cm so v =
        (case map_of cm prev_user of None \<Rightarrow> set_previous ev ?pb v
         | Some fm \<Rightarrow> remove_reference prev_user (set_previous ev ?pb v))"
      using Some single_user
      by (simp add: filter_current_whole_def map_fields_def split: option.splits)
    have sub: "map_fields cm prev_user \<subseteq> so" using sum by blast
    then have eq: "so \<union> ?fm = user_mask prev_users \<union> so" by blast
    have w: "wf_bucket \<lparr>user_mask = so \<union> ?fm, users = multi_users (map_set prev_user ?fm cm)\<rparr>"
      by (rule wf_bucket_multi_set [OF s sum]) simp
    show ?thesis
    proof (rule migratedI [where ?v0.0 = v and pb = ?pb])
      show "same_tables v v" by simp
      show "same_tables (set_previous ev ?pb v) (filter_current_whole ev cm so v)"
        unfolding r by (cases "map_of cm prev_user") simp_all
      show "wf_bucket ?pb" using w unfolding eq .
      show "\<And>u. bucket_fields ?pb u = user_fields (previous_epoch_users v) ev u \<union> map_fields cm u"
      proof -
        fix u
        have "bucket_fields ?pb u = map_fields (map_set prev_user ?fm cm) u"
          by (rule bucket_fields_multi)
        also have "\<dots> = (if u = prev_user then ?fm else map_fields cm u)"
          by (rule map_fields_map_set)
        also have "\<dots> = bucket_fields prev_users u \<union> map_fields cm u"
          unfolding bf by auto
        finally show "bucket_fields ?pb u =
            user_fields (previous_epoch_users v) ev u \<union> map_fields cm u"
          unfolding uf .
      qed
    qed
  next
    case (multi_users pm)
    note w = wf_multi_pointwise [OF wfp multi_users]
    from fold_merge_back [OF s, of pm v] obtain pm1 v1 where
      f: "fold merge_back_step cm (pm, v) = (pm1, v1)" and st: "same_tables v v1"
      and so1: "sorted_wrt (<) (map fst pm) \<longrightarrow> sorted_wrt (<) (map fst pm1)"
      and mf: "\<forall>u. map_fields pm1 u = map_fields pm u \<union> map_fields cm u"
      by blast
    let ?pb = "\<lparr>user_mask = user_mask prev_users \<union> so, users = multi_users pm1\<rparr>"
    have r: "filter_current_whole ev cm so v = set_previous ev ?pb v1"
      using Some multi_users f by (simp add: filter_current_whole_def)
    show ?thesis
    proof (rule migratedI [where ?v0.0 = v1 and pb = ?pb])
      show "same_tables v v1" by (rule st)
      show "same_tables (set_previous ev ?pb v1) (filter_current_whole ev cm so v)"
        unfolding r by simp
      show "wf_bucket ?pb"
      proof (rule wf_bucket_pointwise)
        show "sorted_wrt (<) (map fst pm1)" using so1 w(1) by blast
        show "\<And>x. x \<in> user_mask prev_users \<union> so \<longleftrightarrow> (\<exists>u. x \<in> map_fields pm1 u)"
          using w(2) sum mf by blast
      qed
      show "\<And>u. bucket_fields ?pb u = user_fields (previous_epoch_users v) ev u \<union> map_fields cm u"
        unfolding uf w(3) using mf by simp
    qed
  qed
qed

lemma fold_send_back_new_start:
  assumes s: "sorted_wrt (<) (map fst cm)"
  shows "\<exists>nm1 v1. fold (send_back_new_step so) cm ([], [], [], v) =
        (nm1, masks_left so cm, emptied so cm, v1) \<and>
     same_tables v v1 \<and> sorted_wrt (<) (map fst nm1) \<and>
     (\<forall>u. map_fields nm1 u = so \<inter> map_fields cm u)"
proof -
  have e: "\<forall>p \<in> set (map fst cm). map_fields [] p = {}" by simp
  note F = fold_send_back_new [OF s e, of so "[]" "[]" v, unfolded append_Nil,
      folded masks_left_def emptied_def]
  then show ?thesis by simp
qed

lemma fold_send_back_start:
  assumes s: "sorted_wrt (<) (map fst cm)" and sp: "sorted_wrt (<) (map fst pm)"
  shows "\<exists>pm1 v1. fold (send_back_step so) cm (pm, [], [], v) =
        (pm1, masks_left so cm, emptied so cm, v1) \<and>
     same_tables v v1 \<and> sorted_wrt (<) (map fst pm1) \<and>
     (\<forall>u. map_fields pm1 u = map_fields pm u \<union> (so \<inter> map_fields cm u))"
proof -
  note F = fold_send_back [OF s, of so pm "[]" "[]" v, unfolded append_Nil,
      folded masks_left_def emptied_def]
  then show ?thesis using sp by simp
qed

lemma filter_current_partial_migrated:
  assumes wf: "wf_table (previous_epoch_users v)"
    and s: "sorted_wrt (<) (map fst cm)"
    and cmw: "\<forall>x. x \<in> cmask \<longleftrightarrow> (\<exists>u. x \<in> map_fields cm u - so)"
    and sow: "\<forall>x. x \<in> so \<longleftrightarrow> (\<exists>u. x \<in> so \<inter> map_fields cm u)"
  shows "\<exists>cur' v1. filter_current_partial ev cm cmask so v = (cur', v1) \<and>
           wf_bucket cur' \<and> (\<forall>u. bucket_fields cur' u = map_fields cm u - so) \<and>
           migrated ev (\<lambda>u. so \<inter> map_fields cm u) v v1"
proof -
  let ?cur = "collapse_current cmask (masks_left so cm) (emptied so cm)"
  note cw = collapse_current_wf [OF s cmw]
  have cf: "\<forall>u. bucket_fields ?cur u = map_fields cm u - so"
    using collapse_current_fields [OF s] by blast
  have "\<exists>v1. filter_current_partial ev cm cmask so v = (?cur, v1) \<and>
           migrated ev (\<lambda>u. so \<inter> map_fields cm u) v v1"
  proof (cases "map_of (previous_epoch_users v) ev")
    case None
    from fold_send_back_new_start [OF s, of so v] obtain nm1 v1 where
      f: "fold (send_back_new_step so) cm ([], [], [], v) =
          (nm1, masks_left so cm, emptied so cm, v1)"
      and st: "same_tables v v1" and sn: "sorted_wrt (<) (map fst nm1)"
      and mf: "\<forall>u. map_fields nm1 u = so \<inter> map_fields cm u"
      by blast
    let ?pb = "\<lparr>user_mask = so, users = multi_users nm1\<rparr>"
    have r: "filter_current_partial ev cm cmask so v = (?cur, set_previous ev ?pb v1)"
      using None f by (simp add: filter_current_partial_def)
    have "migrated ev (\<lambda>u. so \<inter> map_fields cm u) v (set_previous ev ?pb v1)"
    proof (rule migratedI [where ?v0.0 = v1 and pb = ?pb])
      show "same_tables v v1" by (rule st)
      show "same_tables (set_previous ev ?pb v1) (set_previous ev ?pb v1)" by simp
      show "wf_bucket ?pb"
      proof (rule wf_bucket_pointwise [OF sn])
        show "\<And>x. x \<in> so \<longleftrightarrow> (\<exists>u. x \<in> map_fields nm1 u)"
          using sow mf by blast
      qed
      show "\<And>u. bucket_fields ?pb u =
          user_fields (previous_epoch_users v) ev u \<union> (so \<inter> map_fields cm u)"
        using mf by (simp add: user_fields_None [OF None])
    qed
    then show ?thesis using r by blast
  next
    case (Some prev_users)
    note wfp = wf_table_lookup [OF wf Some]
    note uf = user_fields_Some [OF Some]
    show ?thesis
    proof (cases "users prev_users")
      case (single_user prev_user)
      have bf: "bucket_fields prev_users u =
          (if prev_user = u then user_mask prev_users else {})" for u
        using single_user by (simp add: bucket_fields_def)
      from fold_send_back_new_start [OF s, of so v] obtain nm1 v1 where
        f: "fold (send_back_new_step so) cm ([], [], [], v) =
            (nm1, masks_left so cm, emptied so cm, v1)"
        and st: "same_tables v v1" and sn: "sorted_wrt (<) (map fst nm1)"
        and mf: "\<forall>u. map_fields nm1 u = so \<inter> map_fields cm u"
        by blast
      let ?fm = "map_fields nm1 prev_user \<union> user_mask prev_users"
      let ?pb = "\<lparr>user_mask = user_mask prev_users \<union> so,
                 users = multi_users (map_set prev_user ?fm nm1)\<rparr>"
      let ?v2 = "case map_of nm1 prev_user of None \<Rightarrow> set_previous ev ?pb v1
           | Some fm \<Rightarrow> remove_reference prev_user (set_previous ev ?pb v1)"
      have r: "filter_current_partial ev cm cmask so v = (?cur, ?v2)"
        using Some single_user f
        by (simp add: filter_current_partial_def map_fields_def split: option.splits)
      have sum: "\<forall>x. x \<in> so \<longleftrightarrow> (\<exists>u. x \<in> map_fields nm1 u)"
        using sow mf by blast
      then have sub: "map_fields nm1 prev_user \<subseteq> so" by blast
      then have eq: "so \<union> ?fm = user_mask prev_users \<union> so" by blast
      have w: "wf_bucket \<lparr>user_mask = so \<union> ?fm,
          users = multi_users (map_set prev_user ?fm nm1)\<rparr>"
        by (rule wf_bucket_multi_set [OF sn sum]) simp
      have "migrated ev (\<lambda>u. so \<inter> map_fields cm u) v ?v2"
      proof (rule migratedI [where ?v0.0 = v1 and pb = ?pb])
        show "same_tables v v1" by (rule st)
        show "same_tables (set_previous ev ?pb v1) ?v2"
          by (cases "map_of nm1 prev_user") simp_all
        show "wf_bucket ?pb" using w unfolding eq .
        show "\<And>u. bucket_fields ?pb u =
            user_fields (previous_epoch_users v) ev u \<union> (so \<inter> map_fields cm u)"
        proof -
          fix u
          have "bucket_fields ?pb u = map_fields (map_set prev_user ?fm nm1) u"
            by (rule bucket_fields_multi)
          also have "\<dots> = (if u = prev_user then ?fm else map_fields nm1 u)"
            by (rule map_fields_map_set)
          also have "\<dots> = bucket_fields prev_users u \<union> map_fields nm1 u"
            unfolding bf by auto
          also have "\<dots> = bucket_fields prev_users u \<union> (so \<inter> map_fields cm u)"
            using mf by simp
          finally show "bucket_fields ?pb u =
              user_fields (previous_epoch_users v) ev u \<union> (so \<inter> map_fields cm u)"
            unfolding uf .
        qed
      qed
      then show ?thesis using r by blast
    next
      case (multi_users pm)
      note w = wf_multi_pointwise [OF wfp multi_users]
      from fold_send_back_start [OF s w(1), of so v] obtain pm1 v1 where
        f: "fold (send_back_step so) cm (pm, [], [], v) =
            (pm1, masks_left so cm, emptied so cm, v1)"
        and st: "same_tables v v1" and sn: "sorted_wrt (<) (map fst pm1)"
        and mf: "\<forall>u. map_fields pm1 u = map_fields pm u \<union> (so \<inter> map_fields cm u)"
        by blast
      let ?pb = "\<lparr>user_mask = user_mask prev_users \<union> so, users = multi_users pm1\<rparr>"
      have r: "filter_current_partial ev cm cmask so v = (?cur, set_previous ev ?pb v1)"
        using Some multi_users f by (simp add: filter_current_partial_def)
      have "migrated ev (\<lambda>u. so \<inter> map_fields cm u) v (set_previous ev ?pb v1)"
      proof (rule migratedI [where ?v0.0 = v1 and pb = ?pb])
        show "same_tables v v1" by (rule st)
        show "same_tables (set_previous ev ?pb v1) (set_previous ev ?pb v1)" by simp
        show "wf_bucket ?pb"
        proof (rule wf_bucket_pointwise [OF sn])
          show "\<And>x. x \<in> user_mask prev_users \<union> so \<longleftrightarrow> (\<exists>u. x \<in> map_fields pm1 u)"
            using w(2) sow mf by blast
        qed
        show "\<And>u. bucket_fields ?pb u =
            user_fields (previous_epoch_users v) ev u \<union> (so \<inter> map_fields cm u)"
          unfolding uf w(3) using mf by simp
      qed
      then show ?thesis using r by blast
    qed
  qed
  then show ?thesis using cw cf by blast
qed

lemma migrated_entry_post:
  assumes m: "migrated e moved v v1" and wf: "wf_table (previous_epoch_users v)"
  shows "entry_post e moved v v1"
proof -
  from m obtain pb where ef: "entry_frame v v1"
    and p: "previous_epoch_users v1 = map_set e pb (previous_epoch_users v)"
    and w: "wf_bucket pb"
    and f: "\<forall>u. bucket_fields pb u = user_fields (previous_epoch_users v) e u \<union> moved u"
    unfolding migrated_def by blast
  have "wf_table (previous_epoch_users v1)"
    unfolding p by (rule wf_table_map_set [OF wf w])
  moreover have "set (map fst (previous_epoch_users v1)) \<subseteq>
      insert e (set (map fst (previous_epoch_users v)))"
    unfolding p keys_map_set by simp
  moreover have "user_fields (previous_epoch_users v1) e' u =
      user_fields (previous_epoch_users v) e' u \<union> (if e' = e then moved u else {})" for e' u
    unfolding p user_fields_map_set using f by simp
  ultimately show ?thesis using ef unfolding entry_post_def by blast
qed

lemma entry_post_same:
  assumes "same_tables v v1" and "wf_table (previous_epoch_users v)"
    and "\<And>u. moved u = {}"
  shows "entry_post e moved v v1"
proof -
  have p: "previous_epoch_users v1 = previous_epoch_users v"
    using assms(1) by (simp add: same_tables_def)
  show ?thesis
    unfolding entry_post_def p
    using same_tables_entry_frame [OF assms(1)] assms(2,3) by auto
qed

lemma entry_post_cong:
  assumes "entry_post e moved v v1" and "\<And>u. moved u = moved' u"
  shows "entry_post e moved' v v1"
proof -
  have "moved = moved'" using assms(2) by (rule ext)
  then show ?thesis using assms(1) by simp
qed

lemma filter_current_entry_post:
  assumes wfp: "wf_table (previous_epoch_users v)" and wfc: "wf_bucket cur"
  shows "\<exists>kept v1. filter_current_entry ht d (e, cur) v = (kept, v1) \<and>
     entry_post e (\<lambda>u. if ht e then {} else bucket_fields cur u \<inter> d) v v1 \<and>
     (kept = None \<longleftrightarrow> ht e \<or> (user_mask cur \<inter> d \<noteq> {} \<and> user_mask cur \<subseteq> d)) \<and>
     (\<forall>entry. kept = Some entry \<longrightarrow> fst entry = e \<and> wf_bucket (snd entry) \<and>
        (\<forall>u. bucket_fields (snd entry) u = bucket_fields cur u - d))"
proof (cases "ht e")
  case True
  have r: "filter_current_entry ht d (e, cur) v = (None, release_users cur v)"
    using True by (simp add: filter_current_entry_def)
  have "entry_post e (\<lambda>u. if ht e then {} else bucket_fields cur u \<inter> d) v (release_users cur v)"
    by (rule entry_post_same [OF same_tables_release_users wfp]) (simp add: True)
  then show ?thesis unfolding r using True by simp
next
  case nt: False
  note sub = wf_bucket_fields_subset [OF wfc]
  show ?thesis
  proof (cases "user_mask cur \<inter> d = {}")
    case True
    have r: "filter_current_entry ht d (e, cur) v = (Some (e, cur), v)"
      using nt True by (simp add: filter_current_entry_def)
    have z: "bucket_fields cur u \<inter> d = {}" for u using sub [of u] True by blast
    have "entry_post e (\<lambda>u. if ht e then {} else bucket_fields cur u \<inter> d) v v"
      by (rule entry_post_same [OF same_tables_refl wfp]) (simp add: z)
    moreover have "bucket_fields cur u = bucket_fields cur u - d" for u
      using z [of u] by blast
    ultimately show ?thesis unfolding r using nt True wfc by simp
  next
    case ov: False
    define so where "so = user_mask cur \<inter> d"
    define cmask where "cmask = user_mask cur - so"
    have cme: "cmask = {} \<longleftrightarrow> user_mask cur \<subseteq> d" unfolding cmask_def so_def by blast
    show ?thesis
    proof (cases "users cur")
      case (single_user user)
      have bf: "bucket_fields cur u = (if user = u then user_mask cur else {})" for u
        using single_user by (simp add: bucket_fields_def)
      obtain flag v1 where fs: "filter_current_single e user cmask so v = (flag, v1)"
        by (cases "filter_current_single e user cmask so v")
      have fl: "flag = (cmask = {})"
        using filter_current_single_flag [of e user cmask so v] fs by simp
      have mg: "migrated e (\<lambda>u. if user = u then so else {}) v v1"
        using filter_current_single_migrated [OF wfp, of e user so cmask] fs by simp
      let ?kept = "if flag then None else Some (e, cur\<lparr>user_mask := cmask\<rparr>)"
      have r: "filter_current_entry ht d (e, cur) v = (?kept, v1)"
        using nt ov single_user fs [unfolded so_def cmask_def]
        by (simp add: filter_current_entry_def Let_def cmask_def so_def)
      have ep: "entry_post e (\<lambda>u. if ht e then {} else bucket_fields cur u \<inter> d) v v1"
        by (rule entry_post_cong [OF migrated_entry_post [OF mg wfp]])
          (simp add: nt bf so_def)
      have k1: "?kept = None \<longleftrightarrow> ht e \<or> (user_mask cur \<inter> d \<noteq> {} \<and> user_mask cur \<subseteq> d)"
        using nt ov fl cme by simp
      have k2: "\<forall>entry. ?kept = Some entry \<longrightarrow> fst entry = e \<and> wf_bucket (snd entry) \<and>
          (\<forall>u. bucket_fields (snd entry) u = bucket_fields cur u - d)"
      proof (intro allI impI)
        fix entry assume "?kept = Some entry"
        then have en: "entry = (e, cur\<lparr>user_mask := cmask\<rparr>)"
          by (cases flag) simp_all
        have w: "wf_bucket (cur\<lparr>user_mask := cmask\<rparr>)"
          using single_user by (simp add: wf_bucket_def)
        have "bucket_fields (cur\<lparr>user_mask := cmask\<rparr>) u = bucket_fields cur u - d" for u
          unfolding bf using single_user by (auto simp: bucket_fields_def cmask_def so_def)
        then show "fst entry = e \<and> wf_bucket (snd entry) \<and>
          (\<forall>u. bucket_fields (snd entry) u = bucket_fields cur u - d)"
          unfolding en using w by simp
      qed
      show ?thesis unfolding r using ep k1 k2 by blast
    next
      case (multi_users cm)
      note w = wf_multi_pointwise [OF wfc multi_users]
      have subm: "map_fields cm u \<subseteq> user_mask cur" for u using w(2) by blast
      show ?thesis
      proof (cases "cmask = {}")
        case True
        then have all: "user_mask cur \<subseteq> d" using cme by simp
        then have soe: "so = user_mask cur" unfolding so_def by blast
        have r: "filter_current_entry ht d (e, cur) v = (None, filter_current_whole e cm so v)"
          using nt ov multi_users True [unfolded cmask_def so_def]
          by (simp add: filter_current_entry_def Let_def so_def)
        have sum: "\<forall>x. x \<in> so \<longleftrightarrow> (\<exists>u. x \<in> map_fields cm u)"
          unfolding soe using w(2) .
        have mg: "migrated e (map_fields cm) v (filter_current_whole e cm so v)"
          by (rule filter_current_whole_migrated [OF wfp w(1) sum])
        have mv: "map_fields cm u = (if ht e then {} else bucket_fields cur u \<inter> d)" for u
          unfolding w(3) using nt subm [of u] all by auto
        have ep: "entry_post e (\<lambda>u. if ht e then {} else bucket_fields cur u \<inter> d) v
            (filter_current_whole e cm so v)"
          by (rule entry_post_cong [OF migrated_entry_post [OF mg wfp] mv])
        show ?thesis unfolding r using ep nt ov all by simp
      next
        case False
        then have nall: "\<not> user_mask cur \<subseteq> d" using cme by simp
        have cmw: "\<forall>x. x \<in> cmask \<longleftrightarrow> (\<exists>u. x \<in> map_fields cm u - so)"
          unfolding cmask_def using w(2) by blast
        have sow: "\<forall>x. x \<in> so \<longleftrightarrow> (\<exists>u. x \<in> so \<inter> map_fields cm u)"
          unfolding so_def using w(2) by blast
        from filter_current_partial_migrated [OF wfp w(1) cmw sow, of e]
        obtain cur' v1 where fp: "filter_current_partial e cm cmask so v = (cur', v1)"
          and wc: "wf_bucket cur'"
          and cf: "\<forall>u. bucket_fields cur' u = map_fields cm u - so"
          and mg: "migrated e (\<lambda>u. so \<inter> map_fields cm u) v v1"
          by blast
        have r: "filter_current_entry ht d (e, cur) v = (Some (e, cur'), v1)"
          using nt ov multi_users False [unfolded cmask_def so_def] fp [unfolded cmask_def so_def]
          by (simp add: filter_current_entry_def Let_def)
        have mv: "so \<inter> map_fields cm u = (if ht e then {} else bucket_fields cur u \<inter> d)" for u
          unfolding w(3) so_def using nt subm [of u] by auto
        have ep: "entry_post e (\<lambda>u. if ht e then {} else bucket_fields cur u \<inter> d) v v1"
          by (rule entry_post_cong [OF migrated_entry_post [OF mg wfp] mv])
        have "bucket_fields cur' u = bucket_fields cur u - d" for u
          unfolding w(3) using cf subm [of u] unfolding so_def by auto
        then show ?thesis unfolding r using ep nt ov nall wc by simp
      qed
    qed
  qed
qed

lemma user_fields_Nil [simp]: "user_fields [] e u = {}"
  by (simp add: user_fields_def)

lemma user_fields_Cons:
  "user_fields ((e, cur) # rest) e' u =
     (if e' = e then bucket_fields cur u else user_fields rest e' u)"
  by (simp add: user_fields_def)

lemma user_fields_absent:
  assumes "e \<notin> set (map fst t)"
  shows "user_fields t e u = {}"
proof -
  have "map_of t e = None" using assms by (simp add: map_of_eq_None_iff)
  then show ?thesis by (rule user_fields_None)
qed

lemma wf_table_Nil [simp]: "wf_table []"
  by (simp add: wf_table_def)

lemma wf_table_ConsD:
  assumes "wf_table ((e, cur) # rest)"
  shows "wf_bucket cur" and "wf_table rest" and "e \<notin> set (map fst rest)"
    and "\<forall>k \<in> set (map fst rest). e < k"
  using assms by (auto simp: wf_table_def)

lemma wf_table_ConsI:
  assumes "wf_bucket cur" and "wf_table rest" and "\<forall>k \<in> set (map fst rest). e < k"
  shows "wf_table ((e, cur) # rest)"
  using assms by (auto simp: wf_table_def)

lemma loop_post_Nil: "wf_table (previous_epoch_users v) \<Longrightarrow> loop_post ht d [] v [] v"
  by (simp add: loop_post_def)

lemma loop_post_Cons:
  assumes wfc: "wf_table ((e, cur) # rest)"
    and ep: "entry_post e (\<lambda>u. if ht e then {} else bucket_fields cur u \<inter> d) v v1"
    and k1: "kept = None \<longleftrightarrow> erased ht d (e, cur)"
    and k2: "\<forall>entry. kept = Some entry \<longrightarrow> fst entry = e \<and> wf_bucket (snd entry) \<and>
        (\<forall>u. bucket_fields (snd entry) u = bucket_fields cur u - d)"
    and lp: "loop_post ht d rest v1 kept_rest v2"
  shows "loop_post ht d ((e, cur) # rest) v
           (case kept of None \<Rightarrow> kept_rest | Some entry \<Rightarrow> entry # kept_rest) v2"
proof -
  let ?res = "case kept of None \<Rightarrow> kept_rest | Some entry \<Rightarrow> entry # kept_rest"
  note c = wf_table_ConsD [OF wfc]
  have e1: "entry_frame v v1"
    and e3: "set (map fst (previous_epoch_users v1)) \<subseteq>
        insert e (set (map fst (previous_epoch_users v)))"
    and e4: "\<And>e' u. user_fields (previous_epoch_users v1) e' u =
          user_fields (previous_epoch_users v) e' u \<union>
          (if e' = e then (if ht e then {} else bucket_fields cur u \<inter> d) else {})"
    using ep unfolding entry_post_def by blast+
  have l1: "entry_frame v1 v2" and l2: "wf_table (previous_epoch_users v2)"
    and l3: "wf_table kept_rest"
    and l4: "set (map fst (previous_epoch_users v2)) \<subseteq>
        set (map fst rest) \<union> set (map fst (previous_epoch_users v1))"
    and l5: "map fst kept_rest = map fst (filter (\<lambda>cit. \<not> erased ht d cit) rest)"
    and l6: "\<And>e' u. user_fields (previous_epoch_users v2) e' u =
          user_fields (previous_epoch_users v1) e' u \<union>
          (if ht e' then {} else user_fields rest e' u \<inter> d)"
    and l7: "\<And>e' u. user_fields kept_rest e' u =
          (if ht e' then {} else user_fields rest e' u - d)"
    using lp unfolding loop_post_def by blast+
  have absent: "user_fields rest e u = {}" for u
    by (rule user_fields_absent [OF c(3)])
  have kr: "set (map fst kept_rest) \<subseteq> set (map fst rest)"
    unfolding l5 by auto
  have p1: "entry_frame v v2" by (rule entry_frame_trans [OF e1 l1])
  have p3: "wf_table ?res"
  proof (cases kept)
    case None
    then show ?thesis using l3 by simp
  next
    case (Some entry)
    obtain a b where en: "entry = (a, b)" by (cases entry)
    have "a = e" and "wf_bucket b" using k2 Some en by auto
    moreover have "\<forall>k \<in> set (map fst kept_rest). e < k" using kr c(4) by blast
    ultimately have "wf_table ((a, b) # kept_rest)"
      using l3 by (intro wf_table_ConsI) simp_all
    then show ?thesis using Some en by simp
  qed
  have p4: "set (map fst (previous_epoch_users v2)) \<subseteq>
        set (map fst ((e, cur) # rest)) \<union> set (map fst (previous_epoch_users v))"
    using l4 e3 by auto
  have p5: "map fst ?res = map fst (filter (\<lambda>cit. \<not> erased ht d cit) ((e, cur) # rest))"
  proof (cases kept)
    case None
    then have "erased ht d (e, cur)" using k1 by simp
    then show ?thesis using None l5 by simp
  next
    case (Some entry)
    then have "\<not> erased ht d (e, cur)" using k1 by simp
    moreover have "fst entry = e" using k2 Some by simp
    ultimately show ?thesis using Some l5 by simp
  qed
  have p6: "user_fields (previous_epoch_users v2) e' u =
          user_fields (previous_epoch_users v) e' u \<union>
          (if ht e' then {} else user_fields ((e, cur) # rest) e' u \<inter> d)" for e' u
  proof (cases "e' = e")
    case True
    show ?thesis
      unfolding l6 e4 user_fields_Cons using True absent by auto
  next
    case False
    show ?thesis
      unfolding l6 e4 user_fields_Cons using False by simp
  qed
  have p7: "user_fields ?res e' u =
          (if ht e' then {} else user_fields ((e, cur) # rest) e' u - d)" for e' u
  proof (cases kept)
    case None
    then have er: "erased ht d (e, cur)" using k1 by simp
    have r: "?res = kept_rest" using None by simp
    show ?thesis
    proof (cases "e' = e")
      case True
      have "\<not> ht e \<Longrightarrow> bucket_fields cur u - d = {}"
        using er wf_bucket_fields_subset [OF c(1), of u] unfolding erased_def by auto
      then show ?thesis
        unfolding r l7 user_fields_Cons using True absent by auto
    next
      case False
      then show ?thesis unfolding r l7 user_fields_Cons by simp
    qed
  next
    case (Some entry)
    then have ner: "\<not> erased ht d (e, cur)" using k1 by simp
    then have nt: "\<not> ht e" unfolding erased_def by simp
    obtain a b where en: "entry = (a, b)" by (cases entry)
    have a: "a = e" and b: "bucket_fields b u = bucket_fields cur u - d"
      using k2 Some en by auto
    have r: "?res = (e, b) # kept_rest" using Some en a by simp
    show ?thesis
    proof (cases "e' = e")
      case True
      then show ?thesis unfolding r user_fields_Cons using nt b by simp
    next
      case False
      then show ?thesis unfolding r user_fields_Cons l7 by simp
    qed
  qed
  show ?thesis
    unfolding loop_post_def using p1 l2 p3 p4 p5 p6 p7 by blast
qed

lemma filter_current_loop_post:
  assumes "wf_table cl" and "wf_table (previous_epoch_users v)"
  shows "\<exists>kept v2. filter_current_loop ht d cl v = (kept, v2) \<and> loop_post ht d cl v kept v2"
  using assms
proof (induction cl arbitrary: v)
  case Nil
  then show ?case by (simp add: loop_post_Nil)
next
  case (Cons cit rest)
  obtain e cur where cit: "cit = (e, cur)" by (cases cit)
  have wfc: "wf_table ((e, cur) # rest)" using Cons.prems(1) cit by simp
  note c = wf_table_ConsD [OF wfc]
  from filter_current_entry_post [OF Cons.prems(2) c(1), of ht d e]
  obtain kept v1 where fe: "filter_current_entry ht d (e, cur) v = (kept, v1)"
    and ep: "entry_post e (\<lambda>u. if ht e then {} else bucket_fields cur u \<inter> d) v v1"
    and k1: "kept = None \<longleftrightarrow> ht e \<or> (user_mask cur \<inter> d \<noteq> {} \<and> user_mask cur \<subseteq> d)"
    and k2: "\<forall>entry. kept = Some entry \<longrightarrow> fst entry = e \<and> wf_bucket (snd entry) \<and>
        (\<forall>u. bucket_fields (snd entry) u = bucket_fields cur u - d)"
    by blast
  have wf1: "wf_table (previous_epoch_users v1)" using ep unfolding entry_post_def by blast
  from Cons.IH [OF c(2) wf1] obtain kept_rest v2 where
    fl: "filter_current_loop ht d rest v1 = (kept_rest, v2)"
    and lp: "loop_post ht d rest v1 kept_rest v2"
    by blast
  have k1': "kept = None \<longleftrightarrow> erased ht d (e, cur)"
    using k1 unfolding erased_def by simp
  have r: "filter_current_loop ht d ((e, cur) # rest) v =
      (case kept of None \<Rightarrow> kept_rest | Some entry \<Rightarrow> entry # kept_rest, v2)"
    using fe fl by simp
  show ?case
    unfolding cit r using loop_post_Cons [OF wfc ep k1' k2 lp] by blast
qed

lemma task_analysis_dominated:
  "fst (snd (snd (task_analysis ht cdt usage' term_event child_color umask pre v))) =
     (case task_current_pass ht cdt usage' term_event child_color umask pre v of
        (dead_events, pre1, observed, non_dominated) \<Rightarrow> observed \<inter> (umask - non_dominated))"
  by (simp add: task_analysis_def Let_def split: prod.splits)

lemma copy_analysis_dominated:
  "fst (snd (snd (copy_analysis ht redop' reading copy_mask child_color versions' pre v))) =
     (case copy_current_pass ht redop' reading copy_mask child_color versions' pre v of
        (dead_events, pre1, observed, non_dominated) \<Rightarrow> observed \<inter> (copy_mask - non_dominated))"
  by (simp add: copy_analysis_def Let_def split: prod.splits)

lemma filter_current_users_post:
  assumes wfc: "wf_table (current_epoch_users v)" and wfp: "wf_table (previous_epoch_users v)"
  shows "\<exists>kept v2. filter_current_users ht d v = v2\<lparr>current_epoch_users := kept\<rparr> \<and>
           loop_post ht d (current_epoch_users v) v kept v2"
proof -
  from filter_current_loop_post [OF wfc wfp, of ht d] obtain kept v2 where
    f: "filter_current_loop ht d (current_epoch_users v) v = (kept, v2)"
    and lp: "loop_post ht d (current_epoch_users v) v kept v2"
    by blast
  have r: "filter_current_users ht d v = v2\<lparr>current_epoch_users := kept\<rparr>"
    using f by (simp add: filter_current_users_def)
  show ?thesis using r lp by blast
qed

subsection \<open>What the filters keep\<close>

lemma add_event_user_wf:
  assumes wf: "wf_table t" and fresh: "user_fields t e user \<subseteq> fm"
  shows "wf_table (add_event_user user e fm t)"
proof (cases "map_of t e")
  case None
  have r: "add_event_user user e fm t = map_set e \<lparr>user_mask = fm, users = single_user user\<rparr> t"
    using None by (simp add: add_event_user_def)
  show ?thesis unfolding r by (rule wf_table_map_set [OF wf]) simp
next
  case (Some eu)
  note wfb = wf_table_lookup [OF wf Some]
  have fr: "bucket_fields eu user \<subseteq> fm"
    using fresh unfolding user_fields_Some [OF Some] .
  show ?thesis
  proof (cases "users eu")
    case (single_user u)
    let ?m0 = "map_set u (user_mask eu) []"
    let ?b = "\<lparr>user_mask = user_mask eu \<union> fm, users = multi_users (map_set user fm ?m0)\<rparr>"
    have r: "add_event_user user e fm t = map_set e ?b t"
      using Some single_user by (simp add: add_event_user_def)
    have s0: "sorted_wrt (<) (map fst ?m0)" by simp
    have c0: "\<forall>x. x \<in> user_mask eu \<longleftrightarrow> (\<exists>p. x \<in> map_fields ?m0 p)"
    proof
      fix x
      have "map_fields ?m0 p = (if p = u then user_mask eu else {})" for p
        by (simp only: map_fields_map_set map_fields_Nil)
      then show "x \<in> user_mask eu \<longleftrightarrow> (\<exists>p. x \<in> map_fields ?m0 p)" by auto
    qed
    have "map_fields ?m0 user = (if user = u then user_mask eu else {})"
      by (simp only: map_fields_map_set map_fields_Nil)
    also have "\<dots> = bucket_fields eu user"
      using single_user by (auto simp: bucket_fields_def)
    finally have m0: "map_fields ?m0 user \<subseteq> fm" using fr by simp
    show ?thesis unfolding r
      by (rule wf_table_map_set [OF wf wf_bucket_multi_set [OF s0 c0 m0]])
  next
    case (multi_users m)
    note w = wf_multi_pointwise [OF wfb multi_users]
    let ?b = "\<lparr>user_mask = user_mask eu \<union> fm, users = multi_users (map_set user fm m)\<rparr>"
    have r: "add_event_user user e fm t = map_set e ?b t"
      using Some multi_users by (simp add: add_event_user_def)
    have m0: "map_fields m user \<subseteq> fm" using fr unfolding w(3) .
    show ?thesis unfolding r
      by (rule wf_table_map_set [OF wf wf_bucket_multi_set [OF w(1) w(2) m0]])
  qed
qed

lemma add_event_user_fields:
  assumes wf: "wf_table t" and fresh: "user_fields t e user \<subseteq> fm"
  shows "user_fields (add_event_user user e fm t) e' u =
     (if e' = e \<and> u = user then fm else user_fields t e' u)"
proof (cases "map_of t e")
  case None
  have r: "add_event_user user e fm t = map_set e \<lparr>user_mask = fm, users = single_user user\<rparr> t"
    using None by (simp add: add_event_user_def)
  show ?thesis unfolding r user_fields_map_set
    using user_fields_None [OF None] by (auto simp: bucket_fields_def)
next
  case (Some eu)
  note wfb = wf_table_lookup [OF wf Some]
  note uf = user_fields_Some [OF Some]
  show ?thesis
  proof (cases "users eu")
    case (single_user p)
    let ?m0 = "map_set p (user_mask eu) []"
    let ?b = "\<lparr>user_mask = user_mask eu \<union> fm, users = multi_users (map_set user fm ?m0)\<rparr>"
    have r: "add_event_user user e fm t = map_set e ?b t"
      using Some single_user by (simp add: add_event_user_def)
    have b: "bucket_fields ?b u = (if u = user then fm else if u = p then user_mask eu else {})"
      unfolding bucket_fields_multi by (simp only: map_fields_map_set map_fields_Nil)
    have o: "bucket_fields eu u = (if p = u then user_mask eu else {})"
      using single_user by (simp add: bucket_fields_def)
    show ?thesis unfolding r user_fields_map_set b
      using uf [of u] o by auto
  next
    case (multi_users m)
    note w = wf_multi_pointwise [OF wfb multi_users]
    let ?b = "\<lparr>user_mask = user_mask eu \<union> fm, users = multi_users (map_set user fm m)\<rparr>"
    have r: "add_event_user user e fm t = map_set e ?b t"
      using Some multi_users by (simp add: add_event_user_def)
    have b: "bucket_fields ?b u = (if u = user then fm else map_fields m u)"
      unfolding bucket_fields_multi by (rule map_fields_map_set)
    show ?thesis unfolding r user_fields_map_set b
      using uf [of u] w(3) [of u] by auto
  qed
qed

lemma add_event_user_map_set: "\<exists>b. add_event_user user e fm t = map_set e b t"
  unfolding add_event_user_def by (cases "map_of t e"; cases "users (the (map_of t e))") (simp_all, blast+)

lemma add_event_user_keys:
  "set (map fst (add_event_user user e fm t)) = insert e (set (map fst t))"
proof -
  obtain b where r: "add_event_user user e fm t = map_set e b t"
    using add_event_user_map_set by blast
  show ?thesis unfolding r by (rule keys_map_set)
qed

lemma case_singleton:
  "(case xs of [(user, pm)] \<Rightarrow> f user pm | _ \<Rightarrow> g) =
     (if \<exists>user pm. xs = [(user, pm)] then f (fst (hd xs)) (snd (hd xs)) else g)"
proof (cases xs)
  case Nil
  then show ?thesis by simp
next
  case (Cons a list)
  obtain user pm where a: "a = (user, pm)" by (cases a)
  show ?thesis
  proof (cases list)
    case Nil
    then show ?thesis using Cons a by simp
  next
    case c2: (Cons b list')
    then show ?thesis using Cons a by simp
  qed
qed

lemma map_fields_single: "map_fields [(user, pm)] u = (if user = u then pm else {})"
  by (simp add: map_fields_def)

lemma shrunk_bucket:
  assumes s: "sorted_wrt (<) (map fst rem)"
    and c: "\<forall>x. x \<in> summary \<longleftrightarrow> (\<exists>u. x \<in> map_fields rem u)"
  shows "wf_bucket (if (\<exists>user pm. rem = [(user, pm)]) \<and> b
            then \<lparr>user_mask = snd (hd rem), users = single_user (fst (hd rem))\<rparr>
            else \<lparr>user_mask = summary, users = multi_users rem\<rparr>)"
    and "bucket_fields (if (\<exists>user pm. rem = [(user, pm)]) \<and> b
            then \<lparr>user_mask = snd (hd rem), users = single_user (fst (hd rem))\<rparr>
            else \<lparr>user_mask = summary, users = multi_users rem\<rparr>) u = map_fields rem u"
proof -
  let ?c = "(\<exists>user pm. rem = [(user, pm)]) \<and> b"
  let ?one = "\<lparr>user_mask = snd (hd rem), users = single_user (fst (hd rem))\<rparr>"
  let ?many = "\<lparr>user_mask = summary, users = multi_users rem\<rparr>"
  have wm: "wf_bucket ?many" using s c by (intro wf_bucket_pointwise) blast+
  have wo: "wf_bucket ?one" by simp
  show "wf_bucket (if ?c then ?one else ?many)"
    using wm wo by (cases ?c) simp_all
  have fo: "?c \<Longrightarrow> bucket_fields ?one u = map_fields rem u"
  proof -
    assume ?c
    then obtain user pm where r: "rem = [(user, pm)]" by blast
    show ?thesis unfolding r by (simp add: map_fields_single)
  qed
  show "bucket_fields (if ?c then ?one else ?many) u = map_fields rem u"
  proof (cases ?c)
    case True
    show ?thesis unfolding if_P [OF True] by (rule fo [OF True])
  next
    case False
    show ?thesis unfolding if_not_P [OF False] by (rule bucket_fields_multi)
  qed
qed

lemma cleared_fields:
  assumes "sorted_wrt (<) (map fst m)" and "p \<in> set (cleared m)"
  shows "map_fields m p = {}"
proof -
  from assms(2) obtain it where it: "it \<in> set m" "fst it = p" "snd it = {}"
    unfolding cleared_def by auto
  then show ?thesis using map_fields_in_set [OF assms(1) it(1)] by simp
qed

lemma uncleared_fields:
  assumes "sorted_wrt (<) (map fst m)"
  shows "map_fields (filter (\<lambda>kv. fst kv \<notin> set (cleared m)) m) p = map_fields m p"
proof (cases "p \<in> set (cleared m)")
  case True
  then show ?thesis
    using cleared_fields [OF assms True] by (simp only: map_fields_filter if_True)
next
  case False
  then show ?thesis by (simp only: map_fields_filter if_False)
qed

lemma entry_frame_previous_update:
  assumes "same_tables v v0"
  shows "entry_frame v (v0\<lparr>previous_epoch_users := t\<rparr>)"
  using assms by (simp add: same_tables_def entry_frame_def)

lemma keys_map_erase: "set (map fst (map_erase k m)) \<subseteq> set (map fst m)"
  unfolding set_map set_map_erase by blast

lemma shrink_post_erase:
  assumes st: "same_tables v v0" and wf: "wf_table (previous_epoch_users v)"
    and gone: "\<And>u. user_fields (previous_epoch_users v) e u - f = {}"
  shows "shrink_post e f v (v0\<lparr>previous_epoch_users := map_erase e (previous_epoch_users v)\<rparr>)"
proof -
  let ?v' = "v0\<lparr>previous_epoch_users := map_erase e (previous_epoch_users v)\<rparr>"
  have p: "previous_epoch_users ?v' = map_erase e (previous_epoch_users v)" by simp
  have "user_fields (map_erase e (previous_epoch_users v)) e' u =
          (if e' = e then user_fields (previous_epoch_users v) e u - f
           else user_fields (previous_epoch_users v) e' u)" for e' u
    unfolding user_fields_map_erase using gone [of u] by simp
  then show ?thesis
    unfolding shrink_post_def p
    using entry_frame_previous_update [OF st] wf_table_map_erase [OF wf] keys_map_erase
    by blast
qed

lemma shrink_post_set:
  assumes st: "same_tables v v0" and wf: "wf_table (previous_epoch_users v)"
    and lk: "map_of (previous_epoch_users v) e = Some eu"
    and wb: "wf_bucket b"
    and fb: "\<And>u. bucket_fields b u = bucket_fields eu u - f"
  shows "shrink_post e f v (v0\<lparr>previous_epoch_users := map_set e b (previous_epoch_users v)\<rparr>)"
proof -
  let ?v' = "v0\<lparr>previous_epoch_users := map_set e b (previous_epoch_users v)\<rparr>"
  have p: "previous_epoch_users ?v' = map_set e b (previous_epoch_users v)" by simp
  have "e \<in> set (map fst (previous_epoch_users v))"
    using map_of_SomeD [OF lk] by force
  then have k: "set (map fst (map_set e b (previous_epoch_users v))) \<subseteq>
      set (map fst (previous_epoch_users v))"
    unfolding keys_map_set by simp
  have "user_fields (map_set e b (previous_epoch_users v)) e' u =
          (if e' = e then user_fields (previous_epoch_users v) e u - f
           else user_fields (previous_epoch_users v) e' u)" for e' u
    unfolding user_fields_map_set user_fields_Some [OF lk] using fb [of u] by simp
  then show ?thesis
    unfolding shrink_post_def p
    using entry_frame_previous_update [OF st] wf_table_map_set [OF wf wb] k
    by blast
qed

lemma shrink_post_absent:
  assumes wf: "wf_table (previous_epoch_users v)"
    and lk: "map_of (previous_epoch_users v) e = None"
  shows "shrink_post e f v v"
proof -
  have "user_fields (previous_epoch_users v) e' u =
          (if e' = e then user_fields (previous_epoch_users v) e u - f
           else user_fields (previous_epoch_users v) e' u)" for e' u
    using user_fields_None [OF lk] by simp
  then show ?thesis
    unfolding shrink_post_def using wf by simp
qed

lemma masks_left_case: "map (\<lambda>(p, pm). (p, pm - f)) m = masks_left f m"
  by (simp add: masks_left_def case_prod_beta)

lemma cleared_case: "map fst (filter (\<lambda>(p, pm). pm = {}) xs) = cleared xs"
proof -
  have "(\<lambda>(p :: PhysicalUserPtr, pm :: FieldMask). pm = {}) = (\<lambda>it. snd it = {})"
    by (rule ext) (simp add: case_prod_beta)
  then show ?thesis by (simp add: cleared_def)
qed

lemma filter_previous_entry_multi:
  assumes lk: "map_of (previous_epoch_users v) e = Some eu"
    and ne: "user_mask eu - f \<noteq> {}"
    and mu: "users eu = multi_users m"
  shows "filter_previous_entry (e, f) v =
     (fold drop_reference (cleared (masks_left f m)) v)
       \<lparr>previous_epoch_users :=
          map_set e
            (if (\<exists>user pm. filter (\<lambda>kv. fst kv \<notin> set (cleared (masks_left f m)))
                               (masks_left f m) = [(user, pm)]) \<and>
                cleared (masks_left f m) \<noteq> []
             then \<lparr>user_mask = snd (hd (filter (\<lambda>kv. fst kv \<notin> set (cleared (masks_left f m)))
                                          (masks_left f m))),
                   users = single_user
                     (fst (hd (filter (\<lambda>kv. fst kv \<notin> set (cleared (masks_left f m)))
                                 (masks_left f m))))\<rparr>
             else \<lparr>user_mask = user_mask eu - f,
                   users = multi_users (filter (\<lambda>kv. fst kv \<notin> set (cleared (masks_left f m)))
                                          (masks_left f m))\<rparr>)
            (previous_epoch_users v)\<rparr>"
  unfolding filter_previous_entry_def Let_def masks_left_case cleared_case fold_map_erase
    case_singleton
  using lk ne mu by simp

lemma filter_previous_entry_post:
  assumes wf: "wf_table (previous_epoch_users v)"
  shows "shrink_post e f v (filter_previous_entry (e, f) v)"
proof (cases "map_of (previous_epoch_users v) e")
  case None
  have r: "filter_previous_entry (e, f) v = v"
    using None by (simp add: filter_previous_entry_def)
  show ?thesis unfolding r by (rule shrink_post_absent [OF wf None])
next
  case (Some eu)
  note wfb = wf_table_lookup [OF wf Some]
  note uf = user_fields_Some [OF Some]
  note sub = wf_bucket_fields_subset [OF wfb]
  show ?thesis
  proof (cases "user_mask eu - f = {}")
    case True
    have r: "filter_previous_entry (e, f) v =
        (release_users eu v)\<lparr>previous_epoch_users := map_erase e (previous_epoch_users v)\<rparr>"
      using Some True by (simp add: filter_previous_entry_def)
    have gone: "user_fields (previous_epoch_users v) e u - f = {}" for u
      unfolding uf using sub [of u] True by blast
    show ?thesis unfolding r
      by (rule shrink_post_erase [OF same_tables_release_users wf gone])
  next
    case ne: False
    show ?thesis
    proof (cases "users eu")
      case (single_user p)
      let ?b = "eu\<lparr>user_mask := user_mask eu - f\<rparr>"
      have r: "filter_previous_entry (e, f) v =
          v\<lparr>previous_epoch_users := map_set e ?b (previous_epoch_users v)\<rparr>"
        using Some ne single_user by (simp add: filter_previous_entry_def Let_def)
      have wb: "wf_bucket ?b" using single_user by (simp add: wf_bucket_def)
      have fb: "bucket_fields ?b u = bucket_fields eu u - f" for u
        using single_user by (simp add: bucket_fields_def)
      show ?thesis unfolding r
        by (rule shrink_post_set [OF same_tables_refl wf Some wb fb])
    next
      case (multi_users m)
      note w = wf_multi_pointwise [OF wfb multi_users]
      let ?ml = "masks_left f m"
      let ?rem = "filter (\<lambda>kv. fst kv \<notin> set (cleared ?ml)) ?ml"
      have sml: "sorted_wrt (<) (map fst ?ml)" by (rule sorted_masks_left [OF w(1)])
      have srem: "sorted_wrt (<) (map fst ?rem)" by (rule sorted_filter_keys [OF sml])
      have frem: "map_fields ?rem u = map_fields m u - f" for u
        unfolding uncleared_fields [OF sml] by (rule masks_left_fields)
      have c: "\<forall>x. x \<in> user_mask eu - f \<longleftrightarrow> (\<exists>u. x \<in> map_fields ?rem u)"
        unfolding frem using w(2) by blast
      note sb = shrunk_bucket [OF srem c, of "cleared ?ml \<noteq> []"]
      have st: "same_tables v (fold drop_reference (cleared ?ml) v)"
        by (rule same_tables_fold) simp
      show ?thesis
        unfolding filter_previous_entry_multi [OF Some ne multi_users]
      proof (rule shrink_post_set [OF st wf Some sb(1)])
        fix u
        show "bucket_fields (if (\<exists>user pm. ?rem = [(user, pm)]) \<and> cleared ?ml \<noteq> []
            then \<lparr>user_mask = snd (hd ?rem), users = single_user (fst (hd ?rem))\<rparr>
            else \<lparr>user_mask = user_mask eu - f, users = multi_users ?rem\<rparr>) u =
            bucket_fields eu u - f"
          unfolding sb(2) frem w(3) ..
      qed
    qed
  qed
qed

lemma shrinksI:
  assumes "next_address v' = next_address v"
    and "wf_table (current_epoch_users v')" and "wf_table (previous_epoch_users v')"
    and "\<And>e u. user_fields (current_epoch_users v') e u \<subseteq> user_fields (current_epoch_users v) e u"
    and "\<And>e u. user_fields (previous_epoch_users v') e u \<subseteq>
          user_fields (previous_epoch_users v) e u \<union> user_fields (current_epoch_users v) e u"
  shows "shrinks v v'"
  unfolding shrinks_def using assms by blast

lemma shrinksD:
  assumes "shrinks v v'"
  shows "next_address v' = next_address v"
    and "wf_table (current_epoch_users v')" and "wf_table (previous_epoch_users v')"
    and "\<And>e u. user_fields (current_epoch_users v') e u \<subseteq> user_fields (current_epoch_users v) e u"
    and "\<And>e u. user_fields (previous_epoch_users v') e u \<subseteq>
          user_fields (previous_epoch_users v) e u \<union> user_fields (current_epoch_users v) e u"
  using assms unfolding shrinks_def by blast+

lemma shrinks_refl:
  assumes "wf_table (current_epoch_users v)" and "wf_table (previous_epoch_users v)"
  shows "shrinks v v"
  by (rule shrinksI) (use assms in simp_all)

lemma shrinks_trans:
  assumes a: "shrinks v v'" and b: "shrinks v' v''"
  shows "shrinks v v''"
proof (rule shrinksI)
  note a' = shrinksD [OF a] and b' = shrinksD [OF b]
  show "next_address v'' = next_address v" using a'(1) b'(1) by simp
  show "wf_table (current_epoch_users v'')" by (rule b'(2))
  show "wf_table (previous_epoch_users v'')" by (rule b'(3))
  show "user_fields (current_epoch_users v'') e u \<subseteq> user_fields (current_epoch_users v) e u"
    for e u
    using a'(4) [of e u] b'(4) [of e u] by blast
  show "user_fields (previous_epoch_users v'') e u \<subseteq>
          user_fields (previous_epoch_users v) e u \<union> user_fields (current_epoch_users v) e u"
    for e u
    using a'(5) [of e u] b'(5) [of e u] a'(4) [of e u] by blast
qed

lemma shrinks_same_tables:
  assumes "same_tables v v'"
    and "wf_table (current_epoch_users v)" and "wf_table (previous_epoch_users v)"
  shows "shrinks v v'"
proof -
  have c: "current_epoch_users v' = current_epoch_users v"
    and p: "previous_epoch_users v' = previous_epoch_users v"
    and n: "next_address v' = next_address v"
    using assms(1) unfolding same_tables_def by simp_all
  show ?thesis
    by (rule shrinksI) (simp_all add: c p n assms(2,3))
qed

lemma shrinks_filter_previous_entry:
  assumes wc: "wf_table (current_epoch_users v)" and wp: "wf_table (previous_epoch_users v)"
  shows "shrinks v (filter_previous_entry fit v)"
proof -
  obtain e f where fit: "fit = (e, f)" by (cases fit)
  let ?v' = "filter_previous_entry (e, f) v"
  note sp = filter_previous_entry_post [OF wp, of e f]
  have ef: "entry_frame v ?v'" and w: "wf_table (previous_epoch_users ?v')"
    and uf: "\<And>e' u. user_fields (previous_epoch_users ?v') e' u =
          (if e' = e then user_fields (previous_epoch_users v) e u - f
           else user_fields (previous_epoch_users v) e' u)"
    using sp unfolding shrink_post_def by blast+
  have c: "current_epoch_users ?v' = current_epoch_users v"
    and n: "next_address ?v' = next_address v"
    using ef unfolding entry_frame_def by simp_all
  show ?thesis unfolding fit
  proof (rule shrinksI)
    show "next_address ?v' = next_address v" by (rule n)
    show "wf_table (current_epoch_users ?v')" unfolding c by (rule wc)
    show "wf_table (previous_epoch_users ?v')" by (rule w)
    show "user_fields (current_epoch_users ?v') e' u \<subseteq> user_fields (current_epoch_users v) e' u"
      for e' u unfolding c by simp
    show "user_fields (previous_epoch_users ?v') e' u \<subseteq>
          user_fields (previous_epoch_users v) e' u \<union> user_fields (current_epoch_users v) e' u"
      for e' u unfolding uf by auto
  qed
qed

lemma shrinks_fold:
  assumes step: "\<And>x w. wf_table (current_epoch_users w) \<Longrightarrow> wf_table (previous_epoch_users w) \<Longrightarrow>
      shrinks w (f x w)"
    and wc: "wf_table (current_epoch_users v)" and wp: "wf_table (previous_epoch_users v)"
  shows "shrinks v (fold f xs v)"
  using wc wp
proof (induction xs arbitrary: v)
  case Nil
  then show ?case by (simp add: shrinks_refl)
next
  case (Cons x xs)
  have a: "shrinks v (f x v)" by (rule step [OF Cons.prems])
  note a' = shrinksD [OF a]
  have b: "shrinks (f x v) (fold f xs (f x v))" by (rule Cons.IH [OF a'(2) a'(3)])
  show ?case using shrinks_trans [OF a b] by simp
qed

lemma shrinks_filter_previous_users:
  assumes wc: "wf_table (current_epoch_users v)" and wp: "wf_table (previous_epoch_users v)"
  shows "shrinks v (filter_previous_users fp v)"
  unfolding filter_previous_users_def
  by (rule shrinks_fold [OF shrinks_filter_previous_entry wc wp])

lemma release_users_frame:
  "next_address (release_users eu (v :: MaterializedView)) = next_address v"
  "current_epoch_users (release_users eu v) = current_epoch_users v"
  "previous_epoch_users (release_users eu v) = previous_epoch_users v"
  "outstanding_gc_events (release_users eu v) = outstanding_gc_events v"
  using same_tables_release_users [of v eu] unfolding same_tables_def by simp_all

lemma filter_local_users_next_address:
  "next_address (filter_local_users e v) = next_address v"
  by (simp add: filter_local_users_def Let_def release_users_frame split: option.splits)

lemma filter_local_users_unchanged:
  "e \<notin> outstanding_gc_events v \<Longrightarrow> filter_local_users e v = v"
  by (simp add: filter_local_users_def)

lemma shrinks_filter_local_users:
  assumes wc: "wf_table (current_epoch_users v)" and wp: "wf_table (previous_epoch_users v)"
  shows "shrinks v (filter_local_users e v)"
proof (cases "e \<in> outstanding_gc_events v")
  case False
  show ?thesis unfolding filter_local_users_unchanged [OF False]
    by (rule shrinks_refl [OF wc wp])
next
  case True
  note t = filter_local_users_tables [OF True]
  show ?thesis
  proof (rule shrinksI)
    show "next_address (filter_local_users e v) = next_address v"
      by (rule filter_local_users_next_address)
    show "wf_table (current_epoch_users (filter_local_users e v))"
      unfolding t(1) by (rule wf_table_map_erase [OF wc])
    show "wf_table (previous_epoch_users (filter_local_users e v))"
      unfolding t(2) by (rule wf_table_map_erase [OF wp])
    show "user_fields (current_epoch_users (filter_local_users e v)) e' u \<subseteq>
        user_fields (current_epoch_users v) e' u" for e' u
      unfolding t(1) user_fields_map_erase by simp
    show "user_fields (previous_epoch_users (filter_local_users e v)) e' u \<subseteq>
        user_fields (previous_epoch_users v) e' u \<union> user_fields (current_epoch_users v) e' u"
      for e' u
      unfolding t(2) user_fields_map_erase by simp
  qed
qed

lemma shrinks_filter_current_users:
  assumes wc: "wf_table (current_epoch_users v)" and wp: "wf_table (previous_epoch_users v)"
  shows "shrinks v (filter_current_users ht d v)"
proof -
  from filter_current_users_post [OF wc wp, of ht d] obtain kept v2 where
    r: "filter_current_users ht d v = v2\<lparr>current_epoch_users := kept\<rparr>"
    and lp: "loop_post ht d (current_epoch_users v) v kept v2"
    by blast
  have ef: "entry_frame v v2"
    and l2: "wf_table (previous_epoch_users v2)" and l3: "wf_table kept"
    and l6: "\<And>e u. user_fields (previous_epoch_users v2) e u =
          user_fields (previous_epoch_users v) e u \<union>
          (if ht e then {} else user_fields (current_epoch_users v) e u \<inter> d)"
    and l7: "\<And>e u. user_fields kept e u =
          (if ht e then {} else user_fields (current_epoch_users v) e u - d)"
    using lp unfolding loop_post_def by blast+
  have n: "next_address v2 = next_address v" using ef unfolding entry_frame_def by simp
  show ?thesis unfolding r
  proof (rule shrinksI)
    show "next_address (v2\<lparr>current_epoch_users := kept\<rparr>) = next_address v" using n by simp
    show "wf_table (current_epoch_users (v2\<lparr>current_epoch_users := kept\<rparr>))" using l3 by simp
    show "wf_table (previous_epoch_users (v2\<lparr>current_epoch_users := kept\<rparr>))" using l2 by simp
    show "user_fields (current_epoch_users (v2\<lparr>current_epoch_users := kept\<rparr>)) e u \<subseteq>
        user_fields (current_epoch_users v) e u" for e u
      using l7 [of e u] by auto
    show "user_fields (previous_epoch_users (v2\<lparr>current_epoch_users := kept\<rparr>)) e u \<subseteq>
        user_fields (previous_epoch_users v) e u \<union> user_fields (current_epoch_users v) e u"
      for e u
      using l6 [of e u] by auto
  qed
qed

lemma shrinks_apply_filters:
  assumes wc: "wf_table (current_epoch_users v)" and wp: "wf_table (previous_epoch_users v)"
  shows "shrinks v (apply_filters ht dead fp d v)"
proof -
  let ?v1 = "fold filter_local_users dead v"
  let ?v2 = "if fp \<noteq> [] then filter_previous_users fp ?v1 else ?v1"
  let ?v3 = "if d \<noteq> {} then filter_current_users ht d ?v2 else ?v2"
  have a: "shrinks v ?v1"
    by (rule shrinks_fold [OF shrinks_filter_local_users wc wp])
  note a' = shrinksD [OF a]
  have b: "shrinks ?v1 ?v2"
    using shrinks_filter_previous_users [OF a'(2) a'(3)] shrinks_refl [OF a'(2) a'(3)]
    by (cases "fp \<noteq> []") simp_all
  note ab = shrinks_trans [OF a b]
  note b' = shrinksD [OF ab]
  have c: "shrinks ?v2 ?v3"
    using shrinks_filter_current_users [OF b'(2) b'(3)] shrinks_refl [OF b'(2) b'(3)]
    by (cases "d \<noteq> {}") simp_all
  have r: "apply_filters ht dead fp d v = ?v3"
    by (simp add: apply_filters_def Let_def)
  show ?thesis unfolding r by (rule shrinks_trans [OF ab c])
qed

lemma fresh_above_mono: "fresh_above n t \<Longrightarrow> n \<le> n' \<Longrightarrow> fresh_above n' t"
  unfolding fresh_above_def by (meson order_trans)

lemma fresh_above_subset:
  assumes "fresh_above n t" and "\<And>e u. user_fields t' e u \<subseteq> user_fields t e u"
  shows "fresh_above n t'"
  unfolding fresh_above_def
proof (intro allI impI)
  fix e u assume "n \<le> u"
  then have "user_fields t e u = {}" using assms(1) unfolding fresh_above_def by blast
  then show "user_fields t' e u = {}" using assms(2) [of e u] by blast
qed

lemma fresh_above_subset2:
  assumes "fresh_above n t" and "fresh_above n s"
    and "\<And>e u. user_fields t' e u \<subseteq> user_fields t e u \<union> user_fields s e u"
  shows "fresh_above n t'"
  unfolding fresh_above_def
proof (intro allI impI)
  fix e u assume "n \<le> u"
  then have "user_fields t e u = {}" "user_fields s e u = {}"
    using assms(1,2) unfolding fresh_above_def by blast+
  then show "user_fields t' e u = {}" using assms(3) [of e u] by blast
qed

lemma one_event_subset:
  assumes "one_event t" and "\<And>e u. user_fields t' e u \<subseteq> user_fields t e u"
  shows "one_event t'"
  unfolding one_event_def
proof (intro allI impI)
  fix e e' u
  assume "user_fields t' e u \<noteq> {}" and "user_fields t' e' u \<noteq> {}"
  then have "user_fields t e u \<noteq> {}" and "user_fields t e' u \<noteq> {}"
    using assms(2) [of e u] assms(2) [of e' u] by blast+
  then show "e = e'" using assms(1) unfolding one_event_def by blast
qed

lemma fresh_above_add:
  assumes wf: "wf_table t" and fr: "fresh_above n t"
  shows "wf_table (add_event_user n e fm t)"
    and "fresh_above (Suc n) (add_event_user n e fm t)"
    and "one_event t \<Longrightarrow> one_event (add_event_user n e fm t)"
proof -
  have z: "user_fields t e' n = {}" for e'
    using fr unfolding fresh_above_def by simp
  then have sub: "user_fields t e n \<subseteq> fm" by simp
  note f = add_event_user_fields [OF wf sub]
  show "wf_table (add_event_user n e fm t)" by (rule add_event_user_wf [OF wf sub])
  show "fresh_above (Suc n) (add_event_user n e fm t)"
    unfolding fresh_above_def f using fr unfolding fresh_above_def by auto
  show "one_event (add_event_user n e fm t)" if o: "one_event t"
    unfolding one_event_def
  proof (intro allI impI)
    fix a b u
    assume a: "user_fields (add_event_user n e fm t) a u \<noteq> {}"
      and b: "user_fields (add_event_user n e fm t) b u \<noteq> {}"
    show "a = b"
    proof (cases "u = n")
      case True
      have "a = e" using a z [of a] unfolding f True by (cases "a = e") simp_all
      moreover have "b = e" using b z [of b] unfolding f True by (cases "b = e") simp_all
      ultimately show ?thesis by simp
    next
      case False
      have "user_fields t a u \<noteq> {}" using a False unfolding f by simp
      moreover have "user_fields t b u \<noteq> {}" using b False unfolding f by simp
      ultimately show ?thesis using o unfolding one_event_def by blast
    qed
  qed
qed

lemma view_inv_shrinks:
  assumes i: "view_inv v" and s: "shrinks v v'"
  shows "view_inv v'"
proof -
  note s' = shrinksD [OF s]
  have fc: "fresh_above (next_address v) (current_epoch_users v)"
    and fp: "fresh_above (next_address v) (previous_epoch_users v)"
    and o: "one_event (current_epoch_users v)"
    using i unfolding view_inv_def by blast+
  show ?thesis
    unfolding view_inv_def s'(1)
    using s'(2) s'(3) fresh_above_subset [OF fc s'(4)] fresh_above_subset2 [OF fp fc s'(5)]
      one_event_subset [OF o s'(4)]
    by blast
qed

lemma view_inv_add:
  assumes "wf_table (current_epoch_users w)" and "wf_table (previous_epoch_users w)"
    and "fresh_above n (current_epoch_users w)" and "fresh_above n (previous_epoch_users w)"
    and "one_event (current_epoch_users w)"
    and "next_address w' = Suc n"
    and "current_epoch_users w' = add_event_user n e fm (current_epoch_users w)"
    and "previous_epoch_users w' = previous_epoch_users w"
  shows "view_inv w'"
  unfolding view_inv_def assms(6,7,8)
  using fresh_above_add [OF assms(1,3), of e fm] assms(2,5)
    fresh_above_mono [OF assms(4), of "Suc n"]
  by simp

lemma view_inv_add_initial_user:
  assumes i: "view_inv v"
  shows "view_inv (add_initial_user term_event usage' umask v)"
proof (rule view_inv_add [where w = v and n = "next_address v" and e = term_event and fm = umask])
  show "wf_table (current_epoch_users v)" "wf_table (previous_epoch_users v)"
    "fresh_above (next_address v) (current_epoch_users v)"
    "fresh_above (next_address v) (previous_epoch_users v)"
    "one_event (current_epoch_users v)"
    using i unfolding view_inv_def by blast+
  show "next_address (add_initial_user term_event usage' umask v) = Suc (next_address v)"
    by (simp add: add_initial_user_def legion_new_def add_current_user_def add_reference_def Let_def)
  show "current_epoch_users (add_initial_user term_event usage' umask v) =
      add_event_user (next_address v) term_event umask (current_epoch_users v)"
    by (simp add: add_initial_user_def legion_new_def add_current_user_def add_reference_def Let_def)
  show "previous_epoch_users (add_initial_user term_event usage' umask v) = previous_epoch_users v"
    by (simp add: add_initial_user_def legion_new_def add_current_user_def add_reference_def Let_def)
qed

lemma view_inv_add_local_copy_user:
  assumes i: "view_inv v"
  shows "view_inv (snd (add_local_copy_user usage' copy_term base_user child_color
            version_info copy_mask v))"
proof (rule view_inv_add [where w = v and n = "next_address v" and e = copy_term
      and fm = copy_mask])
  let ?r = "snd (add_local_copy_user usage' copy_term base_user child_color
            version_info copy_mask v)"
  show "wf_table (current_epoch_users v)" "wf_table (previous_epoch_users v)"
    "fresh_above (next_address v) (current_epoch_users v)"
    "fresh_above (next_address v) (previous_epoch_users v)"
    "one_event (current_epoch_users v)"
    using i unfolding view_inv_def by blast+
  show "next_address ?r = Suc (next_address v)"
    by (simp add: add_local_copy_user_def legion_new_def add_current_user_def add_reference_def
        Let_def)
  show "current_epoch_users ?r =
      add_event_user (next_address v) copy_term copy_mask (current_epoch_users v)"
    by (simp add: add_local_copy_user_def legion_new_def add_current_user_def add_reference_def
        Let_def)
  show "previous_epoch_users ?r = previous_epoch_users v"
    by (simp add: add_local_copy_user_def legion_new_def add_current_user_def add_reference_def
        Let_def)
qed

lemma view_inv_filter_local_users:
  assumes i: "view_inv v"
  shows "view_inv (filter_local_users e v)"
proof -
  have "wf_table (current_epoch_users v)" "wf_table (previous_epoch_users v)"
    using i unfolding view_inv_def by blast+
  then show ?thesis
    using view_inv_shrinks [OF i shrinks_filter_local_users] by blast
qed

lemma view_inv_apply_filters:
  assumes i: "view_inv v"
  shows "view_inv (apply_filters ht dead fp d v)"
proof -
  have "wf_table (current_epoch_users v)" "wf_table (previous_epoch_users v)"
    using i unfolding view_inv_def by blast+
  then show ?thesis
    using view_inv_shrinks [OF i shrinks_apply_filters] by blast
qed

lemma view_inv_find_local_copy_preconditions:
  assumes i: "view_inv v"
  shows "view_inv (fst (find_local_copy_preconditions ht redop' reading copy_mask child_color
            version_info pre v))"
proof -
  obtain dead fp d pre1 where
    ca: "copy_analysis ht redop' reading copy_mask
           (child_color)
           (if is_valid child_color then None
            else get_versions version_info (node_id (logical_node v))) pre v =
         (dead, fp, d, pre1)"
    by (cases "copy_analysis ht redop' reading copy_mask
           (child_color)
           (if is_valid child_color then None
            else get_versions version_info (node_id (logical_node v))) pre v") auto
  have r: "fst (find_local_copy_preconditions ht redop' reading copy_mask child_color
            version_info pre v) =
      (if dead \<noteq> [] \<or> fp \<noteq> [] \<or> d \<noteq> {} then apply_filters ht dead fp d v else v)"
    unfolding find_local_copy_preconditions_def Let_def ca by simp
  show ?thesis unfolding r using i view_inv_apply_filters [OF i] by simp
qed

lemma view_inv_add_local_user:
  assumes i: "view_inv v"
  shows "view_inv (fst (snd (add_local_user ht cdt usage' term_event base_user child_color
            version_info umask pre v)))"
proof -
  let ?r = "fst (snd (add_local_user ht cdt usage' term_event base_user child_color
            version_info umask pre v))"
  obtain dead fp d pre1 where
    ta: "task_analysis ht cdt usage' term_event child_color umask pre v = (dead, fp, d, pre1)"
    by (cases "task_analysis ht cdt usage' term_event child_color umask pre v") auto
  have wc: "wf_table (current_epoch_users v)" and wp: "wf_table (previous_epoch_users v)"
    and fc: "fresh_above (next_address v) (current_epoch_users v)"
    and fp: "fresh_above (next_address v) (previous_epoch_users v)"
    and o: "one_event (current_epoch_users v)"
    using i unfolding view_inv_def by blast+
  show ?thesis
  proof (cases "event_exists term_event")
    case False
    have r: "?r = apply_filters ht dead fp d v"
      unfolding add_local_user_def ta using False by simp
    show ?thesis unfolding r by (rule view_inv_apply_filters [OF i])
  next
    case True
    let ?rec = "\<lparr>usage = usage', child = child_color,
                     versions = (if IS_READ_ONLY usage'
                                 then get_versions version_info (node_id (logical_node v))
                                 else None)\<rparr>"
    let ?n = "next_address v"
    let ?v2 = "add_reference ?n (snd (legion_new ?rec v))"
    let ?v3 = "apply_filters ht dead fp d ?v2"
    have c2: "current_epoch_users ?v2 = current_epoch_users v"
      and p2: "previous_epoch_users ?v2 = previous_epoch_users v"
      and n2: "next_address ?v2 = Suc ?n"
      by (simp_all add: legion_new_def add_reference_def)
    have s: "shrinks ?v2 ?v3"
      by (rule shrinks_apply_filters) (simp_all add: c2 p2 wc wp)
    note s' = shrinksD [OF s, unfolded c2 p2 n2]
    have n3: "next_address ?r = Suc ?n"
      unfolding add_local_user_def ta using True s'(1)
      by (simp add: legion_new_def Let_def add_current_user_def)
    have c3: "current_epoch_users ?r = add_event_user ?n term_event umask (current_epoch_users ?v3)"
      unfolding add_local_user_def ta using True
      by (simp add: legion_new_def Let_def add_current_user_def)
    have p3: "previous_epoch_users ?r = previous_epoch_users ?v3"
      unfolding add_local_user_def ta using True
      by (simp add: legion_new_def Let_def add_current_user_def)
    show ?thesis
    proof (rule view_inv_add [where w = ?v3 and n = ?n and e = term_event and fm = umask])
      show "wf_table (current_epoch_users ?v3)" by (rule s'(2))
      show "wf_table (previous_epoch_users ?v3)" by (rule s'(3))
      show "fresh_above ?n (current_epoch_users ?v3)"
        by (rule fresh_above_subset [OF fc s'(4)])
      show "fresh_above ?n (previous_epoch_users ?v3)"
        by (rule fresh_above_subset2 [OF fp fc s'(5)])
      show "one_event (current_epoch_users ?v3)"
        by (rule one_event_subset [OF o s'(4)])
      show "next_address ?r = Suc ?n" by (rule n3)
      show "current_epoch_users ?r = add_event_user ?n term_event umask (current_epoch_users ?v3)"
        by (rule c3)
      show "previous_epoch_users ?r = previous_epoch_users ?v3" by (rule p3)
    qed
  qed
qed

subsection \<open>The dependence rule of the task path\<close>








lemma dependent_events_Nil [simp]: "dependent_events ht cdt node heap nu te nm cc [] = {}"
  by (simp add: dependent_events_def)










subsection \<open>Dominated fields, through the analyzers\<close>

lemma set_set_insert [simp]: "set (set_insert e xs) = insert e (set xs)"
  by (auto simp: set_insert_def set_insort_key)

lemma task_current_step_dead:
  "set (fst (task_current_step ht cdt node heap nu te nm cc cit acc)) \<subseteq> set (fst acc) \<union> Collect ht"
  by (auto simp: task_current_step_def split: Users.splits)

lemma task_previous_step_dead:
  "set (fst (task_previous_step ht cdt node heap nu te cc d nm pit acc)) \<subseteq>
     set (fst acc) \<union> Collect ht"
  by (cases acc) (auto simp: task_previous_step_def Let_def split: Users.splits)

lemma copy_current_step_dead:
  "set (fst (copy_current_step ht node heap redop' reading cm cc vs cit acc)) \<subseteq>
     set (fst acc) \<union> Collect ht"
  by (auto simp: copy_current_step_def split: Users.splits)

lemma copy_previous_step_dead:
  "set (fst (copy_previous_step ht node heap redop' reading cc vs d nm pit acc)) \<subseteq>
     set (fst acc) \<union> Collect ht"
  by (cases acc) (auto simp: copy_previous_step_def Let_def split: Users.splits)

lemma fold_dead:
  assumes "\<And>x acc. set (fst (f x acc)) \<subseteq> set (fst acc) \<union> Collect ht"
  shows "set (fst (fold f xs acc)) \<subseteq> set (fst acc) \<union> Collect ht"
proof (induction xs arbitrary: acc)
  case Nil
  then show ?case by simp
next
  case (Cons x xs)
  show ?case using Cons.IH [of "f x acc"] assms [of x acc] by auto
qed

lemma task_analysis_dead:
  "set (fst (task_analysis ht cdt nu te cc nm pre v)) \<subseteq> Collect ht"
proof -
  obtain dead pre1 obs nd where
    p: "task_current_pass ht cdt nu te cc nm pre v = (dead, pre1, obs, nd)"
    by (cases "task_current_pass ht cdt nu te cc nm pre v") auto
  have d: "set dead \<subseteq> Collect ht"
    using fold_dead [of "task_current_step ht cdt (logical_node v) (user_heap v) nu te nm cc" ht
        "current_epoch_users v" "([], pre, {}, {})", OF task_current_step_dead]
    unfolding p [unfolded task_current_pass_def] by simp
  let ?d = "obs \<inter> (nm - nd)"
  let ?f = "fold (task_previous_step ht cdt (logical_node v) (user_heap v) nu te cc ?d (nm - ?d))
          (previous_epoch_users v) (dead, [], pre1)"
  have "set (fst ?f) \<subseteq> set dead \<union> Collect ht"
    using fold_dead [of "task_previous_step ht cdt (logical_node v) (user_heap v) nu te cc ?d
        (nm - ?d)" ht "previous_epoch_users v" "(dead, [], pre1)", OF task_previous_step_dead]
    by simp
  moreover have "fst (task_analysis ht cdt nu te cc nm pre v) = fst ?f"
    unfolding task_analysis_def p by (simp add: Let_def split: prod.splits)
  ultimately show ?thesis using d by auto
qed

lemma copy_analysis_dead:
  "set (fst (copy_analysis ht redop' reading cm cc vs pre v)) \<subseteq> Collect ht"
proof -
  obtain dead pre1 obs nd where
    p: "copy_current_pass ht redop' reading cm cc vs pre v = (dead, pre1, obs, nd)"
    by (cases "copy_current_pass ht redop' reading cm cc vs pre v") auto
  have d: "set dead \<subseteq> Collect ht"
    using fold_dead [of "copy_current_step ht (logical_node v) (user_heap v) redop' reading cm cc
        vs" ht "current_epoch_users v" "([], pre, {}, {})", OF copy_current_step_dead]
    unfolding p [unfolded copy_current_pass_def] by simp
  let ?d = "obs \<inter> (cm - nd)"
  let ?f = "fold (copy_previous_step ht (logical_node v) (user_heap v) redop' reading cc vs ?d
          (cm - ?d)) (previous_epoch_users v) (dead, [], pre1)"
  have "set (fst ?f) \<subseteq> set dead \<union> Collect ht"
    using fold_dead [of "copy_previous_step ht (logical_node v) (user_heap v) redop' reading cc vs
        ?d (cm - ?d)" ht "previous_epoch_users v" "(dead, [], pre1)", OF copy_previous_step_dead]
    by simp
  moreover have "fst (copy_analysis ht redop' reading cm cc vs pre v) = fst ?f"
    unfolding copy_analysis_def p by (simp add: Let_def split: prod.splits)
  ultimately show ?thesis using d by auto
qed

lemma filter_local_users_lookup:
  assumes "e \<noteq> e'"
  shows "map_of (current_epoch_users (filter_local_users e' v)) e =
           map_of (current_epoch_users v) e"
    and "map_of (previous_epoch_users (filter_local_users e' v)) e =
           map_of (previous_epoch_users v) e"
proof -
  show "map_of (current_epoch_users (filter_local_users e' v)) e =
           map_of (current_epoch_users v) e"
  proof (cases "e' \<in> outstanding_gc_events v")
    case True
    show ?thesis
      unfolding filter_local_users_tables(1) [OF True] map_of_map_erase using assms by simp
  next
    case False
    show ?thesis unfolding filter_local_users_unchanged [OF False] ..
  qed
  show "map_of (previous_epoch_users (filter_local_users e' v)) e =
           map_of (previous_epoch_users v) e"
  proof (cases "e' \<in> outstanding_gc_events v")
    case True
    show ?thesis
      unfolding filter_local_users_tables(2) [OF True] map_of_map_erase using assms by simp
  next
    case False
    show ?thesis unfolding filter_local_users_unchanged [OF False] ..
  qed
qed

lemma fold_filter_local_users_lookup:
  assumes "e \<notin> set dead"
  shows "map_of (current_epoch_users (fold filter_local_users dead v)) e =
           map_of (current_epoch_users v) e"
  using assms
proof (induction dead arbitrary: v)
  case Nil
  then show ?case by simp
next
  case (Cons e' dead)
  have ne: "e \<noteq> e'" and nin: "e \<notin> set dead" using Cons.prems by simp_all
  show ?case
    using Cons.IH [OF nin, of "filter_local_users e' v"] filter_local_users_lookup(1) [OF ne, of v]
    by simp
qed

lemma filter_previous_users_frame:
  assumes wp: "wf_table (previous_epoch_users v)"
  shows "entry_frame v (filter_previous_users fp v)"
  unfolding filter_previous_users_def
  using wp
proof (induction fp arbitrary: v)
  case Nil
  then show ?case by simp
next
  case (Cons fit fp)
  obtain e f where fit: "fit = (e, f)" by (cases fit)
  note sp = filter_previous_entry_post [OF Cons.prems, of e f]
  have ef: "entry_frame v (filter_previous_entry fit v)"
    and w: "wf_table (previous_epoch_users (filter_previous_entry fit v))"
    using sp unfolding shrink_post_def fit by blast+
  show ?case
    using entry_frame_trans [OF ef Cons.IH [OF w]] by simp
qed

lemma user_fields_lookup:
  "map_of t e = map_of t' e \<Longrightarrow> user_fields t e u = user_fields t' e u"
  by (simp add: user_fields_def)

lemma in_keys_iff:
  assumes "sorted_wrt (<) (map fst (t :: (nat \<times> 'v) list))"
  shows "(e, eu) \<in> set t \<longleftrightarrow> map_of t e = Some eu"
  using map_of_sorted_iff [OF assms] by blast

lemma apply_filters_post:
  assumes wc: "wf_table (current_epoch_users v)" and wp: "wf_table (previous_epoch_users v)"
    and dead: "set dead \<subseteq> Collect ht"
  shows "filters_post ht d v (apply_filters ht dead fp d v)"
proof -
  let ?v1 = "fold filter_local_users dead v"
  let ?v2 = "if fp \<noteq> [] then filter_previous_users fp ?v1 else ?v1"
  let ?v3 = "if d \<noteq> {} then filter_current_users ht d ?v2 else ?v2"
  have r: "apply_filters ht dead fp d v = ?v3"
    by (simp add: apply_filters_def Let_def)
  have a: "shrinks v ?v1"
    by (rule shrinks_fold [OF shrinks_filter_local_users wc wp])
  note a' = shrinksD [OF a]
  have c12: "current_epoch_users ?v2 = current_epoch_users ?v1"
    using filter_previous_users_frame [OF a'(3), of fp] unfolding entry_frame_def
    by (cases "fp \<noteq> []") simp_all
  have b: "shrinks ?v1 ?v2"
    using shrinks_filter_previous_users [OF a'(2) a'(3)] shrinks_refl [OF a'(2) a'(3)]
    by (cases "fp \<noteq> []") simp_all
  note b' = shrinksD [OF b]
  have lk: "map_of (current_epoch_users ?v2) e = map_of (current_epoch_users v) e"
    if "\<not> ht e" for e
  proof -
    have "e \<notin> set dead" using that dead by blast
    from fold_filter_local_users_lookup [OF this, of v] show ?thesis unfolding c12 .
  qed
  have uf2: "user_fields (current_epoch_users ?v2) e u = user_fields (current_epoch_users v) e u"
    if "\<not> ht e" for e u
    by (rule user_fields_lookup [OF lk [OF that]])
  have s2: "sorted_wrt (<) (map fst (current_epoch_users ?v2))"
    using b'(2) unfolding wf_table_def by blast
  show ?thesis
  proof (cases "d = {}")
    case True
    have r3: "?v3 = ?v2" using True by simp
    have k: "e \<in> set (map fst (current_epoch_users ?v2)) \<longleftrightarrow>
        (\<exists>eu. map_of (current_epoch_users v) e = Some eu)" if "\<not> ht e" for e
    proof -
      have "e \<in> set (map fst (current_epoch_users ?v2)) \<longleftrightarrow>
          map_of (current_epoch_users ?v2) e \<noteq> None"
        by (simp add: map_of_eq_None_iff)
      then show ?thesis unfolding lk [OF that] by simp
    qed
    show ?thesis
      unfolding r r3 filters_post_def using uf2 k True by simp
  next
    case False
    have r3: "?v3 = filter_current_users ht d ?v2" using False by simp
    from filter_current_users_post [OF b'(2) b'(3), of ht d] obtain kept w where
      fc: "filter_current_users ht d ?v2 = w\<lparr>current_epoch_users := kept\<rparr>"
      and lp: "loop_post ht d (current_epoch_users ?v2) ?v2 kept w"
      by blast
    have l5: "map fst kept =
        map fst (filter (\<lambda>cit. \<not> erased ht d cit) (current_epoch_users ?v2))"
      and l6: "\<And>e u. user_fields (previous_epoch_users w) e u =
          user_fields (previous_epoch_users ?v2) e u \<union>
          (if ht e then {} else user_fields (current_epoch_users ?v2) e u \<inter> d)"
      and l7: "\<And>e u. user_fields kept e u =
          (if ht e then {} else user_fields (current_epoch_users ?v2) e u - d)"
      using lp unfolding loop_post_def by blast+
    have c3: "current_epoch_users ?v3 = kept" and p3: "previous_epoch_users ?v3 = previous_epoch_users w"
      using False fc by simp_all
    have k: "e \<in> set (map fst kept) \<longleftrightarrow>
        (\<exists>eu. map_of (current_epoch_users v) e = Some eu \<and>
              \<not> (user_mask eu \<inter> d \<noteq> {} \<and> user_mask eu \<subseteq> d))" if nt: "\<not> ht e" for e
    proof -
      have "e \<in> set (map fst kept) \<longleftrightarrow>
          (\<exists>eu. (e, eu) \<in> set (current_epoch_users ?v2) \<and> \<not> erased ht d (e, eu))"
        unfolding l5 by force
      also have "\<dots> \<longleftrightarrow> (\<exists>eu. map_of (current_epoch_users ?v2) e = Some eu \<and>
          \<not> erased ht d (e, eu))"
        unfolding in_keys_iff [OF s2] ..
      also have "\<dots> \<longleftrightarrow> (\<exists>eu. map_of (current_epoch_users v) e = Some eu \<and>
              \<not> (user_mask eu \<inter> d \<noteq> {} \<and> user_mask eu \<subseteq> d))"
        unfolding lk [OF nt] erased_def using nt by simp
      finally show ?thesis .
    qed
    have f1: "user_fields kept e u = user_fields (current_epoch_users v) e u - d"
      if nt: "\<not> ht e" for e u
      unfolding l7 using nt uf2 [OF nt] by simp
    have f2: "user_fields (current_epoch_users v) e u \<inter> d \<subseteq> user_fields (previous_epoch_users w) e u"
      if nt: "\<not> ht e" for e u
      unfolding l6 using nt uf2 [OF nt] by auto
    show ?thesis
      unfolding r filters_post_def c3 p3 using f1 f2 k by blast
  qed
qed

lemma find_local_copy_preconditions_view:
  "fst (find_local_copy_preconditions ht redop' reading copy_mask child_color version_info pre v) =
     (case copy_analysis ht redop' reading copy_mask child_color
             (if is_valid child_color then None
              else get_versions version_info (node_id (logical_node v))) pre v of
        (dead_events, filter_previous, dominated, pre1) \<Rightarrow>
          apply_filters ht dead_events filter_previous dominated v)"
  by (auto simp: find_local_copy_preconditions_def Let_def apply_filters_def split: prod.splits)

lemma copy_flow:
  assumes wc: "wf_table (current_epoch_users v)" and wp: "wf_table (previous_epoch_users v)"
  shows "filters_post ht
           (fst (snd (snd (copy_analysis ht redop' reading copy_mask child_color
              (if is_valid child_color then None
               else get_versions version_info (node_id (logical_node v))) pre v))))
           v
           (fst (find_local_copy_preconditions ht redop' reading copy_mask child_color
                   version_info pre v))"
proof -
  let ?vs = "if is_valid child_color then None
             else get_versions version_info (node_id (logical_node v))"
  obtain dead fp d pre1 where
    a: "copy_analysis ht redop' reading copy_mask child_color ?vs pre v = (dead, fp, d, pre1)"
    by (cases "copy_analysis ht redop' reading copy_mask child_color ?vs pre v") auto
  have dd: "set dead \<subseteq> Collect ht"
    using copy_analysis_dead [of ht redop' reading copy_mask child_color ?vs pre v]
    unfolding a by simp
  show ?thesis
    unfolding find_local_copy_preconditions_view a
    using apply_filters_post [OF wc wp dd, where fp = fp and d = d] by simp
qed

lemma filters_post_tables:
  assumes "filters_post ht d v v'"
    and "current_epoch_users w = current_epoch_users v"
  shows "filters_post ht d w v'"
  using assms unfolding filters_post_def by simp

lemma filter_local_users_previous:
  "user_fields (previous_epoch_users (filter_local_users e' v)) e u \<subseteq>
     user_fields (previous_epoch_users v) e u"
proof (cases "e' \<in> outstanding_gc_events v")
  case True
  show ?thesis unfolding filter_local_users_tables(2) [OF True] user_fields_map_erase by simp
next
  case False
  show ?thesis unfolding filter_local_users_unchanged [OF False] by simp
qed

lemma fold_filter_local_users_previous:
  "user_fields (previous_epoch_users (fold filter_local_users dead v)) e u \<subseteq>
     user_fields (previous_epoch_users v) e u"
proof (induction dead arbitrary: v)
  case Nil
  then show ?case by simp
next
  case (Cons e' dead)
  show ?case
    using Cons.IH [of "filter_local_users e' v"] filter_local_users_previous [of e' v e u]
    by auto
qed

lemma filter_previous_users_previous:
  assumes wp: "wf_table (previous_epoch_users v)"
  shows "user_fields (previous_epoch_users (filter_previous_users fp v)) e u \<subseteq>
     user_fields (previous_epoch_users v) e u"
  unfolding filter_previous_users_def
  using wp
proof (induction fp arbitrary: v)
  case Nil
  then show ?case by simp
next
  case (Cons fit fp)
  obtain e' f where fit: "fit = (e', f)" by (cases fit)
  note sp = filter_previous_entry_post [OF Cons.prems, of e' f]
  have w: "wf_table (previous_epoch_users (filter_previous_entry fit v))"
    and s: "\<And>a b. user_fields (previous_epoch_users (filter_previous_entry fit v)) a b =
          (if a = e' then user_fields (previous_epoch_users v) e' b - f
           else user_fields (previous_epoch_users v) a b)"
    using sp unfolding shrink_post_def fit by blast+
  have "user_fields (previous_epoch_users (filter_previous_entry fit v)) e u \<subseteq>
      user_fields (previous_epoch_users v) e u"
    unfolding s by auto
  then show ?case using Cons.IH [OF w] by auto
qed

lemma triggered_not_migrated:
  assumes wc: "wf_table (current_epoch_users v)" and wp: "wf_table (previous_epoch_users v)"
    and t: "ht e"
  shows "user_fields (previous_epoch_users (apply_filters ht dead fp d v)) e u \<subseteq>
     user_fields (previous_epoch_users v) e u"
proof -
  let ?v1 = "fold filter_local_users dead v"
  let ?v2 = "if fp \<noteq> [] then filter_previous_users fp ?v1 else ?v1"
  let ?v3 = "if d \<noteq> {} then filter_current_users ht d ?v2 else ?v2"
  have r: "apply_filters ht dead fp d v = ?v3"
    by (simp add: apply_filters_def Let_def)
  have a: "shrinks v ?v1"
    by (rule shrinks_fold [OF shrinks_filter_local_users wc wp])
  note a' = shrinksD [OF a]
  have b: "shrinks ?v1 ?v2"
    using shrinks_filter_previous_users [OF a'(2) a'(3)] shrinks_refl [OF a'(2) a'(3)]
    by (cases "fp \<noteq> []") simp_all
  note b' = shrinksD [OF b]
  have p1: "user_fields (previous_epoch_users ?v1) e u \<subseteq> user_fields (previous_epoch_users v) e u"
    by (rule fold_filter_local_users_previous)
  have p2: "user_fields (previous_epoch_users ?v2) e u \<subseteq> user_fields (previous_epoch_users ?v1) e u"
    using filter_previous_users_previous [OF a'(3), of fp e u] by (cases "fp \<noteq> []") simp_all
  have p3: "user_fields (previous_epoch_users ?v3) e u \<subseteq> user_fields (previous_epoch_users ?v2) e u"
  proof (cases "d = {}")
    case True
    then show ?thesis by simp
  next
    case False
    from filter_current_users_post [OF b'(2) b'(3), of ht d] obtain kept w where
      fc: "filter_current_users ht d ?v2 = w\<lparr>current_epoch_users := kept\<rparr>"
      and lp: "loop_post ht d (current_epoch_users ?v2) ?v2 kept w"
      by blast
    have l6: "\<And>e u. user_fields (previous_epoch_users w) e u =
          user_fields (previous_epoch_users ?v2) e u \<union>
          (if ht e then {} else user_fields (current_epoch_users ?v2) e u \<inter> d)"
      using lp unfolding loop_post_def by blast
    have p: "previous_epoch_users ?v3 = previous_epoch_users w"
      using False fc by simp
    show ?thesis unfolding p l6 using t by simp
  qed
  show ?thesis unfolding r using p1 p2 p3 by blast
qed

lemma copy_triggered_not_migrated:
  assumes wc: "wf_table (current_epoch_users v)" and wp: "wf_table (previous_epoch_users v)"
    and t: "ht e"
  shows "user_fields (previous_epoch_users
           (fst (find_local_copy_preconditions ht redop' reading copy_mask child_color
                   version_info pre v))) e u \<subseteq>
     user_fields (previous_epoch_users v) e u"
  unfolding find_local_copy_preconditions_view
  using triggered_not_migrated [where ht = ht and e = e, OF wc wp t]
  by (simp split: prod.splits)

lemma task_flow:
  assumes wc: "wf_table (current_epoch_users v)" and wp: "wf_table (previous_epoch_users v)"
    and fr: "fresh_above (next_address v) (current_epoch_users v)"
  shows "\<exists>w. filters_post ht
           (fst (snd (snd (task_analysis ht cdt usage' term_event child_color umask pre v)))) v w \<and>
         previous_epoch_users
           (fst (snd (add_local_user ht cdt usage' term_event base_user child_color version_info
                        umask pre v))) = previous_epoch_users w \<and>
         current_epoch_users
           (fst (snd (add_local_user ht cdt usage' term_event base_user child_color version_info
                        umask pre v))) =
           (if event_exists term_event
            then add_event_user (next_address v) term_event umask (current_epoch_users w)
            else current_epoch_users w) \<and>
         wf_table (current_epoch_users w) \<and>
         fresh_above (next_address v) (current_epoch_users w) \<and>
         (\<forall>e u. ht e \<longrightarrow>
            user_fields (previous_epoch_users w) e u \<subseteq> user_fields (previous_epoch_users v) e u)"
proof -
  obtain dead fp d pre1 where
    a: "task_analysis ht cdt usage' term_event child_color umask pre v = (dead, fp, d, pre1)"
    by (cases "task_analysis ht cdt usage' term_event child_color umask pre v") auto
  have dd: "set dead \<subseteq> Collect ht"
    using task_analysis_dead [of ht cdt usage' term_event child_color umask pre v]
    unfolding a by simp
  show ?thesis
  proof (cases "event_exists term_event")
    case False
    let ?w = "apply_filters ht dead fp d v"
    have r: "fst (snd (add_local_user ht cdt usage' term_event base_user child_color version_info
                        umask pre v)) = ?w"
      using False by (simp add: add_local_user_def a)
    note s = shrinksD [OF shrinks_apply_filters [OF wc wp, of ht dead fp d]]
    have f: "fresh_above (next_address v) (current_epoch_users ?w)"
      by (rule fresh_above_subset [OF fr s(4)])
    have n: "\<forall>e u. ht e \<longrightarrow>
        user_fields (previous_epoch_users ?w) e u \<subseteq> user_fields (previous_epoch_users v) e u"
      using triggered_not_migrated [where ht = ht, OF wc wp] by blast
    show ?thesis
      unfolding r a using apply_filters_post [OF wc wp dd, where fp = fp and d = d] False s(2) f n
      by auto
  next
    case True
    let ?obj = "\<lparr>usage = usage', child = child_color,
                 versions = (if IS_READ_ONLY usage'
                             then get_versions version_info (node_id (logical_node v))
                             else None)\<rparr>"
    let ?v2 = "add_reference (next_address v) (snd (legion_new ?obj v))"
    let ?w = "apply_filters ht dead fp d ?v2"
    have t2: "current_epoch_users ?v2 = current_epoch_users v"
      "previous_epoch_users ?v2 = previous_epoch_users v"
      by (simp_all add: add_reference_def legion_new_def)
    have wc2: "wf_table (current_epoch_users ?v2)" and wp2: "wf_table (previous_epoch_users ?v2)"
      unfolding t2 using wc wp by simp_all
    have rc: "current_epoch_users
           (fst (snd (add_local_user ht cdt usage' term_event base_user child_color version_info
                        umask pre v))) =
           add_event_user (next_address v) term_event umask (current_epoch_users ?w)"
      using True
      by (simp add: add_local_user_def a legion_new_def Let_def add_current_user_def)
    have rp: "previous_epoch_users
           (fst (snd (add_local_user ht cdt usage' term_event base_user child_color version_info
                        umask pre v))) = previous_epoch_users ?w"
      using True
      by (simp add: add_local_user_def a legion_new_def Let_def add_current_user_def)
    note s = shrinksD [OF shrinks_apply_filters [OF wc2 wp2, of ht dead fp d]]
    have f: "fresh_above (next_address v) (current_epoch_users ?w)"
      by (rule fresh_above_subset [OF fr s(4) [unfolded t2]])
    have p: "filters_post ht d v ?w"
      by (rule filters_post_tables [OF apply_filters_post [OF wc2 wp2 dd, where fp = fp and d = d] t2(1) [symmetric]])
    have n: "\<forall>e u. ht e \<longrightarrow>
        user_fields (previous_epoch_users ?w) e u \<subseteq> user_fields (previous_epoch_users v) e u"
      using triggered_not_migrated [where ht = ht, OF wc2 wp2] unfolding t2 by blast
    show ?thesis
      unfolding a using p rc rp True s(2) f n by auto
  qed
qed

lemma task_path_migration:
  assumes wc: "wf_table (current_epoch_users v)" and wp: "wf_table (previous_epoch_users v)"
    and fr: "fresh_above (next_address v) (current_epoch_users v)"
    and d: "d = fst (snd (snd (task_analysis ht cdt usage' term_event child_color umask pre v)))"
    and v': "v' = fst (snd (add_local_user ht cdt usage' term_event base_user child_color
                              version_info umask pre v))"
  shows "(\<forall>e. \<not> ht e \<longrightarrow>
            (\<forall>u. user_fields (current_epoch_users v') e u =
                   (if event_exists term_event \<and> e = term_event \<and> u = next_address v then umask
                    else user_fields (current_epoch_users v) e u - d) \<and>
                 user_fields (current_epoch_users v) e u \<inter> d \<subseteq>
                   user_fields (previous_epoch_users v') e u) \<and>
            (e \<in> set (map fst (current_epoch_users v')) \<longleftrightarrow>
               (event_exists term_event \<and> e = term_event) \<or>
               (\<exists>eu. map_of (current_epoch_users v) e = Some eu \<and>
                     \<not> (user_mask eu \<inter> d \<noteq> {} \<and> user_mask eu \<subseteq> d)))) \<and>
         (\<forall>e u. ht e \<longrightarrow>
            user_fields (previous_epoch_users v') e u \<subseteq> user_fields (previous_epoch_users v) e u)"
proof -
  from task_flow [OF wc wp fr, of ht cdt usage' term_event child_color umask pre base_user
      version_info]
  obtain w where
    fp: "filters_post ht d v w"
    and rp: "previous_epoch_users v' = previous_epoch_users w"
    and rc: "current_epoch_users v' =
           (if event_exists term_event
            then add_event_user (next_address v) term_event umask (current_epoch_users w)
            else current_epoch_users w)"
    and ww: "wf_table (current_epoch_users w)"
    and fw: "fresh_above (next_address v) (current_epoch_users w)"
    and n: "\<forall>e u. ht e \<longrightarrow>
            user_fields (previous_epoch_users w) e u \<subseteq> user_fields (previous_epoch_users v) e u"
    unfolding d v' by blast
  have f1: "user_fields (current_epoch_users w) e u = user_fields (current_epoch_users v) e u - d"
    and f2: "user_fields (current_epoch_users v) e u \<inter> d \<subseteq> user_fields (previous_epoch_users w) e u"
    and f3: "e \<in> set (map fst (current_epoch_users w)) \<longleftrightarrow>
           (\<exists>eu. map_of (current_epoch_users v) e = Some eu \<and>
                 \<not> (user_mask eu \<inter> d \<noteq> {} \<and> user_mask eu \<subseteq> d))"
    if "\<not> ht e" for e u
    using fp that unfolding filters_post_def by blast+
  have z: "user_fields (current_epoch_users w) term_event (next_address v) \<subseteq> umask"
    using fw unfolding fresh_above_def by simp
  note af = add_event_user_fields [OF ww z]
  note ak = add_event_user_keys [of "next_address v" term_event umask "current_epoch_users w"]
  show ?thesis
  proof (cases "event_exists term_event")
    case True
    have c: "current_epoch_users v' =
        add_event_user (next_address v) term_event umask (current_epoch_users w)"
      using rc True by simp
    have g1: "user_fields (current_epoch_users v') e u =
                   (if event_exists term_event \<and> e = term_event \<and> u = next_address v then umask
                    else user_fields (current_epoch_users v) e u - d)" if "\<not> ht e" for e u
      unfolding c af using True f1 [OF that] by simp
    have g3: "e \<in> set (map fst (current_epoch_users v')) \<longleftrightarrow>
               (event_exists term_event \<and> e = term_event) \<or>
               (\<exists>eu. map_of (current_epoch_users v) e = Some eu \<and>
                     \<not> (user_mask eu \<inter> d \<noteq> {} \<and> user_mask eu \<subseteq> d))" if "\<not> ht e" for e
      unfolding c ak using True f3 [OF that] by simp
    show ?thesis unfolding rp using g1 g3 f2 n by blast
  next
    case False
    have c: "current_epoch_users v' = current_epoch_users w"
      using rc False by simp
    have g1: "user_fields (current_epoch_users v') e u =
                   (if event_exists term_event \<and> e = term_event \<and> u = next_address v then umask
                    else user_fields (current_epoch_users v) e u - d)" if "\<not> ht e" for e u
      unfolding c using False f1 [OF that] by simp
    have g3: "e \<in> set (map fst (current_epoch_users v')) \<longleftrightarrow>
               (event_exists term_event \<and> e = term_event) \<or>
               (\<exists>eu. map_of (current_epoch_users v) e = Some eu \<and>
                     \<not> (user_mask eu \<inter> d \<noteq> {} \<and> user_mask eu \<subseteq> d))" if "\<not> ht e" for e
      unfolding c using False f3 [OF that] by simp
    show ?thesis unfolding rp using g1 g3 f2 n by blast
  qed
qed

lemma copy_path_migration:
  assumes wc: "wf_table (current_epoch_users v)" and wp: "wf_table (previous_epoch_users v)"
    and d: "d = fst (snd (snd (copy_analysis ht redop' reading copy_mask child_color
              (if is_valid child_color then None
               else get_versions version_info (node_id (logical_node v))) pre v)))"
    and v': "v' = fst (find_local_copy_preconditions ht redop' reading copy_mask child_color
                         version_info pre v)"
  shows "(\<forall>e. \<not> ht e \<longrightarrow>
            (\<forall>u. user_fields (current_epoch_users v') e u =
                   user_fields (current_epoch_users v) e u - d \<and>
                 user_fields (current_epoch_users v) e u \<inter> d \<subseteq>
                   user_fields (previous_epoch_users v') e u) \<and>
            (e \<in> set (map fst (current_epoch_users v')) \<longleftrightarrow>
               (\<exists>eu. map_of (current_epoch_users v) e = Some eu \<and>
                     \<not> (user_mask eu \<inter> d \<noteq> {} \<and> user_mask eu \<subseteq> d)))) \<and>
         (\<forall>e u. ht e \<longrightarrow>
            user_fields (previous_epoch_users v') e u \<subseteq> user_fields (previous_epoch_users v) e u)"
proof -
  have fp: "filters_post ht d v v'"
    unfolding d v' by (rule copy_flow [OF wc wp])
  have n: "user_fields (previous_epoch_users v') e u \<subseteq> user_fields (previous_epoch_users v) e u"
    if "ht e" for e u
    unfolding v' by (rule copy_triggered_not_migrated [where ht = ht and e = e, OF wc wp that])
  show ?thesis
    using fp n unfolding filters_post_def by blast
qed

lemma two_user_view_tables:
  "current_epoch_users two_user_view =
     [(2, \<lparr>user_mask = {0, 1}, users = multi_users [(1, {0}), (2, {0, 1})]\<rparr>),
      (4, \<lparr>user_mask = {0}, users = single_user 3\<rparr>)]"
  "previous_epoch_users two_user_view = [(1, \<lparr>user_mask = {0}, users = single_user 0\<rparr>)]"
  "next_address two_user_view = 4"
  "logical_node two_user_view = example_node"
  "user_heap two_user_view p = \<lparr>usage = read_write_usage, child = InvalidColor, versions = None\<rparr>"
  by (auto simp: two_user_view_def add_initial_user_def legion_new_def add_reference_def
      add_current_user_def add_event_user_def example_view_def Let_def)

lemma two_user_view_wf:
  "wf_table (current_epoch_users two_user_view)"
  "wf_table (previous_epoch_users two_user_view)"
  "fresh_above (next_address two_user_view) (current_epoch_users two_user_view)"
  unfolding two_user_view_tables
  by (auto simp: wf_table_def wf_bucket_def fresh_above_def user_fields_def bucket_fields_def)

lemma two_user_view_fields:
  "user_fields (current_epoch_users two_user_view) 2 1 = {0}"
  "user_fields (current_epoch_users two_user_view) 2 2 = {0, 1}"
  "user_fields (current_epoch_users two_user_view) 4 3 = {0}"
  "user_fields (current_epoch_users two_user_view) 3 4 = {}"
  "user_fields (previous_epoch_users two_user_view) 4 3 = {}"
  "map_of (current_epoch_users two_user_view) 2 =
     Some \<lparr>user_mask = {0, 1}, users = multi_users [(1, {0}), (2, {0, 1})]\<rparr>"
  unfolding two_user_view_tables
  by (simp_all add: user_fields_def bucket_fields_def)

lemma two_user_view_task_pass:
  "task_current_pass (\<lambda>e. e = 4) (\<lambda>a b. TRUE_DEPENDENCE) read_write_usage 3 InvalidColor {0} {}
     two_user_view = ([4], {2}, {0}, {})"
  unfolding task_current_pass_def two_user_view_tables
  by (simp add: task_current_step_def find_current_preconditions_def set_insert_def Let_def)

lemma two_user_view_copy_pass:
  "copy_current_pass (\<lambda>e. e = 4) 0 False {0} InvalidColor None Map.empty two_user_view =
     ([4], [2 \<mapsto> {0}], {0}, {})"
  unfolding copy_current_pass_def two_user_view_tables
  by (simp add: copy_current_step_def find_current_copy_preconditions_def same_version_skip_def
      record_dependence_def set_insert_def Let_def)

text \<open>
  Claim C3, as amended. In \<open>add_local_user\<close> and in
  \<open>find_local_copy_preconditions\<close>, on a view with well-formed tables, the dominated
  mask of the analysis is \<open>observed \<inter> (mask - non_dominated)\<close>, with \<open>observed\<close>
  and \<open>non_dominated\<close> as the current-epoch pass left them, and the view the call
  returns relates to the view it was given as follows. For every event that has not
  triggered, every user holds in the current epoch the fields it held there less the
  dominated ones (in the task path the caller is registered as well, under its term event,
  at the address the allocator hands out), and holds in the previous epoch every dominated
  field it held in the current epoch; the event is left in the current epoch exactly when
  it was there with a summary mask that the dominated mask does not overlap or does not
  cover. The users of a triggered event are not moved: under such an event no user
  holds a field in the previous epoch that it did not hold there before.
\<close>

theorem dominated_fields_migrate:
  assumes wc: "wf_table (current_epoch_users v)" and wp: "wf_table (previous_epoch_users v)"
    and fr: "fresh_above (next_address v) (current_epoch_users v)"
  shows
    "(case task_current_pass ht cdt usage' term_event child_color umask pre v of
        (dead_events, pre1, observed, non_dominated) \<Rightarrow>
          let dominated = observed \<inter> (umask - non_dominated);
              v' = fst (snd (add_local_user ht cdt usage' term_event base_user child_color
                               version_info umask pre v))
          in fst (snd (snd (task_analysis ht cdt usage' term_event child_color umask pre v))) =
               dominated \<and>
             (\<forall>e. \<not> ht e \<longrightarrow>
                (\<forall>u. user_fields (current_epoch_users v') e u =
                       (if event_exists term_event \<and> e = term_event \<and> u = next_address v
                        then umask
                        else user_fields (current_epoch_users v) e u - dominated) \<and>
                     user_fields (current_epoch_users v) e u \<inter> dominated \<subseteq>
                       user_fields (previous_epoch_users v') e u) \<and>
                (e \<in> set (map fst (current_epoch_users v')) \<longleftrightarrow>
                   (event_exists term_event \<and> e = term_event) \<or>
                   (\<exists>eu. map_of (current_epoch_users v) e = Some eu \<and>
                         \<not> (user_mask eu \<inter> dominated \<noteq> {} \<and> user_mask eu \<subseteq> dominated)))) \<and>
             (\<forall>e u. ht e \<longrightarrow>
                user_fields (previous_epoch_users v') e u \<subseteq>
                  user_fields (previous_epoch_users v) e u)) \<and>
     (case copy_current_pass ht redop' reading copy_mask copy_color
             (if is_valid copy_color then None
              else get_versions copy_info (node_id (logical_node v))) cpre v of
        (dead_events, pre1, observed, non_dominated) \<Rightarrow>
          let dominated = observed \<inter> (copy_mask - non_dominated);
              v' = fst (find_local_copy_preconditions ht redop' reading copy_mask copy_color
                          copy_info cpre v)
          in fst (snd (snd (copy_analysis ht redop' reading copy_mask copy_color
                              (if is_valid copy_color then None
                               else get_versions copy_info (node_id (logical_node v))) cpre v))) =
               dominated \<and>
             (\<forall>e. \<not> ht e \<longrightarrow>
                (\<forall>u. user_fields (current_epoch_users v') e u =
                       user_fields (current_epoch_users v) e u - dominated \<and>
                     user_fields (current_epoch_users v) e u \<inter> dominated \<subseteq>
                       user_fields (previous_epoch_users v') e u) \<and>
                (e \<in> set (map fst (current_epoch_users v')) \<longleftrightarrow>
                   (\<exists>eu. map_of (current_epoch_users v) e = Some eu \<and>
                         \<not> (user_mask eu \<inter> dominated \<noteq> {} \<and> user_mask eu \<subseteq> dominated)))) \<and>
             (\<forall>e u. ht e \<longrightarrow>
                user_fields (previous_epoch_users v') e u \<subseteq>
                  user_fields (previous_epoch_users v) e u))"
proof (rule conjI)
  obtain dead pre1 obs nd where
    p: "task_current_pass ht cdt usage' term_event child_color umask pre v = (dead, pre1, obs, nd)"
    by (cases "task_current_pass ht cdt usage' term_event child_color umask pre v") auto
  have d: "fst (snd (snd (task_analysis ht cdt usage' term_event child_color umask pre v))) =
      obs \<inter> (umask - nd)"
    unfolding task_analysis_dominated p by simp
  note m = task_path_migration [OF wc wp fr d [symmetric] refl,
      where base_user = base_user and version_info = version_info]
  show "case task_current_pass ht cdt usage' term_event child_color umask pre v of
        (dead_events, pre1, observed, non_dominated) \<Rightarrow>
          let dominated = observed \<inter> (umask - non_dominated);
              v' = fst (snd (add_local_user ht cdt usage' term_event base_user child_color
                               version_info umask pre v))
          in fst (snd (snd (task_analysis ht cdt usage' term_event child_color umask pre v))) =
               dominated \<and>
             (\<forall>e. \<not> ht e \<longrightarrow>
                (\<forall>u. user_fields (current_epoch_users v') e u =
                       (if event_exists term_event \<and> e = term_event \<and> u = next_address v
                        then umask
                        else user_fields (current_epoch_users v) e u - dominated) \<and>
                     user_fields (current_epoch_users v) e u \<inter> dominated \<subseteq>
                       user_fields (previous_epoch_users v') e u) \<and>
                (e \<in> set (map fst (current_epoch_users v')) \<longleftrightarrow>
                   (event_exists term_event \<and> e = term_event) \<or>
                   (\<exists>eu. map_of (current_epoch_users v) e = Some eu \<and>
                         \<not> (user_mask eu \<inter> dominated \<noteq> {} \<and> user_mask eu \<subseteq> dominated)))) \<and>
             (\<forall>e u. ht e \<longrightarrow>
                user_fields (previous_epoch_users v') e u \<subseteq>
                  user_fields (previous_epoch_users v) e u)"
    unfolding p prod.case Let_def using d m by (intro conjI) blast+
next
  let ?vs = "if is_valid copy_color then None
             else get_versions copy_info (node_id (logical_node v))"
  obtain dead pre1 obs nd where
    p: "copy_current_pass ht redop' reading copy_mask copy_color ?vs cpre v = (dead, pre1, obs, nd)"
    by (cases "copy_current_pass ht redop' reading copy_mask copy_color ?vs cpre v") auto
  have d: "fst (snd (snd (copy_analysis ht redop' reading copy_mask copy_color ?vs cpre v))) =
      obs \<inter> (copy_mask - nd)"
    unfolding copy_analysis_dominated p by simp
  note m = copy_path_migration [OF wc wp d [symmetric] refl]
  show "case copy_current_pass ht redop' reading copy_mask copy_color ?vs cpre v of
        (dead_events, pre1, observed, non_dominated) \<Rightarrow>
          let dominated = observed \<inter> (copy_mask - non_dominated);
              v' = fst (find_local_copy_preconditions ht redop' reading copy_mask copy_color
                          copy_info cpre v)
          in fst (snd (snd (copy_analysis ht redop' reading copy_mask copy_color ?vs cpre v))) =
               dominated \<and>
             (\<forall>e. \<not> ht e \<longrightarrow>
                (\<forall>u. user_fields (current_epoch_users v') e u =
                       user_fields (current_epoch_users v) e u - dominated \<and>
                     user_fields (current_epoch_users v) e u \<inter> dominated \<subseteq>
                       user_fields (previous_epoch_users v') e u) \<and>
                (e \<in> set (map fst (current_epoch_users v')) \<longleftrightarrow>
                   (\<exists>eu. map_of (current_epoch_users v) e = Some eu \<and>
                         \<not> (user_mask eu \<inter> dominated \<noteq> {} \<and> user_mask eu \<subseteq> dominated)))) \<and>
             (\<forall>e u. ht e \<longrightarrow>
                user_fields (previous_epoch_users v') e u \<subseteq>
                  user_fields (previous_epoch_users v) e u)"
    unfolding p prod.case Let_def using d m by (intro conjI) blast+
qed

text \<open>
  On \<open>two_user_view\<close>, for a read-write caller on field 0 when event 4 has
  triggered: field 0 is dominated; under event 2 user 1 moves to the previous epoch
  altogether and user 2 keeps field 1 in the current epoch while its field 0 moves; the
  user of the triggered event 4 is not found in the previous epoch.
\<close>

theorem dominated_fields_migrate_witness:
  "wf_table (current_epoch_users two_user_view) \<and>
   wf_table (previous_epoch_users two_user_view) \<and>
   fresh_above (next_address two_user_view) (current_epoch_users two_user_view) \<and>
   task_current_pass (\<lambda>e. e = 4) (\<lambda>a b. TRUE_DEPENDENCE) read_write_usage 3 InvalidColor {0} {}
     two_user_view = ([4], {2}, {0}, {}) \<and>
   copy_current_pass (\<lambda>e. e = 4) 0 False {0} InvalidColor None Map.empty two_user_view =
     ([4], [2 \<mapsto> {0}], {0}, {}) \<and>
   (let v' = fst (snd (add_local_user (\<lambda>e. e = 4) (\<lambda>a b. TRUE_DEPENDENCE) read_write_usage 3
                         True InvalidColor example_version_info {0} {} two_user_view))
    in user_fields (current_epoch_users v') 2 1 = {} \<and>
       user_fields (current_epoch_users v') 2 2 = {1} \<and>
       user_fields (current_epoch_users v') 3 4 = {0} \<and>
       {0} \<subseteq> user_fields (previous_epoch_users v') 2 1 \<and>
       {0} \<subseteq> user_fields (previous_epoch_users v') 2 2 \<and>
       2 \<in> set (map fst (current_epoch_users v')) \<and>
       user_fields (previous_epoch_users v') 4 3 = {}) \<and>
   (let v' = fst (find_local_copy_preconditions (\<lambda>e. e = 4) 0 False {0} InvalidColor
                    example_version_info Map.empty two_user_view)
    in user_fields (current_epoch_users v') 2 1 = {} \<and>
       user_fields (current_epoch_users v') 2 2 = {1} \<and>
       {0} \<subseteq> user_fields (previous_epoch_users v') 2 1 \<and>
       {0} \<subseteq> user_fields (previous_epoch_users v') 2 2 \<and>
       2 \<in> set (map fst (current_epoch_users v')) \<and>
       user_fields (previous_epoch_users v') 4 3 = {})"
proof -
  let ?T = "fst (snd (add_local_user (\<lambda>e. e = 4) (\<lambda>a b. TRUE_DEPENDENCE) read_write_usage 3
                         True InvalidColor example_version_info {0} {} two_user_view))"
  let ?C = "fst (find_local_copy_preconditions (\<lambda>e. e = 4) 0 False {0} InvalidColor
                    example_version_info Map.empty two_user_view)"
  note t = dominated_fields_migrate [OF two_user_view_wf,
      where ht = "\<lambda>e. e = 4" and cdt = "\<lambda>a b. TRUE_DEPENDENCE" and usage' = read_write_usage
        and term_event = 3 and child_color = InvalidColor and umask = "{0}" and pre = "{}"
        and base_user = True and version_info = example_version_info
        and redop' = 0 and reading = False and copy_mask = "{0}" and copy_color = InvalidColor
        and copy_info = example_version_info and cpre = Map.empty]
  have vs: "(if is_valid InvalidColor then None
             else get_versions example_version_info (node_id (logical_node two_user_view))) = None"
    by (simp add: example_version_info_def)
  have d: "{0::nat} \<inter> ({0} - {}) = {0}" by simp
  note t1 = t [THEN conjunct1, unfolded two_user_view_task_pass prod.case Let_def d]
  note t2 = t [THEN conjunct2, unfolded vs two_user_view_copy_pass prod.case Let_def d]
  note a = t1 [THEN conjunct2, THEN conjunct1, THEN spec, of 2]
  note a3 = t1 [THEN conjunct2, THEN conjunct1, THEN spec, of 3]
  note a4 = t1 [THEN conjunct2, THEN conjunct2, THEN spec, of 4, THEN spec, of 3]
  note b = t2 [THEN conjunct2, THEN conjunct1, THEN spec, of 2]
  note b4 = t2 [THEN conjunct2, THEN conjunct2, THEN spec, of 4, THEN spec, of 3]
  have ev: "event_exists 3" by (simp add: event_exists_def NO_EVENT_def)
  have T1: "user_fields (current_epoch_users ?T) 2 1 = {}"
    using a [THEN mp, THEN conjunct1, THEN spec, of 1, THEN conjunct1, unfolded two_user_view_fields two_user_view_tables(3)]
    by auto
  have T2: "user_fields (current_epoch_users ?T) 2 2 = {1}"
    using a [THEN mp, THEN conjunct1, THEN spec, of 2, THEN conjunct1, unfolded two_user_view_fields two_user_view_tables(3)]
    by auto
  have T3: "user_fields (current_epoch_users ?T) 3 4 = {0}"
    using a3 [THEN mp, THEN conjunct1, THEN spec, of 4, THEN conjunct1, unfolded two_user_view_fields two_user_view_tables(3)] ev
    by auto
  have T4: "{0} \<subseteq> user_fields (previous_epoch_users ?T) 2 1"
    using a [THEN mp, THEN conjunct1, THEN spec, of 1, THEN conjunct2, unfolded two_user_view_fields]
    by auto
  have T5: "{0} \<subseteq> user_fields (previous_epoch_users ?T) 2 2"
    using a [THEN mp, THEN conjunct1, THEN spec, of 2, THEN conjunct2, unfolded two_user_view_fields]
    by auto
  have T6: "2 \<in> set (map fst (current_epoch_users ?T))"
    using a [THEN mp, THEN conjunct2, unfolded two_user_view_fields]
    by auto
  have T7: "user_fields (previous_epoch_users ?T) 4 3 = {}"
    using a4 [unfolded two_user_view_fields] by auto
  have C1: "user_fields (current_epoch_users ?C) 2 1 = {}"
    using b [THEN mp, THEN conjunct1, THEN spec, of 1, THEN conjunct1, unfolded two_user_view_fields]
    by auto
  have C2: "user_fields (current_epoch_users ?C) 2 2 = {1}"
    using b [THEN mp, THEN conjunct1, THEN spec, of 2, THEN conjunct1, unfolded two_user_view_fields]
    by auto
  have C4: "{0} \<subseteq> user_fields (previous_epoch_users ?C) 2 1"
    using b [THEN mp, THEN conjunct1, THEN spec, of 1, THEN conjunct2, unfolded two_user_view_fields]
    by auto
  have C5: "{0} \<subseteq> user_fields (previous_epoch_users ?C) 2 2"
    using b [THEN mp, THEN conjunct1, THEN spec, of 2, THEN conjunct2, unfolded two_user_view_fields]
    by auto
  have C6: "2 \<in> set (map fst (current_epoch_users ?C))"
    using b [THEN mp, THEN conjunct2, unfolded two_user_view_fields]
    by auto
  have C7: "user_fields (previous_epoch_users ?C) 4 3 = {}"
    using b4 [unfolded two_user_view_fields] by auto
  show ?thesis
    unfolding Let_def
    using two_user_view_wf two_user_view_task_pass two_user_view_copy_pass
      T1 T2 T3 T4 T5 T6 T7 C1 C2 C4 C5 C6 C7
    by (intro conjI)
qed

text \<open>
  The claim as stated fails for the users of a triggered event. On \<open>two_user_view\<close>,
  when event 4 has triggered, field 0 is dominated in both analyzers and user 3 holds it
  in the current epoch under event 4, but after the call user 3 holds no field in the
  previous epoch: it was not moved there.
\<close>

theorem dominated_fields_counterexample:
  "(case task_current_pass (\<lambda>e. e = 4) (\<lambda>a b. TRUE_DEPENDENCE) read_write_usage 3 InvalidColor
           {0} {} two_user_view of
      (dead_events, pre1, observed, non_dominated) \<Rightarrow> observed \<inter> ({0} - non_dominated)) = {0} \<and>
   (case copy_current_pass (\<lambda>e. e = 4) 0 False {0} InvalidColor None Map.empty two_user_view of
      (dead_events, pre1, observed, non_dominated) \<Rightarrow> observed \<inter> ({0} - non_dominated)) = {0} \<and>
   user_fields (current_epoch_users two_user_view) 4 3 = {0} \<and>
   user_fields (previous_epoch_users
     (fst (snd (add_local_user (\<lambda>e. e = 4) (\<lambda>a b. TRUE_DEPENDENCE) read_write_usage 3
                  True InvalidColor example_version_info {0} {} two_user_view)))) 4 3 = {} \<and>
   user_fields (previous_epoch_users
     (fst (find_local_copy_preconditions (\<lambda>e. e = 4) 0 False {0} InvalidColor
             example_version_info Map.empty two_user_view))) 4 3 = {}"
proof -
  have d: "{0::nat} \<inter> ({0} - {}) = {0}" by simp
  have t: "user_fields (previous_epoch_users
     (fst (snd (add_local_user (\<lambda>e. e = 4) (\<lambda>a b. TRUE_DEPENDENCE) read_write_usage 3
                  True InvalidColor example_version_info {0} {} two_user_view)))) 4 3 = {}"
    using task_path_migration [OF two_user_view_wf refl refl,
        where ht = "\<lambda>e. e = 4" and cdt = "\<lambda>a b. TRUE_DEPENDENCE" and usage' = read_write_usage
        and term_event = 3 and child_color = InvalidColor and umask = "{0}" and pre = "{}"
        and base_user = True and version_info = example_version_info,
        THEN conjunct2, THEN spec, of 4, THEN spec, of 3, unfolded two_user_view_fields]
    by auto
  have c: "user_fields (previous_epoch_users
     (fst (find_local_copy_preconditions (\<lambda>e. e = 4) 0 False {0} InvalidColor
             example_version_info Map.empty two_user_view))) 4 3 = {}"
    using copy_triggered_not_migrated [OF two_user_view_wf(1,2),
        where ht = "\<lambda>e. e = 4" and e = 4 and u = 3 and redop' = 0 and reading = False
          and copy_mask = "{0}" and child_color = InvalidColor
          and version_info = example_version_info and pre = Map.empty,
        unfolded two_user_view_fields]
    by auto
  show ?thesis
    unfolding two_user_view_task_pass two_user_view_copy_pass prod.case d
    using t c two_user_view_fields(3) by simp
qed

subsection \<open>Versions are recorded by read-only users only\<close>

lemma user_heap_fold_drop:
  "user_heap (fold drop_reference xs w) = user_heap w"
  by (induction xs arbitrary: w)
     (simp_all add: drop_reference_def legion_delete_def remove_reference_def)

lemma user_heap_filter_local_users:
  "user_heap (filter_local_users e v) = user_heap v"
  by (simp add: filter_local_users_def Let_def release_users_def user_heap_fold_drop
      split: option.splits)

lemma user_heap_fold_filter_local_users:
  "user_heap (fold filter_local_users dead v) = user_heap v"
  by (induction dead arbitrary: v) (simp_all add: user_heap_filter_local_users)

lemma user_heap_apply_filters:
  assumes wc: "wf_table (current_epoch_users v)" and wp: "wf_table (previous_epoch_users v)"
  shows "user_heap (apply_filters ht dead fp d v) = user_heap v"
proof -
  let ?v1 = "fold filter_local_users dead v"
  let ?v2 = "if fp \<noteq> [] then filter_previous_users fp ?v1 else ?v1"
  let ?v3 = "if d \<noteq> {} then filter_current_users ht d ?v2 else ?v2"
  have r: "apply_filters ht dead fp d v = ?v3"
    by (simp add: apply_filters_def Let_def)
  have a: "shrinks v ?v1"
    by (rule shrinks_fold [OF shrinks_filter_local_users wc wp])
  note a' = shrinksD [OF a]
  have b: "shrinks ?v1 ?v2"
    using shrinks_filter_previous_users [OF a'(2) a'(3)] shrinks_refl [OF a'(2) a'(3)]
    by (cases "fp \<noteq> []") simp_all
  note b' = shrinksD [OF b]
  have h1: "user_heap ?v1 = user_heap v" by (rule user_heap_fold_filter_local_users)
  have h2: "user_heap ?v2 = user_heap ?v1"
    using filter_previous_users_frame [OF a'(3), of fp] unfolding entry_frame_def
    by (cases "fp \<noteq> []") simp_all
  have h3: "user_heap ?v3 = user_heap ?v2"
  proof (cases "d = {}")
    case True
    then show ?thesis by simp
  next
    case False
    from filter_current_users_post [OF b'(2) b'(3), of ht d] obtain kept w where
      fc: "filter_current_users ht d ?v2 = w\<lparr>current_epoch_users := kept\<rparr>"
      and lp: "loop_post ht d (current_epoch_users ?v2) ?v2 kept w"
      by blast
    have "user_heap w = user_heap ?v2"
      using lp unfolding loop_post_def entry_frame_def by blast
    then show ?thesis using False fc by simp
  qed
  show ?thesis unfolding r h3 h2 h1 ..
qed

lemma versions_read_only_add_initial_user:
  "versions_read_only v \<Longrightarrow> versions_read_only (add_initial_user e usage' m v)"
  by (simp add: versions_read_only_def add_initial_user_def legion_new_def add_reference_def
      add_current_user_def Let_def)

lemma versions_read_only_add_local_copy_user:
  "versions_read_only v \<Longrightarrow>
   versions_read_only (snd (add_local_copy_user usage' e base_user cc vi m v))"
  by (simp add: versions_read_only_def add_local_copy_user_def legion_new_def add_reference_def
      add_current_user_def Let_def)

lemma versions_read_only_find_local_copy_preconditions:
  assumes "wf_table (current_epoch_users v)" and "wf_table (previous_epoch_users v)"
    and "versions_read_only v"
  shows "versions_read_only (fst (find_local_copy_preconditions ht r rd cm cc vi pre v))"
  using assms(3) unfolding versions_read_only_def find_local_copy_preconditions_view
  by (simp add: user_heap_apply_filters [OF assms(1,2)] split: prod.splits)

lemma versions_read_only_add_local_user:
  assumes wc: "wf_table (current_epoch_users v)" and wp: "wf_table (previous_epoch_users v)"
    and i: "versions_read_only v"
  shows "versions_read_only (fst (snd (add_local_user ht cdt usage' te base_user cc vi m pre v)))"
proof -
  obtain dead fp d pre1 where
    a: "task_analysis ht cdt usage' te cc m pre v = (dead, fp, d, pre1)"
    by (cases "task_analysis ht cdt usage' te cc m pre v") auto
  let ?obj = "\<lparr>usage = usage', child = cc,
               versions = (if IS_READ_ONLY usage'
                           then get_versions vi (node_id (logical_node v)) else None)\<rparr>"
  let ?v2 = "add_reference (next_address v) (snd (legion_new ?obj v))"
  have t2: "current_epoch_users ?v2 = current_epoch_users v"
    "previous_epoch_users ?v2 = previous_epoch_users v"
    by (simp_all add: add_reference_def legion_new_def)
  have wc2: "wf_table (current_epoch_users ?v2)" and wp2: "wf_table (previous_epoch_users ?v2)"
    unfolding t2 using wc wp by simp_all
  have h2: "user_heap ?v2 = (user_heap v)(next_address v := ?obj)"
    by (simp add: add_reference_def legion_new_def)
  show ?thesis
  proof (cases "event_exists te")
    case False
    have r: "fst (snd (add_local_user ht cdt usage' te base_user cc vi m pre v)) =
        apply_filters ht dead fp d v"
      using False by (simp add: add_local_user_def a)
    show ?thesis
      using i unfolding r versions_read_only_def user_heap_apply_filters [OF wc wp] .
  next
    case True
    have r: "user_heap (fst (snd (add_local_user ht cdt usage' te base_user cc vi m pre v))) =
        user_heap (apply_filters ht dead fp d ?v2)"
      using True
      by (simp add: add_local_user_def a legion_new_def Let_def add_current_user_def)
    show ?thesis
      using i unfolding versions_read_only_def r user_heap_apply_filters [OF wc2 wp2] h2
      by simp
  qed
qed

subsection \<open>An update sent and processed\<close>

lemma position_append:
  "p \<in> set xs \<Longrightarrow> position p (xs @ ys) = position p xs"
  by (induction xs) auto

lemma position_new: "p \<notin> set xs \<Longrightarrow> position p (xs @ [p]) = length xs"
  by (induction xs) auto

lemma position_less: "p \<in> set xs \<Longrightarrow> position p xs < length xs"
  by (induction xs) auto

lemma nth_position: "p \<in> set xs \<Longrightarrow> xs ! position p xs = p"
  by (induction xs) auto

lemma position_nth: "distinct xs \<Longrightarrow> i < length xs \<Longrightarrow> position (xs ! i) xs = i"
proof (induction xs arbitrary: i)
  case Nil
  then show ?case by simp
next
  case (Cons a xs)
  show ?case
  proof (cases i)
    case 0
    then show ?thesis by simp
  next
    case (Suc j)
    then have "xs ! j \<in> set xs" using Cons.prems by simp
    then have "a \<noteq> xs ! j" using Cons.prems(1) by auto
    then show ?thesis using Suc Cons by simp
  qed
qed

lemma position_add_order: "p \<in> set order \<Longrightarrow> position p (add_order q order) = position p order"
  by (simp add: add_order_def position_append)

lemma set_add_order: "set (add_order q order) = insert q (set order)"
  by (auto simp: add_order_def)

lemma distinct_add_order: "distinct order \<Longrightarrow> distinct (add_order q order)"
  by (simp add: add_order_def)

lemma set_extend_order: "set (extend_order ps order) = set ps \<union> set order"
  unfolding extend_order_def
  by (induction ps arbitrary: order) (auto simp: set_add_order)

lemma distinct_extend_order: "distinct order \<Longrightarrow> distinct (extend_order ps order)"
  unfolding extend_order_def
  by (induction ps arbitrary: order) (auto simp: distinct_add_order)

lemma position_extend_order:
  "p \<in> set order \<Longrightarrow> position p (extend_order ps order) = position p order"
  unfolding extend_order_def
proof (induction ps arbitrary: order)
  case Nil
  then show ?case by simp
next
  case (Cons q ps)
  have "p \<in> set (add_order q order)" using Cons.prems by (simp add: set_add_order)
  from Cons.IH [OF this] show ?case
    using position_add_order [OF Cons.prems] by simp
qed

lemma extend_order_Cons: "extend_order (p # ps) order = extend_order ps (add_order p order)"
  by (simp add: extend_order_def)

lemma extend_order_Nil [simp]: "extend_order [] order = order"
  by (simp add: extend_order_def)

lemma extend_order_append:
  "extend_order (ps @ qs) order = extend_order qs (extend_order ps order)"
  by (simp add: extend_order_def)

lemma extend_order_fresh:
  "distinct ps \<Longrightarrow> set ps \<inter> set order = {} \<Longrightarrow> extend_order ps order = order @ ps"
proof (induction ps arbitrary: order)
  case Nil
  then show ?case by simp
next
  case (Cons p ps)
  have a: "add_order p order = order @ [p]" using Cons.prems(2) by (simp add: add_order_def)
  have "set ps \<inter> set (order @ [p]) = {}" using Cons.prems by auto
  from Cons.IH [OF _ this] show ?case
    using Cons.prems(1) unfolding extend_order_Cons a by simp
qed

lemma needed_ok_Nil [simp]: "needed_ok [] []"
  by (simp add: needed_ok_def)

lemma length_map_set:
  "sorted_wrt (<) (map fst m) \<Longrightarrow> map_of m k = None \<Longrightarrow> length (map_set k x m) = Suc (length m)"
  by (induction m) (auto split: if_splits)

lemma needed_ok_add:
  assumes ok: "needed_ok needed_users order" and new: "p \<notin> set order"
  shows "needed_ok (map_set p (int (length needed_users)) needed_users) (order @ [p])"
proof -
  have s: "sorted_wrt (<) (map fst needed_users)" and d: "distinct order"
    and l: "length needed_users = length order"
    and m: "\<And>q. map_of needed_users q =
         (if q \<in> set order then Some (int (position q order)) else None)"
    using ok unfolding needed_ok_def by blast+
  have none: "map_of needed_users p = None" using m [of p] new by simp
  have "map_of (map_set p (int (length needed_users)) needed_users) q =
      (if q \<in> set (order @ [p]) then Some (int (position q (order @ [p]))) else None)" for q
  proof (cases "q = p")
    case True
    then show ?thesis
      unfolding map_of_map_set using new l by (simp add: position_new)
  next
    case False
    then show ?thesis
      unfolding map_of_map_set m using position_append [of q order "[p]"] by auto
  qed
  then show ?thesis
    unfolding needed_ok_def
    using sorted_map_set [OF s] d new length_map_set [OF s none] l by simp
qed

lemma needed_ok_find_or_add:
  assumes ok: "needed_ok needed_users order"
  shows "\<exists>needed1 v1. find_or_add_index p needed_users v =
           (int (position p (add_order p order)), needed1, v1) \<and>
         needed_ok needed1 (add_order p order) \<and> same_tables v v1"
proof (cases "p \<in> set order")
  case True
  have m: "map_of needed_users p = Some (int (position p order))"
    using ok True unfolding needed_ok_def by simp
  have a: "add_order p order = order" using True by (simp add: add_order_def)
  show ?thesis unfolding a find_or_add_index_def m using ok by simp
next
  case False
  have m: "map_of needed_users p = None"
    using ok False unfolding needed_ok_def by simp
  have a: "add_order p order = order @ [p]" using False by (simp add: add_order_def)
  have l: "length needed_users = length order" using ok unfolding needed_ok_def by blast
  show ?thesis unfolding a find_or_add_index_def m
    using needed_ok_add [OF ok False] False l by (simp add: position_new Let_def)
qed

lemma selected_users_Nil [simp]: "selected_users overlap [] = []"
  by (simp add: selected_users_def)

lemma selected_users_skip:
  "snd it \<inter> overlap = {} \<Longrightarrow> selected_users overlap (it # m) = selected_users overlap m"
  by (simp add: selected_users_def)

lemma selected_users_take:
  "snd it \<inter> overlap \<noteq> {} \<Longrightarrow>
   selected_users overlap (it # m) = (fst it, snd it \<inter> overlap) # selected_users overlap m"
  by (simp add: selected_users_def)

lemma encode_pairs_Nil [simp]: "encode_pairs order [] = []"
  by (simp add: encode_pairs_def)

lemma encode_pairs_Cons:
  "encode_pairs order ((p, fm) # us) =
     [TInt (int (position p order)), TMask fm] @ encode_pairs order us"
  by (simp add: encode_pairs_def)

lemma encode_pairs_cong:
  assumes "\<And>p. p \<in> set (map fst us) \<Longrightarrow> position p order = position p order'"
  shows "encode_pairs order us = encode_pairs order' us"
  using assms unfolding encode_pairs_def by (induction us) auto

lemma encode_pairs_extend:
  assumes "set (map fst us) \<subseteq> set order"
  shows "encode_pairs (extend_order ps order) us = encode_pairs order us"
proof (rule encode_pairs_cong)
  fix p assume "p \<in> set (map fst us)"
  then have "p \<in> set order" using assms by blast
  then show "position p (extend_order ps order) = position p order"
    by (rule position_extend_order)
qed

lemma send_previous_user_step:
  assumes ok: "needed_ok needed_users order" and ov: "snd it \<inter> overlap \<noteq> {}"
  shows "\<exists>needed1 v1. send_previous_user overlap it (needed_users, rez, count, v) =
           (needed1,
            rez @ [TInt (int (position (fst it) (add_order (fst it) order))),
                   TMask (snd it \<inter> overlap)],
            count - 1, v1) \<and>
         needed_ok needed1 (add_order (fst it) order) \<and> same_tables v v1"
proof -
  from needed_ok_find_or_add [OF ok, of "fst it" v] obtain needed1 v1 where
    f: "find_or_add_index (fst it) needed_users v =
           (int (position (fst it) (add_order (fst it) order)), needed1, v1)"
    and ok1: "needed_ok needed1 (add_order (fst it) order)" and st: "same_tables v v1"
    by blast
  have "send_previous_user overlap it (needed_users, rez, count, v) =
           (needed1,
            rez @ [TInt (int (position (fst it) (add_order (fst it) order))),
                   TMask (snd it \<inter> overlap)],
            count - 1, v1)"
    unfolding send_previous_user_def using ov f by (simp add: Let_def)
  then show ?thesis using ok1 st by blast
qed

lemma send_previous_user_skip:
  assumes "snd it \<inter> overlap = {}"
  shows "send_previous_user overlap it acc = acc"
  unfolding send_previous_user_def using assms by (simp add: Let_def split: prod.splits)

lemma fold_send_previous_user:
  assumes ok: "needed_ok needed_users order"
  shows "\<exists>needed1 v1. fold (send_previous_user overlap) m (needed_users, rez, count, v) =
           (needed1,
            rez @ encode_pairs (extend_order (map fst (selected_users overlap m)) order)
                    (selected_users overlap m),
            count - int (length (selected_users overlap m)), v1) \<and>
         needed_ok needed1 (extend_order (map fst (selected_users overlap m)) order) \<and>
         same_tables v v1"
  using ok
proof (induction m arbitrary: needed_users order rez count v)
  case Nil
  then show ?case by simp
next
  case (Cons it m)
  show ?case
  proof (cases "snd it \<inter> overlap = {}")
    case True
    show ?thesis
      unfolding selected_users_skip [OF True]
      using Cons.IH [OF Cons.prems, of rez count v]
      by (simp add: send_previous_user_skip [OF True])
  next
    case False
    let ?p = "fst it"
    let ?o1 = "add_order ?p order"
    let ?sel = "selected_users overlap m"
    let ?fin = "extend_order (map fst ?sel) ?o1"
    let ?rez1 = "rez @ [TInt (int (position ?p ?o1)), TMask (snd it \<inter> overlap)]"
    from send_previous_user_step [OF Cons.prems False, of rez count v]
    obtain needed1 v1 where
      step: "send_previous_user overlap it (needed_users, rez, count, v) =
           (needed1, ?rez1, count - 1, v1)"
      and ok1: "needed_ok needed1 ?o1" and st: "same_tables v v1"
      by blast
    from Cons.IH [OF ok1, of ?rez1 "count - 1" v1]
    obtain needed2 v2 where
      f: "fold (send_previous_user overlap) m (needed1, ?rez1, count - 1, v1) =
           (needed2, ?rez1 @ encode_pairs ?fin ?sel, count - 1 - int (length ?sel), v2)"
      and ok2: "needed_ok needed2 ?fin" and st2: "same_tables v1 v2"
      by blast
    have pin: "?p \<in> set ?o1" by (simp add: set_add_order)
    have pos: "position ?p ?fin = position ?p ?o1"
      by (rule position_extend_order [OF pin])
    have sel: "selected_users overlap (it # m) = (?p, snd it \<inter> overlap) # ?sel"
      by (rule selected_users_take [OF False])
    have fin: "extend_order (map fst (selected_users overlap (it # m))) order = ?fin"
      unfolding sel by (simp add: extend_order_Cons)
    have "fold (send_previous_user overlap) (it # m) (needed_users, rez, count, v) =
           (needed2,
            rez @ encode_pairs ?fin (selected_users overlap (it # m)),
            count - int (length (selected_users overlap (it # m))), v2)"
      unfolding sel encode_pairs_Cons pos using step f by simp
    then show ?thesis
      unfolding fin using ok2 same_tables_trans [OF st st2] by blast
  qed
qed

lemma selected_Nil [simp]: "selected um [] = []"
  by (simp add: selected_def)

lemma selected_skip:
  "user_mask (snd cit) \<inter> um = {} \<Longrightarrow> selected um (cit # t) = selected um t"
  by (simp add: selected_def)

lemma selected_take:
  "user_mask (snd cit) \<inter> um \<noteq> {} \<Longrightarrow>
   selected um (cit # t) = (fst cit, selected_bucket um (snd cit)) # selected um t"
  by (simp add: selected_def)

lemma encode_entries_Nil [simp]: "encode_entries order [] = []"
  by (simp add: encode_entries_def)

lemma encode_entries_Cons:
  "encode_entries order (en # es) = encode_entry order en @ encode_entries order es"
  by (simp add: encode_entries_def)

lemma pointers_of_Nil [simp]: "pointers_of [] = []"
  by (simp add: pointers_of_def)

lemma pointers_of_Cons: "pointers_of (en # es) = map fst (snd en) @ pointers_of es"
  by (simp add: pointers_of_def)

lemma encode_entry_extend:
  assumes "set (map fst (snd en)) \<subseteq> set order"
  shows "encode_entry (extend_order ps order) en = encode_entry order en"
  unfolding encode_entry_def encode_pairs_extend [OF assms] ..

lemma count_header:
  "(- 1 - int n = - 1 \<or> - 1 - int n < - 2) \<longleftrightarrow> n \<noteq> 1"
  by auto

lemma send_previous_entry_skip:
  assumes "user_mask (snd pit) \<inter> um = {}"
  shows "send_previous_entry um pit acc = acc"
  unfolding send_previous_entry_def using assms by (simp add: Let_def split: prod.splits)

lemma send_previous_entry_step:
  assumes ok: "needed_ok needed_users order" and ov: "user_mask (snd pit) \<inter> um \<noteq> {}"
  shows "\<exists>needed1 v1. send_previous_entry um pit (needed_users, rez, n, v) =
           (needed1,
            rez @ encode_entry (extend_order (map fst (selected_bucket um (snd pit))) order)
                    (fst pit, selected_bucket um (snd pit)),
            Suc n, v1) \<and>
         needed_ok needed1 (extend_order (map fst (selected_bucket um (snd pit))) order) \<and>
         same_tables v v1"
proof (cases "users (snd pit)")
  case (single_user u)
  have sb: "selected_bucket um (snd pit) = [(u, user_mask (snd pit) \<inter> um)]"
    using single_user by (simp add: selected_bucket_def)
  have fin: "extend_order (map fst [(u, user_mask (snd pit) \<inter> um)]) order = add_order u order"
    by (simp add: extend_order_Cons)
  from needed_ok_find_or_add [OF ok, of u v] obtain needed1 v1 where
    f: "find_or_add_index u needed_users v =
           (int (position u (add_order u order)), needed1, v1)"
    and ok1: "needed_ok needed1 (add_order u order)" and st: "same_tables v v1"
    by blast
  have "send_previous_entry um pit (needed_users, rez, n, v) =
      (needed1,
       rez @ encode_entry (add_order u order) (fst pit, [(u, user_mask (snd pit) \<inter> um)]),
       Suc n, v1)"
    unfolding send_previous_entry_def encode_entry_def
    using ov single_user f by (simp add: Let_def encode_pairs_Cons)
  then show ?thesis unfolding sb fin using ok1 st by blast
next
  case (multi_users m)
  let ?ov = "user_mask (snd pit) \<inter> um"
  let ?sel = "selected_users ?ov m"
  let ?fin = "extend_order (map fst ?sel) order"
  have sb: "selected_bucket um (snd pit) = ?sel"
    using multi_users by (simp add: selected_bucket_def)
  from fold_send_previous_user [OF ok, of ?ov m "[]" "- 1" v] obtain needed1 v1 where
    f: "fold (send_previous_user ?ov) m (needed_users, [], - 1, v) =
           (needed1, [] @ encode_pairs ?fin ?sel, - 1 - int (length ?sel), v1)"
    and ok1: "needed_ok needed1 ?fin" and st: "same_tables v v1"
    by blast
  have "send_previous_entry um pit (needed_users, rez, n, v) =
      (needed1, rez @ encode_entry ?fin (fst pit, ?sel), Suc n, v1)"
    unfolding send_previous_entry_def encode_entry_def
    using ov multi_users f
    by (simp add: Let_def) (cases "selected_users (user_mask (snd pit) \<inter> um) m"; simp)
  then show ?thesis unfolding sb using ok1 st by blast
qed

lemma fold_send_previous_entry:
  assumes ok: "needed_ok needed_users order"
  shows "\<exists>needed1 v1. fold (send_previous_entry um) t (needed_users, rez, n, v) =
           (needed1,
            rez @ encode_entries (extend_order (pointers_of (selected um t)) order)
                    (selected um t),
            n + length (selected um t), v1) \<and>
         needed_ok needed1 (extend_order (pointers_of (selected um t)) order) \<and>
         same_tables v v1"
  using ok
proof (induction t arbitrary: needed_users order rez n v)
  case Nil
  then show ?case by simp
next
  case (Cons pit t)
  show ?case
  proof (cases "user_mask (snd pit) \<inter> um = {}")
    case True
    show ?thesis
      unfolding selected_skip [OF True]
      using Cons.IH [OF Cons.prems, of rez n v]
      by (simp add: send_previous_entry_skip [OF True])
  next
    case False
    let ?en = "(fst pit, selected_bucket um (snd pit))"
    let ?o1 = "extend_order (map fst (selected_bucket um (snd pit))) order"
    let ?sel = "selected um t"
    let ?fin = "extend_order (pointers_of ?sel) ?o1"
    let ?rez1 = "rez @ encode_entry ?o1 ?en"
    from send_previous_entry_step [OF Cons.prems False, of rez n v]
    obtain needed1 v1 where
      step: "send_previous_entry um pit (needed_users, rez, n, v) =
           (needed1, ?rez1, Suc n, v1)"
      and ok1: "needed_ok needed1 ?o1" and st: "same_tables v v1"
      by blast
    from Cons.IH [OF ok1, of ?rez1 "Suc n" v1]
    obtain needed2 v2 where
      f: "fold (send_previous_entry um) t (needed1, ?rez1, Suc n, v1) =
           (needed2, ?rez1 @ encode_entries ?fin ?sel, Suc n + length ?sel, v2)"
      and ok2: "needed_ok needed2 ?fin" and st2: "same_tables v1 v2"
      by blast
    have sub: "set (map fst (snd ?en)) \<subseteq> set ?o1"
      by (simp add: set_extend_order)
    have enc: "encode_entry ?fin ?en = encode_entry ?o1 ?en"
      by (rule encode_entry_extend [OF sub])
    have sel: "selected um (pit # t) = ?en # ?sel"
      by (rule selected_take [OF False])
    have fin: "extend_order (pointers_of (selected um (pit # t))) order = ?fin"
      unfolding sel pointers_of_Cons by (simp add: extend_order_append)
    have "fold (send_previous_entry um) (pit # t) (needed_users, rez, n, v) =
           (needed2,
            rez @ encode_entries ?fin (selected um (pit # t)),
            n + length (selected um (pit # t)), v2)"
      unfolding sel encode_entries_Cons enc using step f by simp
    then show ?thesis
      unfolding fin using ok2 same_tables_trans [OF st st2] by blast
  qed
qed

lemma find_or_add_index_new:
  assumes ok: "needed_ok needed_users order" and new: "p \<notin> set order"
  shows "find_or_add_index p needed_users v =
     (int (length needed_users), map_set p (int (length needed_users)) needed_users,
      add_reference p v)"
proof -
  have "map_of needed_users p = None" using ok new unfolding needed_ok_def by simp
  then show ?thesis by (simp add: find_or_add_index_def Let_def)
qed

lemma send_current_user_eq:
  assumes ok: "needed_ok needed_users order"
    and new: "snd it \<inter> overlap \<noteq> {} \<Longrightarrow> fst it \<notin> set order"
  shows "send_current_user overlap it (needed_users, rez, count, v) =
         send_previous_user overlap it (needed_users, rez, count, v)"
proof (cases "snd it \<inter> overlap = {}")
  case True
  then show ?thesis by (simp add: send_current_user_def send_previous_user_def Let_def)
next
  case False
  note f = find_or_add_index_new [OF ok new [OF False], of v]
  show ?thesis
    unfolding send_current_user_def send_previous_user_def using False f
    by (simp add: Let_def)
qed

lemma fold_send_current_user_eq:
  assumes ok: "needed_ok needed_users order"
    and d: "distinct (map fst (selected_users overlap m))"
    and dj: "set (map fst (selected_users overlap m)) \<inter> set order = {}"
  shows "fold (send_current_user overlap) m (needed_users, rez, count, v) =
         fold (send_previous_user overlap) m (needed_users, rez, count, v)"
  using ok d dj
proof (induction m arbitrary: needed_users order rez count v)
  case Nil
  then show ?case by simp
next
  case (Cons it m)
  show ?case
  proof (cases "snd it \<inter> overlap = {}")
    case True
    have a: "send_current_user overlap it (needed_users, rez, count, v) =
        (needed_users, rez, count, v)"
      using True by (simp add: send_current_user_def Let_def)
    have b: "send_previous_user overlap it (needed_users, rez, count, v) =
        (needed_users, rez, count, v)"
      by (rule send_previous_user_skip [OF True])
    show ?thesis
      using Cons.IH [OF Cons.prems(1), of rez count v] Cons.prems(2,3)
      unfolding selected_users_skip [OF True] by (simp add: a b)
  next
    case False
    note sel = selected_users_take [OF False, of m]
    have new: "fst it \<notin> set order" using Cons.prems(3) unfolding sel by simp
    have eq: "send_current_user overlap it (needed_users, rez, count, v) =
         send_previous_user overlap it (needed_users, rez, count, v)"
      by (rule send_current_user_eq [OF Cons.prems(1)]) (rule new)
    from send_previous_user_step [OF Cons.prems(1) False, of rez count v]
    obtain needed1 rez1 v1 where
      step: "send_previous_user overlap it (needed_users, rez, count, v) =
           (needed1, rez1, count - 1, v1)"
      and ok1: "needed_ok needed1 (add_order (fst it) order)"
      by blast
    have d1: "distinct (map fst (selected_users overlap m))"
      using Cons.prems(2) unfolding sel by simp
    have dj1: "set (map fst (selected_users overlap m)) \<inter> set (add_order (fst it) order) = {}"
      using Cons.prems(2,3) unfolding sel set_add_order by auto
    show ?thesis
      using Cons.IH [OF ok1 d1 dj1, of rez1 "count - 1" v1] by (simp add: eq step)
  qed
qed

lemma send_current_entry_eq:
  assumes ok: "needed_ok needed_users order"
    and d: "distinct (map fst (selected_bucket um (snd cit)))"
    and dj: "set (map fst (selected_bucket um (snd cit))) \<inter> set order = {}"
  shows "send_current_entry um cit (needed_users, rez, n, v) =
         send_previous_entry um cit (needed_users, rez, n, v)"
proof (cases "user_mask (snd cit) \<inter> um = {}")
  case True
  then show ?thesis by (simp add: send_current_entry_def send_previous_entry_def Let_def)
next
  case False
  show ?thesis
  proof (cases "users (snd cit)")
    case (single_user u)
    have "u \<notin> set order" using dj single_user by (simp add: selected_bucket_def)
    note f = find_or_add_index_new [OF ok this, of v]
    show ?thesis
      unfolding send_current_entry_def send_previous_entry_def using False single_user f
      by (simp add: Let_def)
  next
    case (multi_users m)
    have sb: "selected_bucket um (snd cit) = selected_users (user_mask (snd cit) \<inter> um) m"
      using multi_users by (simp add: selected_bucket_def)
    note e = fold_send_current_user_eq [OF ok d [unfolded sb] dj [unfolded sb], of "[]" "- 1" v]
    show ?thesis
      unfolding send_current_entry_def send_previous_entry_def using False multi_users e
      by (simp add: Let_def)
  qed
qed

lemma fold_send_current_entry_eq:
  assumes ok: "needed_ok needed_users order"
    and d: "distinct (pointers_of (selected um t))"
    and dj: "set (pointers_of (selected um t)) \<inter> set order = {}"
  shows "fold (send_current_entry um) t (needed_users, rez, n, v) =
         fold (send_previous_entry um) t (needed_users, rez, n, v)"
  using ok d dj
proof (induction t arbitrary: needed_users order rez n v)
  case Nil
  then show ?case by simp
next
  case (Cons cit t)
  show ?case
  proof (cases "user_mask (snd cit) \<inter> um = {}")
    case True
    have a: "send_current_entry um cit (needed_users, rez, n, v) = (needed_users, rez, n, v)"
      using True by (simp add: send_current_entry_def Let_def)
    have b: "send_previous_entry um cit (needed_users, rez, n, v) = (needed_users, rez, n, v)"
      by (rule send_previous_entry_skip [OF True])
    show ?thesis
      using Cons.IH [OF Cons.prems(1), of rez n v] Cons.prems(2,3)
      unfolding selected_skip [OF True] by (simp add: a b)
  next
    case False
    note sel = selected_take [OF False, of t]
    let ?ps = "map fst (selected_bucket um (snd cit))"
    have d0: "distinct ?ps" and dj0: "set ?ps \<inter> set order = {}"
      and d1: "distinct (pointers_of (selected um t))"
      and dj1: "set (pointers_of (selected um t)) \<inter> set (extend_order ?ps order) = {}"
      using Cons.prems(2,3) unfolding sel pointers_of_Cons set_extend_order by auto
    have eq: "send_current_entry um cit (needed_users, rez, n, v) =
         send_previous_entry um cit (needed_users, rez, n, v)"
      by (rule send_current_entry_eq [OF Cons.prems(1) d0 dj0])
    from send_previous_entry_step [OF Cons.prems(1) False, of rez n v]
    obtain needed1 rez1 v1 where
      step: "send_previous_entry um cit (needed_users, rez, n, v) =
           (needed1, rez1, Suc n, v1)"
      and ok1: "needed_ok needed1 (extend_order ?ps order)"
      by blast
    show ?thesis
      using Cons.IH [OF ok1 d1 dj1, of rez1 "Suc n" v1] by (simp add: eq step)
  qed
qed

lemma user_heap_drop_reference [simp]:
  "user_heap (drop_reference p (v :: MaterializedView)) = user_heap v"
  using same_tables_drop_reference [of v p] unfolding same_tables_def by simp

lemma fold_pack_needed_user:
  "\<exists>v1. fold pack_needed_user nd (rez, v) = (rez @ pack_tokens (user_heap v) nd, v1) \<and>
        same_tables v v1"
proof (induction nd arbitrary: rez v)
  case Nil
  then show ?case by (simp add: pack_tokens_def)
next
  case (Cons it nd)
  let ?rez1 = "rez @ [TInt (snd it), TUser (user_heap v (fst it))]"
  let ?v1 = "drop_reference (fst it) v"
  have step: "pack_needed_user it (rez, v) = (?rez1, ?v1)"
    by (simp add: pack_needed_user_def)
  from Cons.IH [of ?rez1 ?v1] obtain v2 where
    f: "fold pack_needed_user nd (?rez1, ?v1) = (?rez1 @ pack_tokens (user_heap ?v1) nd, v2)"
    and st: "same_tables ?v1 v2"
    by blast
  have "fold pack_needed_user (it # nd) (rez, v) =
      (rez @ pack_tokens (user_heap v) (it # nd), v2)"
    using step f by (simp add: pack_tokens_def)
  moreover have "same_tables v v2"
    by (rule same_tables_trans [OF same_tables_drop_reference st])
  ultimately show ?case by blast
qed

lemma encode_entries_extend:
  assumes "set (pointers_of es) \<subseteq> set order"
  shows "encode_entries (extend_order ps order) es = encode_entries order es"
  using assms
proof (induction es)
  case Nil
  then show ?case by simp
next
  case (Cons en es)
  have a: "set (map fst (snd en)) \<subseteq> set order" and b: "set (pointers_of es) \<subseteq> set order"
    using Cons.prems unfolding pointers_of_Cons by auto
  show ?case
    unfolding encode_entries_Cons encode_entry_extend [OF a] Cons.IH [OF b] ..
qed

lemma send_view_updates_tokens:
  assumes d: "distinct (pointers_of (selected um (current_epoch_users v)))"
  shows "\<exists>needed_users v'. send_view_updates um v =
      ([TSize (length needed_users)] @ pack_tokens (user_heap v) needed_users @
       [TUnsigned (length (selected um (current_epoch_users v)))] @
       encode_entries (final_order um v) (selected um (current_epoch_users v)) @
       [TUnsigned (length (selected um (previous_epoch_users v)))] @
       encode_entries (final_order um v) (selected um (previous_epoch_users v)), v') \<and>
    needed_ok needed_users (final_order um v) \<and> same_tables v v'"
proof -
  let ?selc = "selected um (current_epoch_users v)"
  let ?selp = "selected um (previous_epoch_users v)"
  let ?oc = "pointers_of ?selc"
  let ?fin = "final_order um v"
  have oc: "extend_order ?oc [] = ?oc"
    using extend_order_fresh [OF d, of "[]"] by simp
  have dj: "set ?oc \<inter> set [] = {}" by simp
  have ceq: "fold (send_current_entry um) (current_epoch_users v) ([], [], 0, v) =
      fold (send_previous_entry um) (current_epoch_users v) ([], [], 0, v)"
    by (rule fold_send_current_entry_eq [OF needed_ok_Nil d dj])
  from fold_send_previous_entry [OF needed_ok_Nil, of um "current_epoch_users v" "[]" 0 v]
  obtain needed1 v1 where
    f1: "fold (send_previous_entry um) (current_epoch_users v) ([], [], 0, v) =
        (needed1, [] @ encode_entries ?oc ?selc, 0 + length ?selc, v1)"
    and ok1: "needed_ok needed1 ?oc" and st1: "same_tables v v1"
    unfolding oc by blast
  from fold_send_previous_entry [OF ok1, of um "previous_epoch_users v" "[]" 0 v1]
  obtain needed2 v2 where
    f2: "fold (send_previous_entry um) (previous_epoch_users v) (needed1, [], 0, v1) =
        (needed2, [] @ encode_entries ?fin ?selp, 0 + length ?selp, v2)"
    and ok2: "needed_ok needed2 ?fin" and st2: "same_tables v1 v2"
    unfolding final_order_def by blast
  from fold_pack_needed_user [of needed2 "[TSize (length needed2)]" v2]
  obtain v3 where
    f3: "fold pack_needed_user needed2 ([TSize (length needed2)], v2) =
        ([TSize (length needed2)] @ pack_tokens (user_heap v2) needed2, v3)"
    and st3: "same_tables v2 v3"
    by blast
  have h: "user_heap v2 = user_heap v"
    using same_tables_trans [OF st1 st2] unfolding same_tables_def by simp
  have enc: "encode_entries ?fin ?selc = encode_entries ?oc ?selc"
    unfolding final_order_def by (rule encode_entries_extend) simp
  have "send_view_updates um v =
      ([TSize (length needed2)] @ pack_tokens (user_heap v) needed2 @
       [TUnsigned (length ?selc)] @ encode_entries ?fin ?selc @
       [TUnsigned (length ?selp)] @ encode_entries ?fin ?selp, v3)"
    unfolding send_view_updates_def ceq f1 enc using f2 f3 h by simp
  moreover have "same_tables v v3"
    by (rule same_tables_trans [OF same_tables_trans [OF st1 st2] st3])
  ultimately show ?thesis using ok2 by blast
qed

lemma length_fill_users [simp]: "length (fill_users a nd us) = length us"
  by (induction nd arbitrary: a us) auto

lemma unpack_users_pack:
  assumes "\<forall>it \<in> set nd. 0 \<le> snd it \<and> nat (snd it) < length us"
  shows "\<exists>v'. unpack_users (length nd) (pack_tokens heap nd @ rest) us v =
           Some (rest, fill_users (next_address v) nd us, v') \<and> unpacked heap nd v v'"
  using assms
proof (induction nd arbitrary: us v)
  case Nil
  then show ?case by (simp add: pack_tokens_def unpacked_def)
next
  case (Cons it nd)
  let ?a = "next_address v"
  let ?us1 = "us[nat (snd it) := Some ?a]"
  let ?v1 = "add_reference ?a (snd (legion_new (heap (fst it)) v))"
  have ok: "0 \<le> snd it \<and> nat (snd it) < length us" using Cons.prems by simp
  have rest_ok: "\<forall>it \<in> set nd. 0 \<le> snd it \<and> nat (snd it) < length ?us1"
    using Cons.prems by simp
  have n1: "next_address ?v1 = Suc ?a"
    by (simp add: legion_new_def add_reference_def)
  from Cons.IH [OF rest_ok, of ?v1] obtain v' where
    f: "unpack_users (length nd) (pack_tokens heap nd @ rest) ?us1 ?v1 =
           Some (rest, fill_users (Suc ?a) nd ?us1, v')"
    and u: "unpacked heap nd ?v1 v'"
    unfolding n1 by blast
  have step: "unpack_users (length (it # nd)) (pack_tokens heap (it # nd) @ rest) us v =
      unpack_users (length nd) (pack_tokens heap nd @ rest) ?us1 ?v1"
    using ok by (simp add: pack_tokens_def legion_new_def)
  have c: "current_epoch_users ?v1 = current_epoch_users v"
    and p: "previous_epoch_users ?v1 = previous_epoch_users v"
    and g: "outstanding_gc_events ?v1 = outstanding_gc_events v"
    and h0: "user_heap ?v1 ?a = heap (fst it)"
    and h1: "\<And>a. a \<noteq> ?a \<Longrightarrow> user_heap ?v1 a = user_heap v a"
    by (simp_all add: legion_new_def add_reference_def)
  have u1: "current_epoch_users v' = current_epoch_users ?v1"
    and u2: "previous_epoch_users v' = previous_epoch_users ?v1"
    and u3: "outstanding_gc_events v' = outstanding_gc_events ?v1"
    and u4: "next_address v' = Suc ?a + length nd"
    and u5: "\<And>k. k < length nd \<Longrightarrow> user_heap v' (Suc ?a + k) = heap (fst (nd ! k))"
    and u6: "\<And>a. a < Suc ?a \<Longrightarrow> user_heap v' a = user_heap ?v1 a"
    using u unfolding unpacked_def n1 by blast+
  have heap: "user_heap v' (?a + k) = heap (fst ((it # nd) ! k))" if "k < length (it # nd)" for k
  proof (cases k)
    case 0
    then show ?thesis using u6 [of ?a] h0 by simp
  next
    case (Suc j)
    then have "j < length nd" using that by simp
    from u5 [OF this] show ?thesis using Suc by simp
  qed
  have old: "user_heap v' a = user_heap v a" if "a < ?a" for a
    using u6 [of a] h1 [of a] that by simp
  have "unpacked heap (it # nd) v v'"
    unfolding unpacked_def
    using u1 u2 u3 u4 heap old unfolding c p g by simp
  then show ?case unfolding step using f by simp
qed

lemma fill_users_other:
  assumes "\<forall>it \<in> set nd. nat (snd it) \<noteq> i"
  shows "fill_users a nd us ! i = us ! i"
  using assms by (induction nd arbitrary: a us) auto

lemma fill_users_nth:
  assumes "distinct (map (\<lambda>it. nat (snd it)) nd)" and "k < length nd"
    and "\<forall>it \<in> set nd. nat (snd it) < length us"
  shows "fill_users a nd us ! nat (snd (nd ! k)) = Some (a + k)"
  using assms
proof (induction nd arbitrary: a us k)
  case Nil
  then show ?case by simp
next
  case (Cons it nd)
  show ?case
  proof (cases k)
    case 0
    have "nat (snd it) \<notin> (\<lambda>it. nat (snd it)) ` set nd" using Cons.prems(1) by simp
    have "\<forall>x \<in> set nd. nat (snd x) \<noteq> nat (snd it)"
    proof
      fix x assume "x \<in> set nd"
      then have "nat (snd x) \<in> (\<lambda>it. nat (snd it)) ` set nd" by (rule imageI)
      then show "nat (snd x) \<noteq> nat (snd it)"
        using \<open>nat (snd it) \<notin> (\<lambda>it. nat (snd it)) ` set nd\<close> by metis
    qed
    from fill_users_other [OF this] show ?thesis using 0 Cons.prems(3) by simp
  next
    case (Suc j)
    have "j < length nd" using Suc Cons.prems(2) by simp
    moreover have "distinct (map (\<lambda>it. nat (snd it)) nd)" using Cons.prems(1) by simp
    moreover have "\<forall>x \<in> set nd. nat (snd x) < length (us[nat (snd it) := Some a])"
      using Cons.prems(3) by simp
    ultimately show ?thesis using Cons.IH [of j "us[nat (snd it) := Some a]" "Suc a"] Suc
      by simp
  qed
qed

lemma position_inj:
  assumes "p \<in> set xs" and "q \<in> set xs" and "position p xs = position q xs"
  shows "p = q"
proof -
  have "xs ! position p xs = p" by (rule nth_position [OF assms(1)])
  moreover have "xs ! position q xs = q" by (rule nth_position [OF assms(2)])
  ultimately show ?thesis unfolding assms(3) by simp
qed

lemma needed_okD:
  assumes "needed_ok nd fin"
  shows "sorted_wrt (<) (map fst nd)" and "distinct fin" and "length nd = length fin"
    and "\<And>p. map_of nd p = (if p \<in> set fin then Some (int (position p fin)) else None)"
  using assms unfolding needed_ok_def by blast+

lemma needed_ok_entry:
  assumes ok: "needed_ok nd fin" and it: "it \<in> set nd"
  shows "fst it \<in> set fin" and "snd it = int (position (fst it) fin)"
proof -
  note d = needed_okD [OF ok]
  have "(fst it, snd it) \<in> set nd" using it by simp
  then have l: "map_of nd (fst it) = Some (snd it)"
    by (simp only: map_of_sorted_iff [OF d(1)])
  have m: "(if fst it \<in> set fin then Some (int (position (fst it) fin)) else None) =
      Some (snd it)"
    using l unfolding d(4) .
  show a: "fst it \<in> set fin"
  proof (rule ccontr)
    assume "fst it \<notin> set fin"
    then show False using m by simp
  qed
  show "snd it = int (position (fst it) fin)" using m a by simp
qed

lemma needed_ok_keys:
  assumes ok: "needed_ok nd fin"
  shows "set (map fst nd) = set fin"
proof -
  note d = needed_okD [OF ok]
  have "p \<in> set (map fst nd) \<longleftrightarrow> p \<in> set fin" for p
  proof -
    have "p \<in> set (map fst nd) \<longleftrightarrow> map_of nd p \<noteq> None"
      by (simp add: map_of_eq_None_iff)
    also have "\<dots> \<longleftrightarrow> p \<in> set fin" unfolding d(4) by simp
    finally show ?thesis .
  qed
  then show ?thesis by blast
qed

lemma needed_ok_valid:
  assumes ok: "needed_ok nd fin"
  shows "\<forall>it \<in> set nd. 0 \<le> snd it \<and> nat (snd it) < length (replicate (length nd) x)"
proof
  fix it assume it: "it \<in> set nd"
  note e = needed_ok_entry [OF ok it]
  have l: "length nd = length fin" by (rule needed_okD(3) [OF ok])
  show "0 \<le> snd it \<and> nat (snd it) < length (replicate (length nd) x)"
    unfolding e(2) using position_less [OF e(1)] l by simp
qed

lemma needed_ok_distinct_indexes:
  assumes ok: "needed_ok nd fin"
  shows "distinct (map (\<lambda>it. nat (snd it)) nd)"
proof -
  have s: "sorted_wrt (<) (map fst nd)" by (rule needed_okD(1) [OF ok])
  have d: "distinct (map fst nd)" by (rule sorted_distinct_keys [OF s])
  have "inj_on (\<lambda>it. nat (snd it)) (set nd)"
  proof (rule inj_onI)
    fix x y assume x: "x \<in> set nd" and y: "y \<in> set nd"
      and eq: "nat (snd x) = nat (snd y)"
    note ex = needed_ok_entry [OF ok x] and ey = needed_ok_entry [OF ok y]
    have "position (fst x) fin = position (fst y) fin"
      using eq unfolding ex(2) ey(2) by simp
    then have f: "fst x = fst y" by (rule position_inj [OF ex(1) ey(1)])
    then have "snd x = snd y" unfolding ex(2) ey(2) by simp
    then show "x = y" using f by (simp add: prod_eq_iff)
  qed
  moreover have "distinct nd" using d by (simp add: distinct_map)
  ultimately show ?thesis by (simp add: distinct_map)
qed

lemma position_map_fst:
  assumes "p \<in> set (map fst nd)"
  shows "position p (map fst nd) < length nd" and "fst (nd ! position p (map fst nd)) = p"
proof -
  show l: "position p (map fst nd) < length nd"
    using position_less [OF assms] by simp
  show "fst (nd ! position p (map fst nd)) = p"
    using nth_position [OF assms] l by simp
qed

lemma filled_users:
  assumes ok: "needed_ok nd fin" and p: "p \<in> set fin"
  shows "fill_users a nd (replicate (length nd) None) ! position p fin =
         Some (receiver_pointer nd a p)"
proof -
  have pk: "p \<in> set (map fst nd)" using p needed_ok_keys [OF ok] by simp
  note k = position_map_fst [OF pk]
  let ?k = "position p (map fst nd)"
  have "nd ! ?k \<in> set nd" using k(1) by simp
  note e = needed_ok_entry [OF ok this]
  have idx: "nat (snd (nd ! ?k)) = position p fin" unfolding e(2) k(2) by simp
  have v: "\<forall>it \<in> set nd. nat (snd it) < length (replicate (length nd) (None :: PhysicalUserPtr option))"
    using needed_ok_valid [OF ok, where x = "None :: PhysicalUserPtr option"] by simp
  have "fill_users a nd (replicate (length nd) None) ! nat (snd (nd ! ?k)) = Some (a + ?k)"
    by (rule fill_users_nth [OF needed_ok_distinct_indexes [OF ok] k(1) v])
  then show ?thesis unfolding idx receiver_pointer_def .
qed

lemma receiver_pointer_inj:
  assumes ok: "needed_ok nd fin" and p: "p \<in> set fin" and q: "q \<in> set fin"
    and eq: "receiver_pointer nd a p = receiver_pointer nd a q"
  shows "p = q"
proof -
  have pk: "p \<in> set (map fst nd)" and qk: "q \<in> set (map fst nd)"
    using p q needed_ok_keys [OF ok] by simp_all
  have "position p (map fst nd) = position q (map fst nd)"
    using eq unfolding receiver_pointer_def by simp
  then show ?thesis by (rule position_inj [OF pk qk])
qed

lemma receiver_pointer_bounds:
  assumes ok: "needed_ok nd fin" and p: "p \<in> set fin"
  shows "a \<le> receiver_pointer nd a p" and "receiver_pointer nd a p < a + length nd"
proof -
  have "p \<in> set (map fst nd)" using p needed_ok_keys [OF ok] by simp
  from position_map_fst(1) [OF this]
  show "a \<le> receiver_pointer nd a p" and "receiver_pointer nd a p < a + length nd"
    unfolding receiver_pointer_def by simp_all
qed

lemma unpacked_heap:
  assumes u: "unpacked heap nd v v'" and ok: "needed_ok nd fin" and p: "p \<in> set fin"
  shows "user_heap v' (receiver_pointer nd (next_address v) p) = heap p"
proof -
  have "p \<in> set (map fst nd)" using p needed_ok_keys [OF ok] by simp
  note k = position_map_fst [OF this]
  have "user_heap v' (next_address v + position p (map fst nd)) =
      heap (fst (nd ! position p (map fst nd)))"
    using u k(1) unfolding unpacked_def by blast
  then show ?thesis unfolding receiver_pointer_def k(2) .
qed

lemma length_install_one [simp]:
  "length (fst (install_one add tr order ev it st)) = length (fst st)"
  by (simp add: install_one_def)

lemma length_fold_install_one [simp]:
  "length (fst (fold (install_one add tr order ev) us st)) = length (fst st)"
  by (induction us arbitrary: st) simp_all

lemma length_install_entry [simp]:
  "length (fst (install_entry add tr order en st)) = length (fst st)"
  by (simp add: install_entry_def)

lemma install_user_ok:
  assumes u: "users_ok users_vec tr order" and p: "fst it \<in> set order"
    and l: "length (fst st) = length order"
  shows "install_user add users_vec ev (int (position (fst it) order)) (snd it) st =
         Some (install_one add tr order ev it st)"
proof -
  have lt: "position (fst it) order < length order" by (rule position_less [OF p])
  have lu: "length users_vec = length order"
    and g: "users_vec ! position (fst it) order = Some (tr (fst it))"
    using u p unfolding users_ok_def by blast+
  obtain nr v where st: "st = (nr, v)" by (cases st)
  show ?thesis
    unfolding install_user_def install_one_def st using lt lu g l [unfolded st] by simp
qed

lemma install_users_encode:
  assumes u: "users_ok users_vec tr order" and sub: "set (map fst us) \<subseteq> set order"
    and l: "length (fst st) = length order"
  shows "install_users add users_vec ev (length us) (encode_pairs order us @ rest) st =
         Some (rest, fold (install_one add tr order ev) us st)"
  using sub l
proof (induction us arbitrary: st)
  case Nil
  then show ?case by simp
next
  case (Cons it us)
  obtain p fm where it: "it = (p, fm)" by (cases it)
  have p: "fst it \<in> set order" and sub': "set (map fst us) \<subseteq> set order"
    using Cons.prems(1) by simp_all
  note i = install_user_ok [OF u p Cons.prems(2), of add ev]
  have l1: "length (fst (install_one add tr order ev it st)) = length order"
    using Cons.prems(2) by simp
  show ?case
    unfolding it encode_pairs_Cons
    using i [unfolded it] Cons.IH [OF sub' l1] by (simp add: it)
qed

lemma single_entry:
  assumes "length us = 1"
  shows "\<exists>p fm. us = [(p, fm)]"
proof (cases us)
  case Nil
  then show ?thesis using assms by simp
next
  case (Cons a list)
  then have "list = []" using assms by simp
  then show ?thesis using Cons by (cases a) simp
qed

lemma process_events_step:
  assumes u: "users_ok users_vec tr order" and sub: "set (map fst (snd en)) \<subseteq> set order"
    and l: "length (fst st) = length order"
  shows "process_events add users_vec (Suc n) (encode_entry order en @ rest) st =
         process_events add users_vec n rest (install_entry add tr order en st)"
proof -
  obtain e us where en: "en = (e, us)" by (cases en)
  let ?st1 = "fold (install_one add tr order e) us st"
  have ie: "install_entry add tr order (e, us) st =
      (fst ?st1, (snd ?st1)\<lparr>outstanding_gc_events := insert e (outstanding_gc_events (snd ?st1))\<rparr>)"
    by (simp add: install_entry_def)
  have sub': "set (map fst us) \<subseteq> set order" using sub en by simp
  show ?thesis
  proof (cases "length us = 1")
    case True
    then obtain p fm where us: "us = [(p, fm)]" using single_entry by blast
    have p: "fst (p, fm) \<in> set order" using sub' us by simp
    note i = install_user_ok [OF u p l, of add e]
    have enc: "encode_entry order (e, us) @ rest =
        TEvent e # TInt (int (position p order)) # TMask fm # rest"
      unfolding us by (simp add: encode_entry_def encode_pairs_Cons)
    have st1: "?st1 = install_one add tr order e (p, fm) st" unfolding us by simp
    show ?thesis
      unfolding en enc ie st1 using i by (simp add: case_prod_beta)
  next
    case False
    have enc: "encode_entry order (e, us) @ rest =
        TEvent e # TInt (- 1 - int (length us)) # (encode_pairs order us @ rest)"
      using False by (simp add: encode_entry_def)
    note i = install_users_encode [OF u sub' l, of add e rest]
    have n: "nat (- (- 1 - int (length us)) - 1) = length us" by simp
    show ?thesis
      unfolding en enc ie by (simp add: n i case_prod_beta del: of_nat_add)
  qed
qed

lemma process_events_encode:
  assumes u: "users_ok users_vec tr order" and sub: "set (pointers_of es) \<subseteq> set order"
    and l: "length (fst st) = length order"
  shows "process_events add users_vec (length es) (encode_entries order es @ rest) st =
         Some (rest, install_entries add tr order es st)"
  using sub l
proof (induction es arbitrary: st)
  case Nil
  then show ?case by (simp add: install_entries_def)
next
  case (Cons en es)
  have a: "set (map fst (snd en)) \<subseteq> set order" and b: "set (pointers_of es) \<subseteq> set order"
    using Cons.prems(1) unfolding pointers_of_Cons by auto
  have l1: "length (fst (install_entry add tr order en st)) = length order"
    using Cons.prems(2) by simp
  have "process_events add users_vec (length (en # es))
      (encode_entries order (en # es) @ rest) st =
      process_events add users_vec (length es) (encode_entries order es @ rest)
        (install_entry add tr order en st)"
    unfolding encode_entries_Cons
    using process_events_step [OF u a Cons.prems(2), of add "length es"
        "encode_entries order es @ rest"]
    by simp
  then show ?case
    using Cons.IH [OF b l1] by (simp add: install_entries_def)
qed

lemma install_one_current:
  "current_epoch_users (snd (install_one add_current_user tr order ev it st)) =
     add_event_user (tr (fst it)) ev (snd it) (current_epoch_users (snd st))"
  "previous_epoch_users (snd (install_one add_current_user tr order ev it st)) =
     previous_epoch_users (snd st)"
  "outstanding_gc_events (snd (install_one add_current_user tr order ev it st)) =
     outstanding_gc_events (snd st)"
  "next_address (snd (install_one add_current_user tr order ev it st)) = next_address (snd st)"
  "user_heap (snd (install_one add_current_user tr order ev it st)) = user_heap (snd st)"
  by (simp_all add: install_one_def add_current_user_def add_reference_def)

lemma install_one_previous:
  "previous_epoch_users (snd (install_one add_previous_user tr order ev it st)) =
     add_event_user (tr (fst it)) ev (snd it) (previous_epoch_users (snd st))"
  "current_epoch_users (snd (install_one add_previous_user tr order ev it st)) =
     current_epoch_users (snd st)"
  "outstanding_gc_events (snd (install_one add_previous_user tr order ev it st)) =
     outstanding_gc_events (snd st)"
  "next_address (snd (install_one add_previous_user tr order ev it st)) = next_address (snd st)"
  "user_heap (snd (install_one add_previous_user tr order ev it st)) = user_heap (snd st)"
  by (simp_all add: install_one_def add_previous_user_def add_reference_def)

lemma fold_install_one_current:
  "current_epoch_users (snd (fold (install_one add_current_user tr order ev) us st)) =
     install_users_table tr ev us (current_epoch_users (snd st))"
  "previous_epoch_users (snd (fold (install_one add_current_user tr order ev) us st)) =
     previous_epoch_users (snd st)"
  "outstanding_gc_events (snd (fold (install_one add_current_user tr order ev) us st)) =
     outstanding_gc_events (snd st)"
  "next_address (snd (fold (install_one add_current_user tr order ev) us st)) =
     next_address (snd st)"
  "user_heap (snd (fold (install_one add_current_user tr order ev) us st)) = user_heap (snd st)"
  unfolding install_users_table_def
  by (induction us arbitrary: st) (simp_all add: install_one_current)

lemma fold_install_one_previous:
  "previous_epoch_users (snd (fold (install_one add_previous_user tr order ev) us st)) =
     install_users_table tr ev us (previous_epoch_users (snd st))"
  "current_epoch_users (snd (fold (install_one add_previous_user tr order ev) us st)) =
     current_epoch_users (snd st)"
  "outstanding_gc_events (snd (fold (install_one add_previous_user tr order ev) us st)) =
     outstanding_gc_events (snd st)"
  "next_address (snd (fold (install_one add_previous_user tr order ev) us st)) =
     next_address (snd st)"
  "user_heap (snd (fold (install_one add_previous_user tr order ev) us st)) = user_heap (snd st)"
  unfolding install_users_table_def
  by (induction us arbitrary: st) (simp_all add: install_one_previous)

lemma install_entries_current:
  "installed_current tr es (snd st) (snd (install_entries add_current_user tr order es st))"
proof (induction es arbitrary: st)
  case Nil
  then show ?case by (simp add: install_entries_def installed_current_def install_table_def)
next
  case (Cons en es)
  let ?st1 = "install_entry add_current_user tr order en st"
  have a: "current_epoch_users (snd ?st1) =
        install_users_table tr (fst en) (snd en) (current_epoch_users (snd st))"
    and b: "previous_epoch_users (snd ?st1) = previous_epoch_users (snd st)"
    and c: "outstanding_gc_events (snd ?st1) = insert (fst en) (outstanding_gc_events (snd st))"
    and d: "next_address (snd ?st1) = next_address (snd st)"
    and e: "user_heap (snd ?st1) = user_heap (snd st)"
    by (simp_all add: install_entry_def fold_install_one_current)
  have r: "install_entries add_current_user tr order (en # es) st =
      install_entries add_current_user tr order es ?st1"
    by (simp add: install_entries_def)
  show ?case
    using Cons.IH [of ?st1] unfolding r installed_current_def a b c d e
    by (auto simp: install_table_def)
qed

lemma install_entries_previous:
  "installed_previous tr es (snd st) (snd (install_entries add_previous_user tr order es st))"
proof (induction es arbitrary: st)
  case Nil
  then show ?case by (simp add: install_entries_def installed_previous_def install_table_def)
next
  case (Cons en es)
  let ?st1 = "install_entry add_previous_user tr order en st"
  have a: "previous_epoch_users (snd ?st1) =
        install_users_table tr (fst en) (snd en) (previous_epoch_users (snd st))"
    and b: "current_epoch_users (snd ?st1) = current_epoch_users (snd st)"
    and c: "outstanding_gc_events (snd ?st1) = insert (fst en) (outstanding_gc_events (snd st))"
    and d: "next_address (snd ?st1) = next_address (snd st)"
    and e: "user_heap (snd ?st1) = user_heap (snd st)"
    by (simp_all add: install_entry_def fold_install_one_previous)
  have r: "install_entries add_previous_user tr order (en # es) st =
      install_entries add_previous_user tr order es ?st1"
    by (simp add: install_entries_def)
  show ?case
    using Cons.IH [of ?st1] unfolding r installed_previous_def a b c d e
    by (auto simp: install_table_def)
qed

lemma length_install_entries [simp]:
  "length (fst (install_entries add tr order es st)) = length (fst st)"
  unfolding install_entries_def by (induction es arbitrary: st) simp_all

lemma update_round_trip:
  assumes d: "distinct (pointers_of (selected um (current_epoch_users vs)))"
  shows "\<exists>nd vr'. process_update (fst (send_view_updates um vs)) vr = Some (vr', []) \<and>
           needed_ok nd (final_order um vs) \<and> delivered um vs nd vr vr' \<and>
           fst (send_view_updates um vs) =
             [TSize (length nd)] @ pack_tokens (user_heap vs) nd @
             [TUnsigned (length (selected um (current_epoch_users vs)))] @
             encode_entries (final_order um vs) (selected um (current_epoch_users vs)) @
             [TUnsigned (length (selected um (previous_epoch_users vs)))] @
             encode_entries (final_order um vs) (selected um (previous_epoch_users vs)) \<and>
           same_tables vs (snd (send_view_updates um vs))"
proof -
  let ?selc = "selected um (current_epoch_users vs)"
  let ?selp = "selected um (previous_epoch_users vs)"
  let ?fin = "final_order um vs"
  from send_view_updates_tokens [OF d] obtain nd vs' where
    msg: "send_view_updates um vs =
      ([TSize (length nd)] @ pack_tokens (user_heap vs) nd @
       [TUnsigned (length ?selc)] @ encode_entries ?fin ?selc @
       [TUnsigned (length ?selp)] @ encode_entries ?fin ?selp, vs')"
    and ok: "needed_ok nd ?fin" and st: "same_tables vs vs'"
    by blast
  let ?n = "length nd"
  let ?a = "next_address vr"
  let ?tr = "receiver_pointer nd ?a"
  let ?rest2 = "TUnsigned (length ?selp) # (encode_entries ?fin ?selp @ [])"
  let ?rest1 = "TUnsigned (length ?selc) # (encode_entries ?fin ?selc @ ?rest2)"
  let ?users = "fill_users ?a nd (replicate ?n None)"
  have ln: "?n = length ?fin" by (rule needed_okD(3) [OF ok])
  from unpack_users_pack [OF needed_ok_valid [OF ok, where x = "None :: PhysicalUserPtr option"],
      of "user_heap vs" ?rest1 vr]
  obtain v1 where
    un: "unpack_users ?n (pack_tokens (user_heap vs) nd @ ?rest1) (replicate ?n None) vr =
        Some (?rest1, ?users, v1)"
    and u: "unpacked (user_heap vs) nd vr v1"
    by blast
  have uok: "users_ok ?users ?tr ?fin"
    unfolding users_ok_def using ln filled_users [OF ok, of _ ?a] by simp
  have subc: "set (pointers_of ?selc) \<subseteq> set ?fin"
    and subp: "set (pointers_of ?selp) \<subseteq> set ?fin"
    unfolding final_order_def set_extend_order by simp_all
  let ?st1 = "(replicate ?n False, v1)"
  let ?st2 = "install_entries add_current_user ?tr ?fin ?selc ?st1"
  let ?st3 = "install_entries add_previous_user ?tr ?fin ?selp ?st2"
  have l1: "length (fst ?st1) = length ?fin" using ln by simp
  have pc: "process_events add_current_user ?users (length ?selc)
      (encode_entries ?fin ?selc @ ?rest2) ?st1 = Some (?rest2, ?st2)"
    by (rule process_events_encode [OF uok subc l1])
  have l2: "length (fst ?st2) = length ?fin"
    using ln by simp
  have pp: "process_events add_previous_user ?users (length ?selp)
      (encode_entries ?fin ?selp @ []) ?st2 = Some ([], ?st3)"
    by (rule process_events_encode [OF uok subp l2])
  have toks: "fst (send_view_updates um vs) =
      TSize ?n # (pack_tokens (user_heap vs) nd @ ?rest1)"
    unfolding msg by simp
  have pu: "process_update (fst (send_view_updates um vs)) vr = Some (snd ?st3, [])"
    unfolding toks process_update_def using un pc pp
    by (simp add: case_prod_beta)
  note ic = install_entries_current [of ?tr ?selc ?st1 ?fin, unfolded installed_current_def]
  note ip = install_entries_previous [of ?tr ?selp ?st2 ?fin, unfolded installed_previous_def]
  have u1: "current_epoch_users v1 = current_epoch_users vr"
    and u2: "previous_epoch_users v1 = previous_epoch_users vr"
    and u3: "outstanding_gc_events v1 = outstanding_gc_events vr"
    and u4: "next_address v1 = ?a + ?n"
    and u6: "\<forall>a < ?a. user_heap v1 a = user_heap vr a"
    using u unfolding unpacked_def by blast+
  have hp: "\<forall>p \<in> set ?fin. user_heap v1 (?tr p) = user_heap vs p"
    using unpacked_heap [OF u ok] by blast
  have "delivered um vs nd vr (snd ?st3)"
    unfolding delivered_def using ic ip u1 u2 u3 u4 u6 hp by simp
  then show ?thesis using pu ok st unfolding msg by auto
qed

lemma selected_bucket_fields:
  assumes wf: "wf_bucket eu" and ov: "user_mask eu \<inter> um \<noteq> {}"
    and p: "p \<in> set (map fst (selected_bucket um eu))"
  shows "bucket_fields eu p \<noteq> {}"
proof (cases "users eu")
  case (single_user u)
  have "p = u" using p by (simp add: selected_bucket_def single_user)
  then show ?thesis using ov by (auto simp: bucket_fields_def single_user)
next
  case (multi_users m)
  have s: "sorted_wrt (<) (map fst m)"
    using wf by (simp add: wf_bucket_def multi_users)
  have "p \<in> fst ` {it \<in> set m. snd it \<inter> (user_mask eu \<inter> um) \<noteq> {}}"
    using p by (force simp: selected_bucket_def multi_users selected_users_def)
  then obtain fm where a: "(p, fm) \<in> set m" and b: "fm \<inter> (user_mask eu \<inter> um) \<noteq> {}"
    by force
  have "map_of m p = Some fm"
    using map_of_sorted_iff [OF s] a by blast
  then show ?thesis using b by (auto simp: bucket_fields_def multi_users)
qed

lemma distinct_selected_bucket:
  assumes wf: "wf_bucket eu"
  shows "distinct (map fst (selected_bucket um eu))"
proof (cases "users eu")
  case (single_user u)
  then show ?thesis by (simp add: selected_bucket_def)
next
  case (multi_users m)
  have s: "sorted_wrt (<) (map fst m)"
    using wf by (simp add: wf_bucket_def multi_users)
  have d: "distinct (map fst m)" by (rule sorted_distinct_keys [OF s])
  have "map fst (selected_users ov m) = map fst (filter (\<lambda>it. snd it \<inter> ov \<noteq> {}) m)" for ov
    unfolding selected_users_def by (induction m) auto
  then show ?thesis
    using d by (simp add: selected_bucket_def multi_users distinct_map_filter)
qed

lemma pointers_of_selected_fields:
  assumes wf: "wf_table t" and p: "p \<in> set (pointers_of (selected um t))"
  shows "\<exists>e \<in> set (map fst t). user_fields t e p \<noteq> {}"
proof -
  from p obtain e eu where a: "(e, eu) \<in> set t" and ov: "user_mask eu \<inter> um \<noteq> {}"
    and q: "p \<in> set (map fst (selected_bucket um eu))"
    by (auto simp: pointers_of_def selected_def)
  have wb: "wf_bucket eu" using wf a unfolding wf_table_def by auto
  have s: "sorted_wrt (<) (map fst t)" using wf unfolding wf_table_def by blast
  have m: "map_of t e = Some eu" using map_of_sorted_iff [OF s] a by blast
  have "user_fields t e p \<noteq> {}"
    unfolding user_fields_Some [OF m] by (rule selected_bucket_fields [OF wb ov q])
  moreover have "e \<in> set (map fst t)" using a by force
  ultimately show ?thesis by blast
qed

lemma one_event_tail:
  assumes wf: "wf_table (cit # t)" and o: "one_event (cit # t)"
  shows "one_event t"
  unfolding one_event_def
proof (intro allI impI)
  fix e e' u
  assume a: "user_fields t e u \<noteq> {}" and b: "user_fields t e' u \<noteq> {}"
  have s: "sorted_wrt (<) (map fst (cit # t))" using wf unfolding wf_table_def by blast
  have k: "x \<in> set (map fst t) \<Longrightarrow> x \<noteq> fst cit" for x using s by auto
  have in_keys: "x \<in> set (map fst t)" if "user_fields t x u \<noteq> {}" for x
  proof (rule ccontr)
    assume "x \<notin> set (map fst t)"
    then have "map_of t x = None" by (simp add: map_of_eq_None_iff)
    then show False using that by (simp add: user_fields_def)
  qed
  have ea: "e \<in> set (map fst t)" by (rule in_keys [OF a])
  have eb: "e' \<in> set (map fst t)" by (rule in_keys [OF b])
  have "user_fields (cit # t) e u = user_fields t e u"
    using k [OF ea] by (cases cit) (simp add: user_fields_def)
  moreover have "user_fields (cit # t) e' u = user_fields t e' u"
    using k [OF eb] by (cases cit) (simp add: user_fields_def)
  ultimately show "e = e'" using o a b unfolding one_event_def by metis
qed

lemma distinct_pointers_of_selected:
  assumes wf: "wf_table t" and o: "one_event t"
  shows "distinct (pointers_of (selected um t))"
  using wf o
proof (induction t)
  case Nil
  then show ?case by simp
next
  case (Cons cit t)
  obtain e eu where cit: "cit = (e, eu)" by (cases cit)
  note w = wf_table_ConsD [OF Cons.prems(1) [unfolded cit]]
  have wt: "wf_table t" using Cons.prems(1) unfolding wf_table_def by simp
  have wb: "wf_bucket eu" using Cons.prems(1) unfolding wf_table_def cit by simp
  have s: "sorted_wrt (<) (map fst (cit # t))" using Cons.prems(1) unfolding wf_table_def by blast
  have k: "x \<in> set (map fst t) \<Longrightarrow> x \<noteq> e" for x using s unfolding cit by auto
  have ot: "one_event t" by (rule one_event_tail [OF Cons.prems])
  note ih = Cons.IH [OF wt ot]
  show ?case
  proof (cases "user_mask eu \<inter> um = {}")
    case True
    have "selected um (cit # t) = selected um t"
      unfolding cit by (rule selected_skip) (simp add: True)
    then show ?thesis using ih by simp
  next
    case False
    have r: "pointers_of (selected um (cit # t)) =
        map fst (selected_bucket um eu) @ pointers_of (selected um t)"
      using False by (simp add: selected_def pointers_of_def cit)
    have dj: "set (map fst (selected_bucket um eu)) \<inter> set (pointers_of (selected um t)) = {}"
    proof (rule ccontr)
      assume "\<not> ?thesis"
      then obtain p where p1: "p \<in> set (map fst (selected_bucket um eu))"
        and p2: "p \<in> set (pointers_of (selected um t))" by blast
      from pointers_of_selected_fields [OF wt p2] obtain e' where
        e': "e' \<in> set (map fst t)" and f': "user_fields t e' p \<noteq> {}" by blast
      have ne: "e' \<noteq> e" by (rule k [OF e'])
      have a: "user_fields (cit # t) e' p \<noteq> {}"
        using f' ne by (simp add: user_fields_def cit)
      have b: "user_fields (cit # t) e p \<noteq> {}"
        using selected_bucket_fields [OF wb False p1] by (simp add: user_fields_def cit)
      show False using Cons.prems(2) a b ne unfolding one_event_def by metis
    qed
    show ?thesis
      unfolding r using distinct_selected_bucket [OF wb, of um] ih dj by simp
  qed
qed

lemma wf_bucket_no_overlap:
  assumes wf: "wf_bucket eu" and ov: "user_mask eu \<inter> um = {}"
  shows "filter (\<lambda>it. snd it \<inter> um \<noteq> {}) (bucket_masks eu) = []"
proof (cases "users eu")
  case (single_user u)
  then show ?thesis using ov by (simp add: bucket_masks_def)
next
  case (multi_users m)
  have u: "user_mask eu = \<Union> (snd ` set m)" using wf by (simp add: wf_bucket_def multi_users)
  have "snd it \<inter> um = {}" if "it \<in> set m" for it
    using ov that unfolding u by blast
  then show ?thesis by (simp add: bucket_masks_def multi_users filter_empty_conv)
qed

lemma wf_bucket_overlap:
  assumes wf: "wf_bucket eu" and ov: "user_mask eu \<inter> um \<noteq> {}"
  shows "filter (\<lambda>it. snd it \<inter> um \<noteq> {}) (bucket_masks eu) \<noteq> []"
    and "selected_bucket um eu =
           map (\<lambda>it. (fst it, snd it \<inter> um)) (filter (\<lambda>it. snd it \<inter> um \<noteq> {}) (bucket_masks eu))"
proof -
  show "filter (\<lambda>it. snd it \<inter> um \<noteq> {}) (bucket_masks eu) \<noteq> []"
  proof (cases "users eu")
    case (single_user u)
    then show ?thesis using ov by (simp add: bucket_masks_def)
  next
    case (multi_users m)
    have u: "user_mask eu = \<Union> (snd ` set m)" using wf by (simp add: wf_bucket_def multi_users)
    from ov obtain it where "it \<in> set m" and "snd it \<inter> um \<noteq> {}" unfolding u by blast
    then show ?thesis by (auto simp: bucket_masks_def multi_users filter_empty_conv)
  qed
  show "selected_bucket um eu =
           map (\<lambda>it. (fst it, snd it \<inter> um)) (filter (\<lambda>it. snd it \<inter> um \<noteq> {}) (bucket_masks eu))"
  proof (cases "users eu")
    case (single_user u)
    then show ?thesis using ov by (simp add: bucket_masks_def selected_bucket_def)
  next
    case (multi_users m)
    have u: "user_mask eu = \<Union> (snd ` set m)" using wf by (simp add: wf_bucket_def multi_users)
    have e: "snd it \<inter> (user_mask eu \<inter> um) = snd it \<inter> um" if "it \<in> set m" for it
      using that unfolding u by blast
    have "selected_users (user_mask eu \<inter> um) xs =
        map (\<lambda>it. (fst it, snd it \<inter> um)) (filter (\<lambda>it. snd it \<inter> um \<noteq> {}) xs)"
      if "set xs \<subseteq> set m" for xs
      using that
    proof (induction xs)
      case Nil
      then show ?case by simp
    next
      case (Cons it xs)
      have i: "it \<in> set m" and r: "set xs \<subseteq> set m" using Cons.prems by simp_all
      show ?case
      proof (cases "snd it \<inter> um = {}")
        case True
        have "selected_users (user_mask eu \<inter> um) (it # xs) = selected_users (user_mask eu \<inter> um) xs"
          by (rule selected_users_skip) (simp add: e [OF i] True)
        then show ?thesis using Cons.IH [OF r] True by simp
      next
        case False
        have "selected_users (user_mask eu \<inter> um) (it # xs) =
            (fst it, snd it \<inter> (user_mask eu \<inter> um)) # selected_users (user_mask eu \<inter> um) xs"
          by (rule selected_users_take) (simp add: e [OF i] False)
        then show ?thesis using Cons.IH [OF r] False e [OF i] by simp
      qed
    qed
    then show ?thesis by (simp add: bucket_masks_def selected_bucket_def multi_users)
  qed
qed

lemma fold_add_current_locally:
  "current_epoch_users (fold (\<lambda>it w. add_current_user (copy (fst it)) e (snd it \<inter> um) w) xs v) =
     install_users_table copy e (map (\<lambda>it. (fst it, snd it \<inter> um)) xs) (current_epoch_users v)"
  "previous_epoch_users (fold (\<lambda>it w. add_current_user (copy (fst it)) e (snd it \<inter> um) w) xs v) =
     previous_epoch_users v"
  "outstanding_gc_events (fold (\<lambda>it w. add_current_user (copy (fst it)) e (snd it \<inter> um) w) xs v) =
     outstanding_gc_events v"
  unfolding install_users_table_def
  by (induction xs arbitrary: v) (simp_all add: add_current_user_def)

lemma fold_add_previous_locally:
  "previous_epoch_users (fold (\<lambda>it w. add_previous_user (copy (fst it)) e (snd it \<inter> um) w) xs v) =
     install_users_table copy e (map (\<lambda>it. (fst it, snd it \<inter> um)) xs) (previous_epoch_users v)"
  "current_epoch_users (fold (\<lambda>it w. add_previous_user (copy (fst it)) e (snd it \<inter> um) w) xs v) =
     current_epoch_users v"
  "outstanding_gc_events (fold (\<lambda>it w. add_previous_user (copy (fst it)) e (snd it \<inter> um) w) xs v) =
     outstanding_gc_events v"
  unfolding install_users_table_def
  by (induction xs arbitrary: v) (simp_all add: add_previous_user_def)

lemma apply_current_locally:
  assumes wf: "wf_table t"
  shows "current_epoch_users (fold (apply_entry_locally add_current_user copy um) t v) =
           install_table copy (selected um t) (current_epoch_users v) \<and>
         previous_epoch_users (fold (apply_entry_locally add_current_user copy um) t v) =
           previous_epoch_users v \<and>
         outstanding_gc_events (fold (apply_entry_locally add_current_user copy um) t v) =
           outstanding_gc_events v \<union> fst ` set (selected um t)"
  using wf
proof (induction t arbitrary: v)
  case Nil
  then show ?case by (simp add: install_table_def)
next
  case (Cons cit t)
  have wt: "wf_table t" and wb: "wf_bucket (snd cit)"
    using Cons.prems unfolding wf_table_def by simp_all
  let ?v1 = "apply_entry_locally add_current_user copy um cit v"
  note ih = Cons.IH [OF wt, of ?v1]
  show ?case
  proof (cases "user_mask (snd cit) \<inter> um = {}")
    case True
    have s: "selected um (cit # t) = selected um t" by (rule selected_skip [OF True])
    have v1: "?v1 = v"
      using wf_bucket_no_overlap [OF wb True] by (simp add: apply_entry_locally_def)
    show ?thesis using ih unfolding s by (simp add: v1)
  next
    case False
    have s: "selected um (cit # t) = (fst cit, selected_bucket um (snd cit)) # selected um t"
      using False by (simp add: selected_def)
    note o = wf_bucket_overlap [OF wb False]
    have c: "current_epoch_users ?v1 =
        install_users_table copy (fst cit) (selected_bucket um (snd cit)) (current_epoch_users v)"
      and p: "previous_epoch_users ?v1 = previous_epoch_users v"
      and g: "outstanding_gc_events ?v1 = insert (fst cit) (outstanding_gc_events v)"
      using o(1) by (simp_all add: apply_entry_locally_def Let_def fold_add_current_locally o(2))
    show ?thesis using ih unfolding s c p g by (simp add: install_table_def)
  qed
qed

lemma apply_previous_locally:
  assumes wf: "wf_table t"
  shows "previous_epoch_users (fold (apply_entry_locally add_previous_user copy um) t v) =
           install_table copy (selected um t) (previous_epoch_users v) \<and>
         current_epoch_users (fold (apply_entry_locally add_previous_user copy um) t v) =
           current_epoch_users v \<and>
         outstanding_gc_events (fold (apply_entry_locally add_previous_user copy um) t v) =
           outstanding_gc_events v \<union> fst ` set (selected um t)"
  using wf
proof (induction t arbitrary: v)
  case Nil
  then show ?case by (simp add: install_table_def)
next
  case (Cons cit t)
  have wt: "wf_table t" and wb: "wf_bucket (snd cit)"
    using Cons.prems unfolding wf_table_def by simp_all
  let ?v1 = "apply_entry_locally add_previous_user copy um cit v"
  note ih = Cons.IH [OF wt, of ?v1]
  show ?case
  proof (cases "user_mask (snd cit) \<inter> um = {}")
    case True
    have s: "selected um (cit # t) = selected um t" by (rule selected_skip [OF True])
    have v1: "?v1 = v"
      using wf_bucket_no_overlap [OF wb True] by (simp add: apply_entry_locally_def)
    show ?thesis using ih unfolding s by (simp add: v1)
  next
    case False
    have s: "selected um (cit # t) = (fst cit, selected_bucket um (snd cit)) # selected um t"
      using False by (simp add: selected_def)
    note o = wf_bucket_overlap [OF wb False]
    have c: "previous_epoch_users ?v1 =
        install_users_table copy (fst cit) (selected_bucket um (snd cit)) (previous_epoch_users v)"
      and p: "current_epoch_users ?v1 = current_epoch_users v"
      and g: "outstanding_gc_events ?v1 = insert (fst cit) (outstanding_gc_events v)"
      using o(1) by (simp_all add: apply_entry_locally_def Let_def fold_add_previous_locally o(2))
    show ?thesis using ih unfolding s c p g by (simp add: install_table_def)
  qed
qed

lemma local_update_tables:
  assumes wc: "wf_table (current_epoch_users vs)" and wp: "wf_table (previous_epoch_users vs)"
  shows "current_epoch_users (local_update copy um vs vr) =
           install_table copy (selected um (current_epoch_users vs)) (current_epoch_users vr)"
    and "previous_epoch_users (local_update copy um vs vr) =
           install_table copy (selected um (previous_epoch_users vs)) (previous_epoch_users vr)"
    and "outstanding_gc_events (local_update copy um vs vr) =
           outstanding_gc_events vr \<union> fst ` set (selected um (current_epoch_users vs)) \<union>
             fst ` set (selected um (previous_epoch_users vs))"
  unfolding local_update_def
  using apply_current_locally [OF wc, of copy um vr]
    apply_previous_locally [OF wp, of copy um
      "fold (apply_entry_locally add_current_user copy um) (current_epoch_users vs) vr"]
  by simp_all

text \<open>
  Claim C7. For a sender whose tables are well formed and whose current-epoch users are
  each registered under one event, as the operations of a view leave them, for any update
  mask and any receiver: the message \<open>send_view_updates\<close> builds has the wire format
  of \<open>encode_entries\<close> (a bucket of which exactly one user overlaps the update mask is
  written like a single user, and a bucket with any other number n of overlapping users is
  announced by the count -1 - n, which the receiver reads as n users);
  \<open>process_update\<close> decodes the message to its end; and the receiver is left with the
  current epoch, the previous epoch and the outstanding events that \<open>local_update\<close>
  gives, where every user of the sender is replaced by its copy, a new object of the
  receiver that holds the same record, distinct users having distinct copies. The tables
  of the sender are as they were.
\<close>

theorem remote_update_matches_local:
  assumes wc: "wf_table (current_epoch_users vs)" and wp: "wf_table (previous_epoch_users vs)"
    and o: "one_event (current_epoch_users vs)"
  shows "\<exists>needed_users vr'.
     needed_ok needed_users (final_order um vs) \<and>
     fst (send_view_updates um vs) =
       [TSize (length needed_users)] @ pack_tokens (user_heap vs) needed_users @
       [TUnsigned (length (selected um (current_epoch_users vs)))] @
       encode_entries (final_order um vs) (selected um (current_epoch_users vs)) @
       [TUnsigned (length (selected um (previous_epoch_users vs)))] @
       encode_entries (final_order um vs) (selected um (previous_epoch_users vs)) \<and>
     same_tables vs (snd (send_view_updates um vs)) \<and>
     process_update (fst (send_view_updates um vs)) vr = Some (vr', []) \<and>
     (let copy = receiver_pointer needed_users (next_address vr) in
        current_epoch_users vr' = current_epoch_users (local_update copy um vs vr) \<and>
        previous_epoch_users vr' = previous_epoch_users (local_update copy um vs vr) \<and>
        outstanding_gc_events vr' = outstanding_gc_events (local_update copy um vs vr) \<and>
        inj_on copy (set (final_order um vs)) \<and>
        (\<forall>p \<in> set (final_order um vs).
           user_heap vr' (copy p) = user_heap vs p \<and>
           next_address vr \<le> copy p \<and> copy p < next_address vr'))"
proof -
  have d: "distinct (pointers_of (selected um (current_epoch_users vs)))"
    by (rule distinct_pointers_of_selected [OF wc o])
  from update_round_trip [OF d, of vr] obtain nd vr' where
    pu: "process_update (fst (send_view_updates um vs)) vr = Some (vr', [])"
    and ok: "needed_ok nd (final_order um vs)"
    and dl: "delivered um vs nd vr vr'"
    and m: "fst (send_view_updates um vs) =
       [TSize (length nd)] @ pack_tokens (user_heap vs) nd @
       [TUnsigned (length (selected um (current_epoch_users vs)))] @
       encode_entries (final_order um vs) (selected um (current_epoch_users vs)) @
       [TUnsigned (length (selected um (previous_epoch_users vs)))] @
       encode_entries (final_order um vs) (selected um (previous_epoch_users vs))"
    and s: "same_tables vs (snd (send_view_updates um vs))"
    by blast
  let ?copy = "receiver_pointer nd (next_address vr)"
  note lt = local_update_tables [OF wc wp, of ?copy um vr]
  have c: "current_epoch_users vr' = current_epoch_users (local_update ?copy um vs vr)"
    and p: "previous_epoch_users vr' = previous_epoch_users (local_update ?copy um vs vr)"
    and g: "outstanding_gc_events vr' = outstanding_gc_events (local_update ?copy um vs vr)"
    and n: "next_address vr' = next_address vr + length nd"
    and h: "\<forall>p \<in> set (final_order um vs). user_heap vr' (?copy p) = user_heap vs p"
    using dl unfolding delivered_def lt by blast+
  have i: "inj_on ?copy (set (final_order um vs))"
    unfolding inj_on_def using receiver_pointer_inj [OF ok] by blast
  have b: "\<forall>p \<in> set (final_order um vs).
      next_address vr \<le> ?copy p \<and> ?copy p < next_address vr'"
    unfolding n using receiver_pointer_bounds [OF ok] by blast
  show ?thesis
    unfolding Let_def using ok m s pu c p g i h b by blast
qed

lemma two_user_view_one_event: "one_event (current_epoch_users two_user_view)"
  unfolding two_user_view_tables one_event_def
  by (auto simp: user_fields_def bucket_fields_def split: if_splits)

lemma two_user_view_message_0:
  "fst (send_view_updates {0} two_user_view) =
     [TSize 4,
      TInt 3, TUser \<lparr>usage = read_write_usage, child = InvalidColor, versions = None\<rparr>,
      TInt 0, TUser \<lparr>usage = read_write_usage, child = InvalidColor, versions = None\<rparr>,
      TInt 1, TUser \<lparr>usage = read_write_usage, child = InvalidColor, versions = None\<rparr>,
      TInt 2, TUser \<lparr>usage = read_write_usage, child = InvalidColor, versions = None\<rparr>,
      TUnsigned 2,
      TEvent 2, TInt (- 3), TInt 0, TMask {0}, TInt 1, TMask {0},
      TEvent 4, TInt 2, TMask {0},
      TUnsigned 1,
      TEvent 1, TInt 3, TMask {0}]"
  unfolding send_view_updates_def two_user_view_tables
  by (simp add: send_current_entry_def send_current_user_def send_previous_entry_def
      send_previous_user_def find_or_add_index_def pack_needed_user_def Let_def
      add_reference_def drop_reference_def remove_reference_def legion_delete_def
      two_user_view_tables)

lemma two_user_view_message_1:
  "fst (send_view_updates {1} two_user_view) =
     [TSize 1,
      TInt 0, TUser \<lparr>usage = read_write_usage, child = InvalidColor, versions = None\<rparr>,
      TUnsigned 1,
      TEvent 2, TInt 0, TMask {1},
      TUnsigned 0]"
  unfolding send_view_updates_def two_user_view_tables
  by (simp add: send_current_entry_def send_current_user_def send_previous_entry_def
      send_previous_user_def find_or_add_index_def pack_needed_user_def Let_def
      add_reference_def drop_reference_def remove_reference_def legion_delete_def
      two_user_view_tables)

lemma example_update_decoded:
  "\<exists>vr'. process_update (fst (send_view_updates {0} two_user_view)) example_view = Some (vr', []) \<and>
     current_epoch_users vr' =
       [(2, \<lparr>user_mask = {0}, users = multi_users [(1, {0}), (3, {0}), (4, {0})]\<rparr>),
        (4, \<lparr>user_mask = {0}, users = single_user 5\<rparr>)] \<and>
     previous_epoch_users vr' =
       [(1, \<lparr>user_mask = {0}, users = multi_users [(0, {0}), (2, {0})]\<rparr>)] \<and>
     outstanding_gc_events vr' = {1, 2, 4} \<and> next_address vr' = 6"
  unfolding two_user_view_message_0
  by (simp add: process_update_def install_user_def legion_new_def add_reference_def
      add_current_user_def add_previous_user_def add_event_user_def example_view_def Let_def
      insert_commute eval_nat_numeral)

text \<open>
  \<open>two_user_view\<close> sends to \<open>example_view\<close>. For field 0 the bucket of event 2 has
  two overlapping users and is announced by the count -3, and the four users are packed in
  the order of their addresses, each with the index it got. For field 1 the same bucket
  has one overlapping user and is written like a single user.
\<close>

theorem remote_update_matches_local_witness:
  "wf_table (current_epoch_users two_user_view) \<and>
   wf_table (previous_epoch_users two_user_view) \<and>
   one_event (current_epoch_users two_user_view) \<and>
   fst (send_view_updates {0} two_user_view) =
     [TSize 4,
      TInt 3, TUser \<lparr>usage = read_write_usage, child = InvalidColor, versions = None\<rparr>,
      TInt 0, TUser \<lparr>usage = read_write_usage, child = InvalidColor, versions = None\<rparr>,
      TInt 1, TUser \<lparr>usage = read_write_usage, child = InvalidColor, versions = None\<rparr>,
      TInt 2, TUser \<lparr>usage = read_write_usage, child = InvalidColor, versions = None\<rparr>,
      TUnsigned 2,
      TEvent 2, TInt (- 3), TInt 0, TMask {0}, TInt 1, TMask {0},
      TEvent 4, TInt 2, TMask {0},
      TUnsigned 1,
      TEvent 1, TInt 3, TMask {0}] \<and>
   fst (send_view_updates {1} two_user_view) =
     [TSize 1,
      TInt 0, TUser \<lparr>usage = read_write_usage, child = InvalidColor, versions = None\<rparr>,
      TUnsigned 1,
      TEvent 2, TInt 0, TMask {1},
      TUnsigned 0] \<and>
   (\<exists>needed_users vr'.
      process_update (fst (send_view_updates {0} two_user_view)) example_view = Some (vr', []) \<and>
      current_epoch_users vr' =
        current_epoch_users
          (local_update (receiver_pointer needed_users (next_address example_view)) {0}
             two_user_view example_view) \<and>
      previous_epoch_users vr' =
        previous_epoch_users
          (local_update (receiver_pointer needed_users (next_address example_view)) {0}
             two_user_view example_view) \<and>
      outstanding_gc_events vr' =
        outstanding_gc_events
          (local_update (receiver_pointer needed_users (next_address example_view)) {0}
             two_user_view example_view) \<and>
      current_epoch_users vr' =
        [(2, \<lparr>user_mask = {0}, users = multi_users [(1, {0}), (3, {0}), (4, {0})]\<rparr>),
         (4, \<lparr>user_mask = {0}, users = single_user 5\<rparr>)] \<and>
      previous_epoch_users vr' =
        [(1, \<lparr>user_mask = {0}, users = multi_users [(0, {0}), (2, {0})]\<rparr>)] \<and>
      outstanding_gc_events vr' = {1, 2, 4})"
proof -
  from remote_update_matches_local
    [OF two_user_view_wf(1) two_user_view_wf(2) two_user_view_one_event,
      where um = "{0}" and vr = example_view]
  obtain nd vr' where
    pu: "process_update (fst (send_view_updates {0} two_user_view)) example_view = Some (vr', [])"
    and c: "current_epoch_users vr' =
        current_epoch_users
          (local_update (receiver_pointer nd (next_address example_view)) {0}
             two_user_view example_view)"
    and p: "previous_epoch_users vr' =
        previous_epoch_users
          (local_update (receiver_pointer nd (next_address example_view)) {0}
             two_user_view example_view)"
    and g: "outstanding_gc_events vr' =
        outstanding_gc_events
          (local_update (receiver_pointer nd (next_address example_view)) {0}
             two_user_view example_view)"
    unfolding Let_def by blast
  from example_update_decoded obtain vr2 where
    pu2: "process_update (fst (send_view_updates {0} two_user_view)) example_view = Some (vr2, [])"
    and c2: "current_epoch_users vr2 =
       [(2, \<lparr>user_mask = {0}, users = multi_users [(1, {0}), (3, {0}), (4, {0})]\<rparr>),
        (4, \<lparr>user_mask = {0}, users = single_user 5\<rparr>)]"
    and p2: "previous_epoch_users vr2 =
       [(1, \<lparr>user_mask = {0}, users = multi_users [(0, {0}), (2, {0})]\<rparr>)]"
    and g2: "outstanding_gc_events vr2 = {1, 2, 4}"
    by blast
  have e: "vr2 = vr'" using pu pu2 by simp
  have x: "\<exists>needed_users vr'.
      process_update (fst (send_view_updates {0} two_user_view)) example_view = Some (vr', []) \<and>
      current_epoch_users vr' =
        current_epoch_users
          (local_update (receiver_pointer needed_users (next_address example_view)) {0}
             two_user_view example_view) \<and>
      previous_epoch_users vr' =
        previous_epoch_users
          (local_update (receiver_pointer needed_users (next_address example_view)) {0}
             two_user_view example_view) \<and>
      outstanding_gc_events vr' =
        outstanding_gc_events
          (local_update (receiver_pointer needed_users (next_address example_view)) {0}
             two_user_view example_view) \<and>
      current_epoch_users vr' =
        [(2, \<lparr>user_mask = {0}, users = multi_users [(1, {0}), (3, {0}), (4, {0})]\<rparr>),
         (4, \<lparr>user_mask = {0}, users = single_user 5\<rparr>)] \<and>
      previous_epoch_users vr' =
        [(1, \<lparr>user_mask = {0}, users = multi_users [(0, {0}), (2, {0})]\<rparr>)] \<and>
      outstanding_gc_events vr' = {1, 2, 4}"
    using pu c p g c2 p2 g2 unfolding e by blast
  show ?thesis
    using two_user_view_wf(1) two_user_view_wf(2) two_user_view_one_event
      two_user_view_message_0 two_user_view_message_1 x
    by (intro conjI)
qed

subsection \<open>The summary mask in the reachable states\<close>

lemma flat_Nil [simp]: "flat [] = []"
  by (simp add: flat_def)

lemma flat_Cons:
  "flat (en # es) = map (\<lambda>it. (fst en, fst it, snd it)) (snd en) @ flat es"
  by (simp add: flat_def)

lemma install_users_table_flat:
  "install_users_table tr e us t =
     fold (\<lambda>x t. add_event_user (tr (fst (snd x))) (fst x) (snd (snd x)) t)
       (map (\<lambda>it. (e, fst it, snd it)) us) t"
  unfolding install_users_table_def by (induction us arbitrary: t) simp_all

lemma install_table_flat:
  "install_table tr es t =
     fold (\<lambda>x t. add_event_user (tr (fst (snd x))) (fst x) (snd (snd x)) t) (flat es) t"
  unfolding install_table_def
  by (induction es arbitrary: t) (simp_all add: flat_Cons install_users_table_flat)

lemma sent_fields_Nil [simp]: "sent_fields tr [] e u = {}"
  by (simp add: sent_fields_def)

lemma sent_fields_Cons:
  "sent_fields tr ((e0, p0, fm0) # xs) e u =
     (if e = e0 \<and> u = tr p0 then fm0 else {}) \<union> sent_fields tr xs e u"
  unfolding sent_fields_def by auto

lemma fold_add_event_user:
  assumes wf: "wf_table t"
    and fresh: "\<forall>x \<in> set xs. user_fields t (fst x) (tr (fst (snd x))) = {}"
    and d: "distinct (map (\<lambda>x. (fst x, tr (fst (snd x)))) xs)"
  shows "wf_table (fold (\<lambda>x t. add_event_user (tr (fst (snd x))) (fst x) (snd (snd x)) t) xs t) \<and>
    (\<forall>e u. user_fields
        (fold (\<lambda>x t. add_event_user (tr (fst (snd x))) (fst x) (snd (snd x)) t) xs t) e u =
        user_fields t e u \<union> sent_fields tr xs e u)"
  using assms
proof (induction xs arbitrary: t)
  case Nil
  then show ?case by simp
next
  case (Cons x xs)
  obtain e0 p0 fm0 where x: "x = (e0, p0, fm0)" by (cases x) auto
  let ?t1 = "add_event_user (tr p0) e0 fm0 t"
  let ?step = "\<lambda>x t. add_event_user (tr (fst (snd x))) (fst x) (snd (snd x)) t"
  have z: "user_fields t e0 (tr p0) = {}" using Cons.prems(2) x by simp
  then have sub: "user_fields t e0 (tr p0) \<subseteq> fm0" by simp
  have wf1: "wf_table ?t1" by (rule add_event_user_wf [OF Cons.prems(1) sub])
  note f1 = add_event_user_fields [OF Cons.prems(1) sub]
  have fresh1: "\<forall>y \<in> set xs. user_fields ?t1 (fst y) (tr (fst (snd y))) = {}"
  proof
    fix y assume y: "y \<in> set xs"
    have "(fst y, tr (fst (snd y))) \<noteq> (e0, tr p0)"
      using Cons.prems(3) y unfolding x by force
    then have "user_fields ?t1 (fst y) (tr (fst (snd y))) =
        user_fields t (fst y) (tr (fst (snd y)))"
      unfolding f1 by auto
    then show "user_fields ?t1 (fst y) (tr (fst (snd y))) = {}"
      using Cons.prems(2) y by simp
  qed
  have d1: "distinct (map (\<lambda>x. (fst x, tr (fst (snd x)))) xs)" using Cons.prems(3) by simp
  note ih = Cons.IH [OF wf1 fresh1 d1]
  have r: "fold ?step (x # xs) t = fold ?step xs ?t1" unfolding x by simp
  have "user_fields (fold ?step xs ?t1) e u =
      user_fields t e u \<union> sent_fields tr (x # xs) e u" for e u
  proof -
    have "user_fields (fold ?step xs ?t1) e u = user_fields ?t1 e u \<union> sent_fields tr xs e u"
      using ih by blast
    also have "\<dots> = user_fields t e u \<union> sent_fields tr ((e0, p0, fm0) # xs) e u"
      unfolding f1 sent_fields_Cons using z by auto
    finally show ?thesis unfolding x .
  qed
  then show ?case unfolding r using ih by blast
qed

lemma flat_selected_keys:
  assumes wf: "wf_table t"
  shows "distinct (map (\<lambda>x. (fst x, fst (snd x))) (flat (selected um t)))"
  using wf
proof (induction t)
  case Nil
  then show ?case by simp
next
  case (Cons cit t)
  have wt: "wf_table t" and wb: "wf_bucket (snd cit)"
    using Cons.prems unfolding wf_table_def by simp_all
  have s: "sorted_wrt (<) (map fst (cit # t))" using Cons.prems unfolding wf_table_def by blast
  have k: "x \<in> set (map fst t) \<Longrightarrow> x \<noteq> fst cit" for x using s by auto
  note ih = Cons.IH [OF wt]
  show ?case
  proof (cases "user_mask (snd cit) \<inter> um = {}")
    case True
    have "selected um (cit # t) = selected um t" by (rule selected_skip [OF True])
    then show ?thesis using ih by simp
  next
    case False
    have r: "selected um (cit # t) = (fst cit, selected_bucket um (snd cit)) # selected um t"
      using False by (simp add: selected_def)
    have a: "map (\<lambda>x. (fst x, fst (snd x)))
        (map (\<lambda>it. (fst cit, fst it, snd it)) (selected_bucket um (snd cit))) =
        map (\<lambda>p. (fst cit, p)) (map fst (selected_bucket um (snd cit)))"
      by simp
    have d1: "distinct (map (\<lambda>p. (fst cit, p)) (map fst (selected_bucket um (snd cit))))"
      using distinct_selected_bucket [OF wb, of um] by (simp add: distinct_map inj_on_def)
    have ev: "fst x \<in> set (map fst t)" if "x \<in> set (flat (selected um t))" for x
      using that by (force simp: flat_def selected_def)
    have dj: "set (map (\<lambda>p. (fst cit, p)) (map fst (selected_bucket um (snd cit)))) \<inter>
        set (map (\<lambda>x. (fst x, fst (snd x))) (flat (selected um t))) = {}"
      using ev k by fastforce
    show ?thesis
      unfolding r flat_Cons map_append fst_conv snd_conv a using d1 ih dj by simp
  qed
qed

lemma flat_pointers:
  "fst (snd x) \<in> set (pointers_of es)" if "x \<in> set (flat es)"
  using that by (force simp: flat_def pointers_of_def)

lemma flat_one_event:
  assumes d: "distinct (pointers_of es)"
    and a: "(e, p, fm) \<in> set (flat es)" and b: "(e', p, fm') \<in> set (flat es)"
  shows "e = e'"
  using assms
proof (induction es)
  case Nil
  then show ?case by simp
next
  case (Cons en es)
  have r: "pointers_of (en # es) = map fst (snd en) @ pointers_of es"
    by (simp add: pointers_of_def)
  have d1: "distinct (pointers_of es)"
    and dj: "set (map fst (snd en)) \<inter> set (pointers_of es) = {}"
    using Cons.prems(1) unfolding r by simp_all
  have h: "(x, p, y) \<in> set (map (\<lambda>it. (fst en, fst it, snd it)) (snd en)) \<Longrightarrow>
      x = fst en \<and> p \<in> set (map fst (snd en))" for x y
    by force
  have t: "(x, p, y) \<in> set (flat es) \<Longrightarrow> p \<in> set (pointers_of es)" for x y
    using flat_pointers [of "(x, p, y)" es] by simp
  from Cons.prems(2) have a': "(e, p, fm) \<in> set (map (\<lambda>it. (fst en, fst it, snd it)) (snd en)) \<or>
      (e, p, fm) \<in> set (flat es)" unfolding flat_Cons by simp
  from Cons.prems(3) have b': "(e', p, fm') \<in> set (map (\<lambda>it. (fst en, fst it, snd it)) (snd en)) \<or>
      (e', p, fm') \<in> set (flat es)" unfolding flat_Cons by simp
  show ?case
    using a' b' h t dj Cons.IH [OF d1] by blast
qed

lemma install_table_fields:
  assumes wf: "wf_table t" and fr: "fresh_above a t"
    and dk: "distinct (map (\<lambda>x. (fst x, fst (snd x))) (flat es))"
    and inj: "inj_on tr (set (pointers_of es))"
    and lo: "\<forall>p \<in> set (pointers_of es). a \<le> tr p"
  shows "wf_table (install_table tr es t)"
    and "user_fields (install_table tr es t) e u = user_fields t e u \<union> sent_fields tr (flat es) e u"
proof -
  have fresh: "\<forall>x \<in> set (flat es). user_fields t (fst x) (tr (fst (snd x))) = {}"
  proof
    fix x assume "x \<in> set (flat es)"
    then have "a \<le> tr (fst (snd x))" using flat_pointers lo by blast
    then show "user_fields t (fst x) (tr (fst (snd x))) = {}"
      using fr unfolding fresh_above_def by blast
  qed
  let ?h = "\<lambda>x :: Event \<times> PhysicalUserPtr \<times> FieldMask. (fst x, fst (snd x))"
  let ?g = "\<lambda>y :: Event \<times> PhysicalUserPtr. (fst y, tr (snd y))"
  have ig: "inj_on ?g (set (map ?h (flat es)))"
  proof (rule inj_onI)
    fix y z
    assume y: "y \<in> set (map ?h (flat es))" and z: "z \<in> set (map ?h (flat es))"
      and eq: "?g y = ?g z"
    have "snd y \<in> set (pointers_of es)" using y flat_pointers by force
    moreover have "snd z \<in> set (pointers_of es)" using z flat_pointers by force
    moreover have "tr (snd y) = tr (snd z)" and "fst y = fst z" using eq by simp_all
    ultimately show "y = z" using inj unfolding inj_on_def by (metis prod.collapse)
  qed
  have "distinct (map ?g (map ?h (flat es)))"
    unfolding distinct_map [of ?g "map ?h (flat es)"] using dk ig by blast
  then have d: "distinct (map (\<lambda>x. (fst x, tr (fst (snd x)))) (flat es))"
    by (simp add: comp_def)
  note f = fold_add_event_user [OF wf fresh d, folded install_table_flat]
  show "wf_table (install_table tr es t)" using f by blast
  show "user_fields (install_table tr es t) e u = user_fields t e u \<union> sent_fields tr (flat es) e u"
    using f by blast
qed

lemma sent_fields_bounds:
  assumes "x \<in> sent_fields tr (flat es) e u"
  shows "\<exists>p fm. (e, p, fm) \<in> set (flat es) \<and> p \<in> set (pointers_of es) \<and> tr p = u"
proof -
  from assms obtain p fm where a: "(e, p, fm) \<in> set (flat es)" and b: "tr p = u"
    unfolding sent_fields_def by blast
  have "p \<in> set (pointers_of es)" using flat_pointers [OF a] by simp
  then show ?thesis using a b by blast
qed

lemma view_inv_delivered:
  assumes iv: "view_inv vs" and ir: "view_inv vr"
    and ok: "needed_ok nd (final_order um vs)"
    and dl: "delivered um vs nd vr vr'"
  shows "view_inv vr'"
proof -
  let ?a = "next_address vr"
  let ?tr = "receiver_pointer nd ?a"
  let ?selc = "selected um (current_epoch_users vs)"
  let ?selp = "selected um (previous_epoch_users vs)"
  let ?fin = "final_order um vs"
  have wcs: "wf_table (current_epoch_users vs)" and wps: "wf_table (previous_epoch_users vs)"
    and os: "one_event (current_epoch_users vs)"
    using iv unfolding view_inv_def by blast+
  have wcr: "wf_table (current_epoch_users vr)" and wpr: "wf_table (previous_epoch_users vr)"
    and fcr: "fresh_above ?a (current_epoch_users vr)"
    and fpr: "fresh_above ?a (previous_epoch_users vr)"
    and orr: "one_event (current_epoch_users vr)"
    using ir unfolding view_inv_def by blast+
  have c: "current_epoch_users vr' = install_table ?tr ?selc (current_epoch_users vr)"
    and p: "previous_epoch_users vr' = install_table ?tr ?selp (previous_epoch_users vr)"
    and n: "next_address vr' = ?a + length nd"
    using dl unfolding delivered_def by blast+
  have subc: "set (pointers_of ?selc) \<subseteq> set ?fin"
    and subp: "set (pointers_of ?selp) \<subseteq> set ?fin"
    unfolding final_order_def set_extend_order by simp_all
  have inj: "inj_on ?tr (set ?fin)"
    unfolding inj_on_def using receiver_pointer_inj [OF ok] by blast
  have injc: "inj_on ?tr (set (pointers_of ?selc))" by (rule inj_on_subset [OF inj subc])
  have injp: "inj_on ?tr (set (pointers_of ?selp))" by (rule inj_on_subset [OF inj subp])
  have lo: "\<forall>p \<in> set ?fin. ?a \<le> ?tr p" and hi: "\<forall>p \<in> set ?fin. ?tr p < ?a + length nd"
    using receiver_pointer_bounds [OF ok] by blast+
  have loc: "\<forall>p \<in> set (pointers_of ?selc). ?a \<le> ?tr p" using lo subc by blast
  have lop: "\<forall>p \<in> set (pointers_of ?selp). ?a \<le> ?tr p" using lo subp by blast
  note ic = install_table_fields [OF wcr fcr flat_selected_keys [OF wcs] injc loc, folded c]
  note ip = install_table_fields [OF wpr fpr flat_selected_keys [OF wps] injp lop, folded p]
  have dc: "distinct (pointers_of ?selc)" by (rule distinct_pointers_of_selected [OF wcs os])
  have fc: "fresh_above (?a + length nd) (current_epoch_users vr')"
    unfolding fresh_above_def
  proof (intro allI impI)
    fix e u assume u: "?a + length nd \<le> u"
    have "user_fields (current_epoch_users vr) e u = {}"
      using fcr u unfolding fresh_above_def by simp
    moreover have "sent_fields ?tr (flat ?selc) e u = {}"
    proof (rule ccontr)
      assume "\<not> ?thesis"
      then obtain x where "x \<in> sent_fields ?tr (flat ?selc) e u" by blast
      from sent_fields_bounds [OF this] obtain q where "q \<in> set (pointers_of ?selc)" "?tr q = u"
        by blast
      then show False using hi subc u by fastforce
    qed
    ultimately show "user_fields (current_epoch_users vr') e u = {}" unfolding ic(2) by simp
  qed
  have fp: "fresh_above (?a + length nd) (previous_epoch_users vr')"
    unfolding fresh_above_def
  proof (intro allI impI)
    fix e u assume u: "?a + length nd \<le> u"
    have "user_fields (previous_epoch_users vr) e u = {}"
      using fpr u unfolding fresh_above_def by simp
    moreover have "sent_fields ?tr (flat ?selp) e u = {}"
    proof (rule ccontr)
      assume "\<not> ?thesis"
      then obtain x where "x \<in> sent_fields ?tr (flat ?selp) e u" by blast
      from sent_fields_bounds [OF this] obtain q where "q \<in> set (pointers_of ?selp)" "?tr q = u"
        by blast
      then show False using hi subp u by fastforce
    qed
    ultimately show "user_fields (previous_epoch_users vr') e u = {}" unfolding ip(2) by simp
  qed
  have oe: "one_event (current_epoch_users vr')"
    unfolding one_event_def
  proof (intro allI impI)
    fix e e' u
    assume a: "user_fields (current_epoch_users vr') e u \<noteq> {}"
      and b: "user_fields (current_epoch_users vr') e' u \<noteq> {}"
    show "e = e'"
    proof (cases "u < ?a")
      case True
      have z: "sent_fields ?tr (flat ?selc) x u = {}" for x
      proof (rule ccontr)
        assume "\<not> ?thesis"
        then obtain y where "y \<in> sent_fields ?tr (flat ?selc) x u" by blast
        from sent_fields_bounds [OF this] obtain q where "q \<in> set (pointers_of ?selc)" "?tr q = u"
          by blast
        then show False using loc True by fastforce
      qed
      have "user_fields (current_epoch_users vr) e u \<noteq> {}" using a unfolding ic(2) z by simp
      moreover have "user_fields (current_epoch_users vr) e' u \<noteq> {}"
        using b unfolding ic(2) z by simp
      ultimately show ?thesis using orr unfolding one_event_def by blast
    next
      case False
      have z: "user_fields (current_epoch_users vr) x u = {}" for x
        using fcr False unfolding fresh_above_def by simp
      from a obtain y where "y \<in> sent_fields ?tr (flat ?selc) e u" unfolding ic(2) z by blast
      from sent_fields_bounds [OF this] obtain q fm where
        q1: "(e, q, fm) \<in> set (flat ?selc)" and q2: "q \<in> set (pointers_of ?selc)"
        and q3: "?tr q = u" by blast
      from b obtain y' where "y' \<in> sent_fields ?tr (flat ?selc) e' u" unfolding ic(2) z by blast
      from sent_fields_bounds [OF this] obtain q' fm' where
        r1: "(e', q', fm') \<in> set (flat ?selc)" and r2: "q' \<in> set (pointers_of ?selc)"
        and r3: "?tr q' = u" by blast
      have "q = q'" using injc q2 r2 q3 r3 unfolding inj_on_def by blast
      then show ?thesis using flat_one_event [OF dc q1] r1 by blast
    qed
  qed
  show ?thesis
    unfolding view_inv_def n using ic(1) ip(1) fc fp oe by blast
qed

lemma view_inv_process_update:
  assumes iv: "view_inv vs" and ir: "view_inv vr"
    and pu: "process_update (fst (send_view_updates um vs)) vr = Some (vr', rest)"
  shows "view_inv vr'"
proof -
  have wcs: "wf_table (current_epoch_users vs)" and os: "one_event (current_epoch_users vs)"
    using iv unfolding view_inv_def by blast+
  have d: "distinct (pointers_of (selected um (current_epoch_users vs)))"
    by (rule distinct_pointers_of_selected [OF wcs os])
  from update_round_trip [OF d, of vr] obtain nd vr2 where
    pu2: "process_update (fst (send_view_updates um vs)) vr = Some (vr2, [])"
    and ok: "needed_ok nd (final_order um vs)"
    and dl: "delivered um vs nd vr vr2"
    by blast
  have "vr2 = vr'" using pu pu2 by simp
  then show ?thesis using view_inv_delivered [OF iv ir ok dl] by simp
qed

lemma view_inv_send_view_updates:
  assumes iv: "view_inv vs"
  shows "view_inv (snd (send_view_updates um vs))"
proof -
  have wcs: "wf_table (current_epoch_users vs)" and os: "one_event (current_epoch_users vs)"
    using iv unfolding view_inv_def by blast+
  have d: "distinct (pointers_of (selected um (current_epoch_users vs)))"
    by (rule distinct_pointers_of_selected [OF wcs os])
  from update_round_trip [OF d, of vs] have "same_tables vs (snd (send_view_updates um vs))"
    by blast
  then show ?thesis using iv unfolding view_inv_def same_tables_def by simp
qed

lemma view_inv_empty:
  "current_epoch_users v = [] \<Longrightarrow> previous_epoch_users v = [] \<Longrightarrow> view_inv v"
  by (simp add: view_inv_def fresh_above_def one_event_def)

lemma view_inv_add_user_above:
  assumes "\<forall>a \<in> set ancestors. view_inv a"
  shows "\<forall>a \<in> set (fst (add_user_above ht cdt usage' te cc vi umask pre ancestors)). view_inv a"
  using assms
proof (induction ancestors arbitrary: cc pre)
  case Nil
  then show ?case by simp
next
  case (Cons v ancestors)
  have iv: "view_inv v" and ia: "\<forall>a \<in> set ancestors. view_inv a" using Cons.prems by simp_all
  let ?up = "if ancestors \<noteq> [] \<and> \<not> is_upper_bound_node vi (node_id (logical_node v))
            then add_user_above ht cdt usage' te (get_color (logical_node v)) vi umask pre ancestors
            else (ancestors, pre)"
  have a: "\<forall>a \<in> set (fst ?up). view_inv a"
    using Cons.IH [OF ia] ia by simp
  have r: "fst (add_user_above ht cdt usage' te cc vi umask pre (v # ancestors)) =
      fst (snd (add_local_user ht cdt usage' te False cc vi umask (snd ?up) v)) # fst ?up"
    by (simp add: case_prod_beta)
  show ?case
    unfolding r using a view_inv_add_local_user [OF iv] by simp
qed

lemma view_inv_add_user:
  assumes iv: "view_inv v" and ia: "\<forall>a \<in> set ancestors. view_inv a"
    and r: "add_user ht cdt usage' te umask vi v ancestors = (wait_on, issue_collect, v', ancestors')"
  shows "\<forall>w \<in> set (v' # ancestors'). view_inv w"
proof -
  let ?w0 = "if event_exists (use_event v) then {use_event v} else {}"
  let ?up = "if ancestors \<noteq> [] \<and> \<not> is_upper_bound_node vi (node_id (logical_node v))
            then add_user_above ht cdt usage' te (get_color (logical_node v)) vi umask ?w0 ancestors
            else (ancestors, ?w0)"
  have a: "\<forall>a \<in> set (fst ?up). view_inv a"
    using view_inv_add_user_above [OF ia] ia by simp
  have v': "v' = fst (snd (add_local_user ht cdt usage' te True InvalidColor vi umask (snd ?up) v))"
    and an: "ancestors' = fst ?up"
    using r by (simp_all add: add_user_def Let_def case_prod_beta)
  show ?thesis
    unfolding v' an using a view_inv_add_local_user [OF iv] by simp
qed

lemma view_inv_find_copy_preconditions_above:
  assumes "\<forall>a \<in> set ancestors. view_inv a"
  shows "\<forall>a \<in> set (fst (find_copy_preconditions_above ht redop' reading cm cc vi pre ancestors)).
           view_inv a"
  using assms
proof (induction ancestors arbitrary: cc pre)
  case Nil
  then show ?case by simp
next
  case (Cons v ancestors)
  have iv: "view_inv v" and ia: "\<forall>a \<in> set ancestors. view_inv a" using Cons.prems by simp_all
  let ?up = "if ancestors \<noteq> [] \<and> \<not> is_upper_bound_node vi (node_id (logical_node v))
            then find_copy_preconditions_above ht redop' reading cm (get_color (logical_node v))
                   vi pre ancestors
            else (ancestors, pre)"
  have a: "\<forall>a \<in> set (fst ?up). view_inv a"
    using Cons.IH [OF ia] ia by simp
  have r: "fst (find_copy_preconditions_above ht redop' reading cm cc vi pre (v # ancestors)) =
      fst (find_local_copy_preconditions ht redop' reading cm cc vi (snd ?up) v) # fst ?up"
    by (simp add: case_prod_beta)
  show ?case
    unfolding r using a view_inv_find_local_copy_preconditions [OF iv] by simp
qed

lemma view_inv_find_copy_preconditions:
  assumes iv: "view_inv v" and ia: "\<forall>a \<in> set ancestors. view_inv a"
    and r: "find_copy_preconditions ht redop' reading cm vi pre v ancestors = (pre', v', ancestors')"
  shows "\<forall>w \<in> set (v' # ancestors'). view_inv w"
proof -
  let ?p0 = "if event_exists (use_event v) then record_dependence (use_event v) cm pre else pre"
  let ?up = "if ancestors \<noteq> [] \<and> \<not> is_upper_bound_node vi (node_id (logical_node v))
            then find_copy_preconditions_above ht redop' reading cm (get_color (logical_node v))
                   vi ?p0 ancestors
            else (ancestors, ?p0)"
  have a: "\<forall>a \<in> set (fst ?up). view_inv a"
    using view_inv_find_copy_preconditions_above [OF ia] ia by simp
  have v': "v' = fst (find_local_copy_preconditions ht redop' reading cm InvalidColor vi (snd ?up) v)"
    and an: "ancestors' = fst ?up"
    using r by (simp_all add: find_copy_preconditions_def Let_def case_prod_beta)
  show ?thesis
    unfolding v' an using a view_inv_find_local_copy_preconditions [OF iv] by simp
qed

lemma view_inv_add_copy_user_above:
  assumes "\<forall>a \<in> set ancestors. view_inv a"
  shows "\<forall>a \<in> set (add_copy_user_above usage' copy_term cc vi cm ancestors). view_inv a"
  using assms
proof (induction ancestors arbitrary: cc)
  case Nil
  then show ?case by simp
next
  case (Cons v ancestors)
  have iv: "view_inv v" and ia: "\<forall>a \<in> set ancestors. view_inv a" using Cons.prems by simp_all
  let ?up = "if ancestors \<noteq> [] \<and> \<not> is_upper_bound_node vi (node_id (logical_node v))
            then add_copy_user_above usage' copy_term (get_color (logical_node v)) vi cm ancestors
            else ancestors"
  have a: "\<forall>a \<in> set ?up. view_inv a"
    using Cons.IH [OF ia] ia by simp
  have r: "add_copy_user_above usage' copy_term cc vi cm (v # ancestors) =
      snd (add_local_copy_user usage' copy_term False cc vi cm v) # ?up"
    by (simp add: Let_def)
  show ?case
    unfolding r using a view_inv_add_local_copy_user [OF iv] by simp
qed

lemma view_inv_add_copy_user:
  assumes iv: "view_inv v" and ia: "\<forall>a \<in> set ancestors. view_inv a"
    and r: "add_copy_user redop' copy_term vi cm reading v ancestors = (issue_collect, v', ancestors')"
  shows "\<forall>w \<in> set (v' # ancestors'). view_inv w"
proof (cases "event_exists copy_term")
  case False
  have "v' = v" "ancestors' = ancestors" using r False by (simp_all add: add_copy_user_def)
  then show ?thesis using iv ia by simp
next
  case True
  let ?u = "\<lparr>privilege = (if reading then READ_ONLY else if redop' > 0 then REDUCE else READ_WRITE),
             coherence_prop = EXCLUSIVE, redop = redop'\<rparr>"
  let ?up = "if ancestors \<noteq> [] \<and> \<not> is_upper_bound_node vi (node_id (logical_node v))
            then add_copy_user_above ?u copy_term (get_color (logical_node v)) vi cm ancestors
            else ancestors"
  have a: "\<forall>a \<in> set ?up. view_inv a"
    using view_inv_add_copy_user_above [OF ia] ia by simp
  have v': "v' = snd (add_local_copy_user ?u copy_term True InvalidColor vi cm v)"
    and an: "ancestors' = ?up"
    using r True by (simp_all add: add_copy_user_def Let_def case_prod_beta)
  show ?thesis
    unfolding v' an using a view_inv_add_local_copy_user [OF iv] by simp
qed

lemma view_inv_fold_filter_local_users:
  "view_inv v \<Longrightarrow> view_inv (fold filter_local_users es v)"
  by (induction es arbitrary: v) (simp_all add: view_inv_filter_local_users)

lemma view_inv_collect_users:
  assumes "\<forall>a \<in> set views. view_inv a"
  shows "\<forall>w \<in> set (collect_users term_events views). view_inv w"
  using assms unfolding collect_users_def by (simp add: view_inv_fold_filter_local_users)

lemma view_inv_filter_previous_users:
  assumes i: "view_inv v"
  shows "view_inv (filter_previous_users fp v)"
proof -
  have "wf_table (current_epoch_users v)" "wf_table (previous_epoch_users v)"
    using i unfolding view_inv_def by blast+
  then show ?thesis
    using view_inv_shrinks [OF i shrinks_filter_previous_users] by blast
qed

lemma view_inv_filter_current_users:
  assumes i: "view_inv v"
  shows "view_inv (filter_current_users ht d v)"
proof -
  have "wf_table (current_epoch_users v)" "wf_table (previous_epoch_users v)"
    using i unfolding view_inv_def by blast+
  then show ?thesis
    using view_inv_shrinks [OF i shrinks_filter_current_users] by blast
qed

lemma reachable_view_inv:
  "reachable v \<Longrightarrow> view_inv v"
proof (induction rule: reachable.induct)
  case (constructed v)
  then show ?case by (rule view_inv_empty)
next
  case (initial_user v term_event usage' umask)
  then show ?case by (simp add: view_inv_add_initial_user)
next
  case (user v ancestors has_triggered cdt usage' term_event umask version_info wait_on
      issue_collect v' ancestors' w)
  from user have iv: "view_inv v" and ia: "\<forall>a \<in> set ancestors. view_inv a"
    and r: "add_user has_triggered cdt usage' term_event umask version_info v ancestors =
       (wait_on, issue_collect, v', ancestors')"
    and w: "w \<in> set (v' # ancestors')"
    by blast+
  show ?case using view_inv_add_user [OF iv ia r] w by blast
next
  case (copy_user v ancestors redop' copy_term version_info copy_mask reading issue_collect v'
      ancestors' w)
  from copy_user have iv: "view_inv v" and ia: "\<forall>a \<in> set ancestors. view_inv a"
    and r: "add_copy_user redop' copy_term version_info copy_mask reading v ancestors =
       (issue_collect, v', ancestors')"
    and w: "w \<in> set (v' # ancestors')"
    by blast+
  show ?case using view_inv_add_copy_user [OF iv ia r] w by blast
next
  case (preconditions v ancestors has_triggered redop' reading copy_mask version_info pre pre' v'
      ancestors' w)
  from preconditions have iv: "view_inv v" and ia: "\<forall>a \<in> set ancestors. view_inv a"
    and r: "find_copy_preconditions has_triggered redop' reading copy_mask version_info pre v
       ancestors = (pre', v', ancestors')"
    and w: "w \<in> set (v' # ancestors')"
    by blast+
  show ?case using view_inv_find_copy_preconditions [OF iv ia r] w by blast
next
  case (filter_previous v filter_previous)
  then show ?case by (simp add: view_inv_filter_previous_users)
next
  case (filter_current v has_triggered dominated)
  then show ?case by (simp add: view_inv_filter_current_users)
next
  case (gc_fire views w term_events)
  from gc_fire have ia: "\<forall>a \<in> set views. view_inv a"
    and w: "w \<in> set (collect_users term_events views)" by blast+
  show ?case using view_inv_collect_users [OF ia] w by blast
next
  case (update_sent v update_mask)
  then show ?case by (simp add: view_inv_send_view_updates)
next
  case (update_processed sender v update_mask v' rest)
  from update_processed have a: "view_inv sender" and b: "view_inv v"
    and c: "process_update (fst (send_view_updates update_mask sender)) v = Some (v', rest)"
    by blast+
  show ?case by (rule view_inv_process_update [OF a b c])
qed

lemma reachable_update_decodes:
  assumes "reachable sender"
  shows "\<exists>v'. process_update (fst (send_view_updates update_mask sender)) v = Some (v', [])"
proof -
  have i: "view_inv sender" by (rule reachable_view_inv [OF assms])
  have wcs: "wf_table (current_epoch_users sender)" and os: "one_event (current_epoch_users sender)"
    using i unfolding view_inv_def by blast+
  have d: "distinct (pointers_of (selected update_mask (current_epoch_users sender)))"
    by (rule distinct_pointers_of_selected [OF wcs os])
  from update_round_trip [OF d, of v] show ?thesis by blast
qed

lemma reduction_unpack_users_post:
  assumes "reduction_unpack_users n ts v = Some (ts', ps, v')"
  shows "ps = [next_address v ..< next_address v + n] \<and> next_address v' = next_address v + n \<and>
         reduction_users v' = reduction_users v \<and> reading_users v' = reading_users v"
  using assms
proof (induction n ts v arbitrary: ts' ps v' rule: reduction_unpack_users.induct)
  case (1 ts v)
  then show ?case by simp
next
  case (2 n obj ts v)
  let ?v1 = "add_reference (next_address v) (snd (legion_new obj v))"
  have l: "legion_new obj v = (next_address v, snd (legion_new obj v))"
    by (simp add: legion_new_def)
  from "2.prems" obtain ts1 qs v2 where
    r: "reduction_unpack_users n ts ?v1 = Some (ts1, qs, v2)"
    and e: "ts' = ts1" "ps = next_address v # qs" "v' = v2"
    by (auto simp: legion_new_def split: option.splits)
  note ih = "2.IH" [OF l [symmetric] r]
  have n1: "next_address ?v1 = Suc (next_address v)"
    and t1: "reduction_users ?v1 = reduction_users v" "reading_users ?v1 = reading_users v"
    by (simp_all add: legion_new_def add_reference_def)
  show ?case
    using ih unfolding e n1 t1 by (simp add: upt_conv_Cons)
qed simp_all

lemma users_table_add_physical_user:
  "users_table reading (add_physical_user p reading ev fm v) =
     add_event_user p ev fm (users_table reading v)"
  "users_table (\<not> reading) (add_physical_user p reading ev fm v) = users_table (\<not> reading) v"
  "next_address (add_physical_user p reading ev fm v) = next_address v"
  by (simp_all add: users_table_def add_physical_user_def)

lemma reduction_install_users_post:
  assumes "reduction_install_users reading [a..<a + n] ev k ts (i, v) = Some (ts', i', v')"
    and "wf_table (users_table reading v)" and "fresh_above (a + i) (users_table reading v)"
    and "i \<le> n"
  shows "wf_table (users_table reading v') \<and> fresh_above (a + i') (users_table reading v') \<and>
         i' \<le> n \<and> users_table (\<not> reading) v' = users_table (\<not> reading) v \<and>
         next_address v' = next_address v"
  using assms
proof (induction k arbitrary: ts i v)
  case 0
  then show ?case by simp
next
  case (Suc k)
  from Suc.prems(1) obtain fm ts1 where ts: "ts = TMask fm # ts1"
    by (cases ts; cases "hd ts") auto
  have i: "i < n" using Suc.prems(1) unfolding ts by (simp split: if_splits)
  have p: "[a..<a + n] ! i = a + i" using i by simp
  let ?v1 = "add_physical_user (a + i) reading ev fm v"
  have r: "reduction_install_users reading [a..<a + n] ev k ts1 (Suc i, ?v1) = Some (ts', i', v')"
    using Suc.prems(1) i unfolding ts by (simp add: p)
  note fa = fresh_above_add [OF Suc.prems(2) Suc.prems(3), of ev fm]
  have w1: "wf_table (users_table reading ?v1)"
    unfolding users_table_add_physical_user by (rule fa(1))
  have f1: "fresh_above (a + Suc i) (users_table reading ?v1)"
    unfolding users_table_add_physical_user using fa(2) by simp
  have i1: "Suc i \<le> n" using i by simp
  show ?case
    using Suc.IH [OF r w1 f1 i1] by (simp add: users_table_add_physical_user)
qed

lemma users_table_outstanding [simp]:
  "users_table reading (v\<lparr>outstanding_gc_events := s\<rparr>) = users_table reading v"
  by (simp add: users_table_def)

lemma reduction_process_events_post:
  assumes "reduction_process_events reading [a..<a + n] k ts (i, v) = Some (ts', i', v')"
    and "wf_table (users_table reading v)" and "fresh_above (a + i) (users_table reading v)"
    and "i \<le> n"
  shows "wf_table (users_table reading v') \<and> fresh_above (a + i') (users_table reading v') \<and>
         i' \<le> n \<and> users_table (\<not> reading) v' = users_table (\<not> reading) v \<and>
         next_address v' = next_address v"
  using assms
proof (induction k arbitrary: ts i v)
  case 0
  then show ?case by simp
next
  case (Suc k)
  from Suc.prems(1) obtain ev m ts1 where ts: "ts = TEvent ev # TSize m # ts1"
    by (cases ts; cases "hd ts"; cases "tl ts"; cases "hd (tl ts)") auto
  from Suc.prems(1) obtain ts2 i1 v1 where
    a: "reduction_install_users reading [a..<a + n] ev m ts1 (i, v) = Some (ts2, i1, v1)"
    and b: "reduction_process_events reading [a..<a + n] k ts2
        (i1, v1\<lparr>outstanding_gc_events := insert ev (outstanding_gc_events v1)\<rparr>) =
        Some (ts', i', v')"
    unfolding ts by (auto split: option.splits)
  note p = reduction_install_users_post [OF a Suc.prems(2) Suc.prems(3) Suc.prems(4)]
  let ?v2 = "v1\<lparr>outstanding_gc_events := insert ev (outstanding_gc_events v1)\<rparr>"
  have w: "wf_table (users_table reading ?v2)"
    and f: "fresh_above (a + i1) (users_table reading ?v2)" and l: "i1 \<le> n"
    using p by simp_all
  show ?case
    using Suc.IH [OF b w f l] p by simp
qed

lemma reduction_inv_process_update:
  assumes i: "reduction_inv v" and r: "reduction_process_update ts v = Some (v', rest)"
  shows "reduction_inv v'"
proof -
  from r obtain n1 ts0 where t0: "ts = TSize n1 # ts0"
    unfolding reduction_process_update_def by (auto split: list.splits Token.splits)
  from r obtain ts1 us1 v1 where
    u1: "reduction_unpack_users n1 ts0 v = Some (ts1, us1, v1)"
    unfolding reduction_process_update_def t0 by (auto split: option.splits)
  from r obtain n2 ts2 where t1: "ts1 = TSize n2 # ts2"
    unfolding reduction_process_update_def t0 using u1
    by (auto split: list.splits Token.splits)
  from r obtain ts3 us2 v2 where
    u2: "reduction_unpack_users n2 ts2 v1 = Some (ts3, us2, v2)"
    unfolding reduction_process_update_def t0 using u1 t1 by (auto split: option.splits)
  from r obtain k1 ts4 where t3: "ts3 = TUnsigned k1 # ts4"
    unfolding reduction_process_update_def t0 using u1 t1 u2
    by (auto split: list.splits Token.splits)
  from r obtain ts5 i3 v3 where
    e1: "reduction_process_events False us1 k1 ts4 (0, v2) = Some (ts5, i3, v3)"
    unfolding reduction_process_update_def t0 using u1 t1 u2 t3 by (auto split: option.splits)
  from r obtain k2 ts6 where t5: "ts5 = TUnsigned k2 # ts6"
    unfolding reduction_process_update_def t0 using u1 t1 u2 t3 e1
    by (auto split: list.splits Token.splits)
  from r obtain ts7 i4 where
    e2: "reduction_process_events True us2 k2 ts6 (0, v3) = Some (ts7, i4, v')"
    unfolding reduction_process_update_def t0 using u1 t1 u2 t3 e1 t5
    by (auto split: option.splits)
  let ?a = "next_address v"
  note p1 = reduction_unpack_users_post [OF u1]
  note p2 = reduction_unpack_users_post [OF u2]
  have us1: "us1 = [?a..<?a + n1]" and us2: "us2 = [?a + n1..<?a + n1 + n2]"
    and n2: "next_address v2 = ?a + n1 + n2"
    and red2: "reduction_users v2 = reduction_users v"
    and read2: "reading_users v2 = reading_users v"
    using p1 p2 by simp_all
  have wr: "wf_table (reduction_users v)" and wd: "wf_table (reading_users v)"
    and fr: "fresh_above ?a (reduction_users v)" and fd: "fresh_above ?a (reading_users v)"
    using i unfolding reduction_inv_def by blast+
  have a1: "wf_table (users_table False v2)" "fresh_above (?a + 0) (users_table False v2)"
    using wr fr by (simp_all add: users_table_def red2)
  note q1 = reduction_process_events_post [OF e1 [unfolded us1] a1, simplified]
  have red3: "wf_table (reduction_users v3)" "fresh_above (?a + i3) (reduction_users v3)"
    "i3 \<le> n1" "reading_users v3 = reading_users v" "next_address v3 = ?a + n1 + n2"
    using q1 by (simp_all add: users_table_def read2 n2)
  have a2: "wf_table (users_table True v3)" "fresh_above (?a + n1 + 0) (users_table True v3)"
    using wd fresh_above_mono [OF fd, of "?a + n1"] by (simp_all add: users_table_def red3(4))
  note q2 = reduction_process_events_post [OF e2 [unfolded us2] a2, simplified]
  have red4: "wf_table (reading_users v')" "fresh_above (?a + n1 + i4) (reading_users v')"
    "i4 \<le> n2" "reduction_users v' = reduction_users v3" "next_address v' = ?a + n1 + n2"
    using q2 by (simp_all add: users_table_def red3(5))
  show ?thesis
    unfolding reduction_inv_def red4(4,5)
    using red3(1) red4(1) fresh_above_mono [OF red3(2), of "?a + n1 + n2"]
      fresh_above_mono [OF red4(2), of "?a + n1 + n2"] red3(3) red4(3)
    by simp
qed

lemma reduction_inv_add:
  assumes i: "reduction_inv v"
    and n: "next_address w = Suc (next_address v)"
    and t: "users_table reading w = add_event_user (next_address v) e fm (users_table reading v)"
    and o: "users_table (\<not> reading) w = users_table (\<not> reading) v"
  shows "reduction_inv w"
proof -
  have wr: "wf_table (users_table b v)" and fr: "fresh_above (next_address v) (users_table b v)"
    for b using i unfolding reduction_inv_def users_table_def by simp_all
  note fa = fresh_above_add [OF wr [of reading] fr [of reading], of e fm]
  have a: "wf_table (users_table reading w)" "fresh_above (next_address w) (users_table reading w)"
    unfolding t n using fa by simp_all
  have b: "wf_table (users_table (\<not> reading) w)"
    "fresh_above (next_address w) (users_table (\<not> reading) w)"
    unfolding o n using wr [of "\<not> reading"] fresh_above_mono [OF fr [of "\<not> reading"]] by simp_all
  show ?thesis
    using a b unfolding reduction_inv_def users_table_def by (cases reading) simp_all
qed

lemma reduction_inv_add_user:
  assumes i: "reduction_inv v"
  shows "reduction_inv (snd (snd (reduction_add_user usage' term_event umask v)))"
  by (rule reduction_inv_add [OF i, where reading = "IS_READ_ONLY usage'" and e = term_event
        and fm = umask])
     (simp_all add: reduction_add_user_def Let_def legion_new_def add_physical_user_def
        users_table_def)

lemma reduction_inv_add_copy_user:
  assumes i: "reduction_inv v"
  shows "reduction_inv (snd (reduction_add_copy_user redop' copy_term umask reading v))"
proof (cases "event_exists copy_term")
  case False
  then show ?thesis using i by (simp add: reduction_add_copy_user_def)
next
  case True
  show ?thesis
    by (rule reduction_inv_add [OF i, where reading = reading and e = copy_term and fm = umask])
       (simp_all add: reduction_add_copy_user_def True Let_def legion_new_def
          add_physical_user_def users_table_def)
qed

lemma reduction_inv_add_initial_user:
  assumes i: "reduction_inv v"
  shows "reduction_inv (reduction_add_initial_user term_event usage' umask v)"
  by (rule reduction_inv_add [OF i, where reading = "IS_READ_ONLY usage'" and e = term_event
        and fm = umask])
     (simp_all add: reduction_add_initial_user_def Let_def legion_new_def add_physical_user_def
        users_table_def)

lemma fresh_above_map_erase:
  "fresh_above n t \<Longrightarrow> fresh_above n (map_erase e t)"
  unfolding fresh_above_def user_fields_map_erase by simp

lemma next_address_fold_legion_delete [simp]:
  "next_address (fold legion_delete ps (v :: ReductionView)) = next_address v"
  by (induction ps arbitrary: v) (simp_all add: legion_delete_def)

lemma reduction_inv_filter_local_users:
  assumes i: "reduction_inv v"
  shows "reduction_inv (reduction_filter_local_users e v)"
proof (cases "e \<in> outstanding_gc_events v")
  case False
  then show ?thesis using i by (simp add: reduction_filter_local_users_def)
next
  case True
  note t = reduction_filter_local_users_tables [OF True]
  have n: "next_address (reduction_filter_local_users e v) = next_address v"
    using True
    by (simp add: reduction_filter_local_users_def Let_def delete_users_def fold_delete_frame
        split: option.splits)
  show ?thesis
    using i unfolding reduction_inv_def n t(1) t(2)
    by (simp add: wf_table_map_erase fresh_above_map_erase)
qed

lemma reduction_inv_empty:
  "reduction_users v = [] \<Longrightarrow> reading_users v = [] \<Longrightarrow> reduction_inv v"
  by (simp add: reduction_inv_def fresh_above_def)

lemma reachable_reduction_inv:
  "reachable_reduction v \<Longrightarrow> reduction_inv v"
proof (induction rule: reachable_reduction.induct)
  case (constructed v)
  then show ?case by (rule reduction_inv_empty)
next
  case (initial_user v term_event usage' umask)
  then show ?case by (simp add: reduction_inv_add_initial_user)
next
  case (user v usage' term_event umask)
  then show ?case by (simp add: reduction_inv_add_user)
next
  case (copy_user v redop' copy_term umask reading)
  then show ?case by (simp add: reduction_inv_add_copy_user)
next
  case (gc_fire v term_event)
  then show ?case by (simp add: reduction_inv_filter_local_users)
next
  case (update_processed sender v update_mask v' rest)
  from update_processed have a: "reduction_inv v"
    and b: "reduction_process_update (reduction_send_view_updates update_mask sender) v =
       Some (v', rest)"
    by blast+
  show ?case by (rule reduction_inv_process_update [OF a b])
qed

lemma wf_table_summary:
  assumes "wf_table t" and "entry \<in> set t"
  shows "summary_is_union (snd entry)"
  using assms unfolding wf_table_def wf_bucket_def summary_is_union_def
  by (auto split: Users.splits)

text \<open>
  Claim C6. In every reachable state of a materialized view, every bucket of the current
  and of the previous epoch has a summary mask equal to the union of the masks of its
  users, and so has, in every reachable state of a reduction view, every bucket of the
  reducers and of the readers. (A bucket in the single-user form stores one mask, which is
  the mask of its user and its summary.) The reachable states are those of \<open>reachable\<close>
  and \<open>reachable_reduction\<close>: a view starts with empty tables and is changed by the
  registration of users, the dependence queries, the filters, the collection of fired
  events and the updates received from another reachable view.
\<close>

theorem summary_mask_invariant:
  "(reachable v \<longrightarrow>
      (\<forall>entry \<in> set (current_epoch_users v) \<union> set (previous_epoch_users v).
         summary_is_union (snd entry))) \<and>
   (reachable_reduction rv \<longrightarrow>
      (\<forall>entry \<in> set (reduction_users rv) \<union> set (reading_users rv).
         summary_is_union (snd entry)))"
proof (intro conjI impI ballI)
  fix entry
  assume r: "reachable v"
    and e: "entry \<in> set (current_epoch_users v) \<union> set (previous_epoch_users v)"
  have "wf_table (current_epoch_users v)" "wf_table (previous_epoch_users v)"
    using reachable_view_inv [OF r] unfolding view_inv_def by blast+
  then show "summary_is_union (snd entry)" using e wf_table_summary by blast
next
  fix entry
  assume r: "reachable_reduction rv"
    and e: "entry \<in> set (reduction_users rv) \<union> set (reading_users rv)"
  have "wf_table (reduction_users rv)" "wf_table (reading_users rv)"
    using reachable_reduction_inv [OF r] unfolding reduction_inv_def by blast+
  then show "summary_is_union (snd entry)" using e wf_table_summary by blast
qed

lemma sending_view_reachable: "reachable sending_view"
  unfolding sending_view_def
  by (intro reachable.initial_user reachable.constructed) (simp_all add: empty_view_def)

lemma sending_reduction_view_reachable: "reachable_reduction sending_reduction_view"
  unfolding sending_reduction_view_def
  by (intro reachable_reduction.initial_user reachable_reduction.constructed)
     (simp_all add: empty_reduction_view_def)

lemma sending_view_tables:
  "current_epoch_users sending_view =
     [(2, \<lparr>user_mask = {0, 1}, users = multi_users [(0, {0}), (1, {0, 1})]\<rparr>)]"
  "previous_epoch_users sending_view = []"
  "user_heap sending_view p = \<lparr>usage = read_write_usage, child = InvalidColor, versions = None\<rparr>"
  by (auto simp: sending_view_def add_initial_user_def legion_new_def add_reference_def
      add_current_user_def add_event_user_def empty_view_def Let_def)

lemma sending_view_message:
  "fst (send_view_updates {0} sending_view) =
     [TSize 2,
      TInt 0, TUser \<lparr>usage = read_write_usage, child = InvalidColor, versions = None\<rparr>,
      TInt 1, TUser \<lparr>usage = read_write_usage, child = InvalidColor, versions = None\<rparr>,
      TUnsigned 1,
      TEvent 2, TInt (- 3), TInt 0, TMask {0}, TInt 1, TMask {0},
      TUnsigned 0]"
  unfolding send_view_updates_def sending_view_tables
  by (simp add: send_current_entry_def send_current_user_def send_previous_entry_def
      send_previous_user_def find_or_add_index_def pack_needed_user_def Let_def
      add_reference_def drop_reference_def remove_reference_def legion_delete_def
      sending_view_tables)

lemma sending_view_decoded:
  "\<exists>v'. process_update (fst (send_view_updates {0} sending_view)) empty_view = Some (v', []) \<and>
     current_epoch_users v' =
       [(2, \<lparr>user_mask = {0}, users = multi_users [(0, {0}), (1, {0})]\<rparr>)] \<and>
     previous_epoch_users v' = []"
  unfolding sending_view_message
  by (simp add: process_update_def install_user_def legion_new_def add_reference_def
      add_current_user_def add_previous_user_def add_event_user_def empty_view_def Let_def
      eval_nat_numeral)

lemma sending_reduction_view_tables:
  "reduction_users sending_reduction_view =
     [(1, \<lparr>user_mask = {0, 1}, users = multi_users [(0, {1}), (1, {0})]\<rparr>)]"
  "reading_users sending_reduction_view = []"
  "user_heap sending_reduction_view p =
     \<lparr>usage = reduce_usage, child = InvalidColor, versions = None\<rparr>"
  by (auto simp: sending_reduction_view_def reduction_add_initial_user_def legion_new_def
      add_physical_user_def add_event_user_def empty_reduction_view_def Let_def
      IS_READ_ONLY_def reduce_usage_def)

lemma sending_reduction_view_message:
  "reduction_send_view_updates {0} sending_reduction_view =
     [TSize 2,
      TUser \<lparr>usage = reduce_usage, child = InvalidColor, versions = None\<rparr>,
      TUser \<lparr>usage = reduce_usage, child = InvalidColor, versions = None\<rparr>,
      TSize 0,
      TUnsigned 1,
      TEvent 1, TSize 2, TMask {1}, TMask {0},
      TUnsigned 0]"
  unfolding reduction_send_view_updates_def sending_reduction_view_tables
  by (simp add: reduction_send_entry_def Let_def sending_reduction_view_tables)

lemma sending_reduction_view_decoded:
  "\<exists>v'. reduction_process_update (reduction_send_view_updates {0} sending_reduction_view)
           empty_reduction_view = Some (v', []) \<and>
     reduction_users v' =
       [(1, \<lparr>user_mask = {0, 1}, users = multi_users [(0, {1}), (1, {0})]\<rparr>)] \<and>
     reading_users v' = []"
  unfolding sending_reduction_view_message
  by (simp add: reduction_process_update_def legion_new_def add_reference_def
      add_physical_user_def add_event_user_def empty_reduction_view_def Let_def
      eval_nat_numeral)

text \<open>
  \<open>sending_view\<close> holds two users under one event; the view that processes its update
  for field 0 is reachable and holds their copies in a bucket whose summary mask is the
  union of their masks. Likewise for \<open>sending_reduction_view\<close>, whose update carries
  both users of the bucket with their whole masks.
\<close>

theorem summary_mask_invariant_witness:
  "reachable sending_view \<and>
   list_all (\<lambda>entry. summary_is_union (snd entry)) (current_epoch_users sending_view) \<and>
   (\<exists>v'. process_update (fst (send_view_updates {0} sending_view)) empty_view = Some (v', []) \<and>
      reachable v' \<and>
      current_epoch_users v' =
        [(2, \<lparr>user_mask = {0}, users = multi_users [(0, {0}), (1, {0})]\<rparr>)] \<and>
      list_all (\<lambda>entry. summary_is_union (snd entry)) (current_epoch_users v') \<and>
      list_all (\<lambda>entry. summary_is_union (snd entry)) (previous_epoch_users v')) \<and>
   reachable_reduction sending_reduction_view \<and>
   (\<exists>v'. reduction_process_update (reduction_send_view_updates {0} sending_reduction_view)
           empty_reduction_view = Some (v', []) \<and>
      reachable_reduction v' \<and>
      reduction_users v' =
        [(1, \<lparr>user_mask = {0, 1}, users = multi_users [(0, {1}), (1, {0})]\<rparr>)] \<and>
      list_all (\<lambda>entry. summary_is_union (snd entry)) (reduction_users v') \<and>
      list_all (\<lambda>entry. summary_is_union (snd entry)) (reading_users v'))"
proof -
  have e: "reachable empty_view"
    by (rule reachable.constructed) (simp_all add: empty_view_def)
  have er: "reachable_reduction empty_reduction_view"
    by (rule reachable_reduction.constructed) (simp_all add: empty_reduction_view_def)
  from sending_view_decoded obtain v' where
    pu: "process_update (fst (send_view_updates {0} sending_view)) empty_view = Some (v', [])"
    and c: "current_epoch_users v' =
        [(2, \<lparr>user_mask = {0}, users = multi_users [(0, {0}), (1, {0})]\<rparr>)]"
    by blast
  have rv: "reachable v'"
    by (rule reachable.update_processed [OF sending_view_reachable e pu])
  from sending_reduction_view_decoded obtain w' where
    pw: "reduction_process_update (reduction_send_view_updates {0} sending_reduction_view)
           empty_reduction_view = Some (w', [])"
    and cw: "reduction_users w' =
        [(1, \<lparr>user_mask = {0, 1}, users = multi_users [(0, {1}), (1, {0})]\<rparr>)]"
    by blast
  have rw: "reachable_reduction w'"
    by (rule reachable_reduction.update_processed [OF sending_reduction_view_reachable er pw])
  note t0 = summary_mask_invariant [of sending_view sending_reduction_view]
  note t1 = summary_mask_invariant [of v' w']
  have a0: "list_all (\<lambda>entry. summary_is_union (snd entry)) (current_epoch_users sending_view)"
    using t0 sending_view_reachable unfolding list_all_iff by blast
  have a1: "list_all (\<lambda>entry. summary_is_union (snd entry)) (current_epoch_users v')"
    "list_all (\<lambda>entry. summary_is_union (snd entry)) (previous_epoch_users v')"
    using t1 rv unfolding list_all_iff by blast+
  have a2: "list_all (\<lambda>entry. summary_is_union (snd entry)) (reduction_users w')"
    "list_all (\<lambda>entry. summary_is_union (snd entry)) (reading_users w')"
    using t1 rw unfolding list_all_iff by blast+
  have x: "\<exists>v'. process_update (fst (send_view_updates {0} sending_view)) empty_view = Some (v', []) \<and>
      reachable v' \<and>
      current_epoch_users v' =
        [(2, \<lparr>user_mask = {0}, users = multi_users [(0, {0}), (1, {0})]\<rparr>)] \<and>
      list_all (\<lambda>entry. summary_is_union (snd entry)) (current_epoch_users v') \<and>
      list_all (\<lambda>entry. summary_is_union (snd entry)) (previous_epoch_users v')"
    using pu rv c a1 by blast
  have y: "\<exists>v'. reduction_process_update (reduction_send_view_updates {0} sending_reduction_view)
           empty_reduction_view = Some (v', []) \<and>
      reachable_reduction v' \<and>
      reduction_users v' =
        [(1, \<lparr>user_mask = {0, 1}, users = multi_users [(0, {1}), (1, {0})]\<rparr>)] \<and>
      list_all (\<lambda>entry. summary_is_union (snd entry)) (reduction_users v') \<and>
      list_all (\<lambda>entry. summary_is_union (snd entry)) (reading_users v')"
    using pw rw cw a2 by blast
  show ?thesis
    using sending_view_reachable a0 x sending_reduction_view_reachable y by (intro conjI)
qed

end
